(* ===== verification/Prelude.thy ===== *)
theory Prelude
  imports Main "HOL-Library.Word"
begin

text \<open>
  The vocabulary every component of the model shares.

  \<^item> \<open>fault\<close>: the ways an execution of the C++ code leaves the defined behaviour of the
    language or stops the process (a failed \<open>RAPIDJSON_ASSERT\<close>, a null pointer, an access
    outside a buffer, an iterator to an erased element, the use of an indeterminate value, signed overflow, an exception that no
    handler of the SDK catches, \<open>std::terminate\<close>).
  \<^item> \<open>'a res\<close>: the outcome of a piece of code, a fault or a value.  The SDK's own
    \<open>error_t\<close> codes are ordinary values, because the code returns them.
  \<^item> bytes, little-endian reads and the generic list lemmas the components use.
\<close>

text \<open>
  Two collections the components add to: \<open>outcomes\<close> has the rules that say when a fallible operation ends with a value,
  \<open>opens\<close> has the definitions that take part in opening a connection.
\<close>

named_theorems outcomes
named_theorems opens

declare Let_def [opens]

section \<open>Outcomes of C++ code\<close>

datatype fault =
    Assertion
  | Null_deref
  | Out_of_bounds
  | Indeterminate
  | Signed_overflow
  | Uncaught string
  | Terminate
  | Dangling
  | Divergence

type_synonym 'a res = "fault + 'a"

definition bindR :: "'a res \<Rightarrow> ('a \<Rightarrow> 'b res) \<Rightarrow> 'b res" where
  "bindR m f = (case m of Inl e \<Rightarrow> Inl e | Inr x \<Rightarrow> f x)"

lemma bindR_simps [simp]:
  "bindR (Inl e) f = Inl e"
  "bindR (Inr x) f = f x"
  by (simp_all add: bindR_def)

lemma bindR_cong [fundef_cong]:
  "m = m' \<Longrightarrow> (\<And>x. m' = Inr x \<Longrightarrow> f x = f' x) \<Longrightarrow> bindR m f = bindR m' f'"
  by (cases m') (auto simp: bindR_def)

lemma bindR_Inr_iff [outcomes]: "bindR m f = Inr y \<longleftrightarrow> (\<exists>x. m = Inr x \<and> f x = Inr y)"
  by (cases m) auto

lemma bindR_Inl_iff: "bindR m f = Inl e \<longleftrightarrow> m = Inl e \<or> (\<exists>x. m = Inr x \<and> f x = Inl e)"
  by (cases m) auto

lemma bindR_Inr_id: "bindR m Inr = m"
  by (cases m) auto

lemma bindR_assoc: "bindR (bindR m f) g = bindR m (\<lambda>x. bindR (f x) g)"
  by (cases m) auto

lemma bindR_split:
  "P (bindR m f) \<longleftrightarrow> (\<forall>e. m = Inl e \<longrightarrow> P (Inl e)) \<and> (\<forall>x. m = Inr x \<longrightarrow> P (f x))"
  by (cases m) auto

text \<open>Two outcomes that are the same fault or related values.\<close>

abbreviation rel_res :: "('a \<Rightarrow> 'b \<Rightarrow> bool) \<Rightarrow> 'a res \<Rightarrow> 'b res \<Rightarrow> bool" where
  "rel_res \<equiv> rel_sum (=)"

lemma bindR_rel:
  "rel_res A m m' \<Longrightarrow> (\<And>x y. A x y \<Longrightarrow> rel_res B (f x) (f' y)) \<Longrightarrow> rel_res B (bindR m f) (bindR m' f')"
  by (cases m; cases m') auto

lemma rel_res_refl: "(\<And>x. m = Inr x \<Longrightarrow> A x x) \<Longrightarrow> rel_res A m m"
  by (cases m) auto

text \<open>\<open>guardR b e\<close> stops with the fault \<open>e\<close> unless the condition holds.\<close>

definition guardR :: "bool \<Rightarrow> fault \<Rightarrow> unit res" where
  "guardR b e = (if b then Inr () else Inl e)"

lemma guardR_simps [simp]:
  "guardR True e = Inr ()"
  "guardR False e = Inl e"
  by (simp_all add: guardR_def)

lemma guardR_Inr_iff [simp]: "guardR b e = Inr u \<longleftrightarrow> b"
  by (simp add: guardR_def)

text \<open>The short-circuit operators on fallible conditions.\<close>

definition andR :: "bool res \<Rightarrow> bool res \<Rightarrow> bool res" where
  "andR a b = bindR a (\<lambda>x. if x then b else Inr False)"

definition orR :: "bool res \<Rightarrow> bool res \<Rightarrow> bool res" where
  "orR a b = bindR a (\<lambda>x. if x then Inr True else b)"

lemma andR_simps [simp]: "andR (Inl e) b = Inl e" "andR (Inr x) b = (if x then b else Inr False)"
  by (simp_all add: andR_def)

lemma orR_simps [simp]: "orR (Inl e) b = Inl e" "orR (Inr x) b = (if x then Inr True else b)"
  by (simp_all add: orR_def)

text \<open>Reads and writes of an array of known length.\<close>

definition loadR :: "'a list \<Rightarrow> nat \<Rightarrow> 'a res" where
  "loadR xs i = (if i < length xs then Inr (xs ! i) else Inl Out_of_bounds)"

definition storeR :: "'a list \<Rightarrow> nat \<Rightarrow> 'a \<Rightarrow> 'a list res" where
  "storeR xs i v = (if i < length xs then Inr (xs[i := v]) else Inl Out_of_bounds)"

lemma loadR_Inr_iff [outcomes]: "loadR xs i = Inr v \<longleftrightarrow> i < length xs \<and> v = xs ! i"
  by (auto simp: loadR_def)

lemma storeR_Inr_iff [outcomes]: "storeR xs i v = Inr ys \<longleftrightarrow> i < length xs \<and> ys = xs[i := v]"
  by (auto simp: storeR_def)

text \<open>A run of stores at increasing indices, as \<open>dest[k++] = b\<close> for each byte in turn.\<close>

fun writeR :: "'a list \<Rightarrow> nat \<Rightarrow> 'a list \<Rightarrow> 'a list res" where
  "writeR dest k [] = Inr dest"
| "writeR dest k (b # bs) = bindR (storeR dest k b) (\<lambda>dest'. writeR dest' (Suc k) bs)"

lemma writeR_eq:
  "writeR dest k bs =
     (if bs = [] then Inr dest
      else if k + length bs \<le> length dest then Inr (take k dest @ bs @ drop (k + length bs) dest)
      else Inl Out_of_bounds)"
proof (induction bs arbitrary: dest k)
  case Nil
  then show ?case by simp
next
  case (Cons b bs)
  show ?case
  proof (cases "k < length dest")
    case True
    have "take (Suc k) (dest[k := b]) = take k dest @ [b]"
      using True by (simp add: take_Suc_conv_app_nth)
    moreover have "drop (Suc k + length bs) (dest[k := b]) = drop (Suc k + length bs) dest"
      by simp
    ultimately show ?thesis
      using True Cons.IH [of "dest[k := b]" "Suc k"]
      by (auto simp: storeR_def upd_conv_take_nth_drop)
  next
    case False
    then show ?thesis by (simp add: storeR_def)
  qed
qed

lemma writeR_fault: "writeR dest k bs = Inl e \<Longrightarrow> e = Out_of_bounds"
  by (auto simp: writeR_eq split: if_splits)

declare writeR.simps [simp del]

lemma writeR_Nil [simp]: "writeR dest k [] = Inr dest"
  by (simp add: writeR.simps)

lemma writeR_fits:
  "k + length bs \<le> length dest \<Longrightarrow> writeR dest k bs = Inr (take k dest @ bs @ drop (k + length bs) dest)"
  by (auto simp: writeR_eq)

lemma writeR_append:
  "writeR dest k (xs @ ys) = bindR (writeR dest k xs) (\<lambda>dest'. writeR dest' (k + length xs) ys)"
  by (induction xs arbitrary: dest k) (auto simp: writeR.simps bindR_def split: sum.splits)

text \<open>\<open>mapR\<close> runs a fallible step for each element, left to right, and stops at a fault.\<close>

fun mapR :: "('a \<Rightarrow> 'b res) \<Rightarrow> 'a list \<Rightarrow> 'b list res" where
  "mapR f [] = Inr []"
| "mapR f (x # xs) = bindR (f x) (\<lambda>y. bindR (mapR f xs) (\<lambda>ys. Inr (y # ys)))"

lemma mapR_Inr_iff: "mapR f xs = Inr ys \<longleftrightarrow> list_all2 (\<lambda>x y. f x = Inr y) xs ys"
  by (induction xs arbitrary: ys) (auto simp: bindR_Inr_iff list_all2_Cons1)

lemma mapR_total: "(\<And>x. x \<in> set xs \<Longrightarrow> f x = Inr (g x)) \<Longrightarrow> mapR f xs = Inr (map g xs)"
  by (induction xs) auto

lemma mapR_fault: "x \<in> set xs \<Longrightarrow> f x = Inl e \<Longrightarrow> \<exists>e'. mapR f xs = Inl e'"
  by (induction xs) (auto simp: bindR_def split: sum.splits)

lemma mapR_length: "mapR f xs = Inr ys \<Longrightarrow> length ys = length xs"
  by (auto simp: mapR_Inr_iff dest: list_all2_lengthD)

section \<open>Bytes\<close>

type_synonym byte = "8 word"

text \<open>\<open>char\<close> of HOL is the eight-bit character of the C++ code.\<close>

definition byte_of :: "char \<Rightarrow> byte" where
  "byte_of c = of_char c"

lemma unat_byte_of: "unat (byte_of c) = of_char c"
proof -
  have "(of_char c :: nat) < 256"
    using range_nat_of_char by (metis atLeastLessThan_iff rangeI atLeast0LessThan lessThan_iff)
  then have "unat (of_nat (of_char c) :: byte) = of_char c" by (simp add: unat_of_nat take_bit_eq_mod)
  moreover have "byte_of c = of_nat (of_char c)" by (simp add: byte_of_def del: of_nat_of_char) (simp only: of_nat_of_char)
  ultimately show ?thesis by simp
qed

lemma byte_of_inject: "byte_of a = byte_of b \<longleftrightarrow> a = b"
proof
  assume "byte_of a = byte_of b"
  then have "(of_char a :: nat) = of_char b" by (metis unat_byte_of)
  then show "a = b" by simp
qed simp

definition bytes_of :: "string \<Rightarrow> byte list" where
  "bytes_of s = map byte_of s"

lemma length_bytes_of [simp]: "length (bytes_of s) = length s"
  by (simp add: bytes_of_def)

lemma bytes_of_Nil [simp]: "bytes_of [] = []"
  by (simp add: bytes_of_def)

lemma bytes_of_append [simp]: "bytes_of (s @ t) = bytes_of s @ bytes_of t"
  by (simp add: bytes_of_def)

text \<open>What a \<open>const char*\<close> says of a buffer: the characters before the first NUL.\<close>

definition c_str :: "string \<Rightarrow> string" where
  "c_str s = takeWhile (\<lambda>c. c \<noteq> CHR 0x00) s"

lemma c_str_id: "CHR 0x00 \<notin> set s \<Longrightarrow> c_str s = s"
  by (auto simp: c_str_def takeWhile_eq_all_conv)

text \<open>Little-endian loads, as the packed structures of the wire are read on the host.\<close>

definition le16 :: "byte \<Rightarrow> byte \<Rightarrow> 16 word" where
  "le16 lo hi = push_bit 8 (ucast hi) + ucast lo"

definition le32 :: "byte \<Rightarrow> byte \<Rightarrow> byte \<Rightarrow> byte \<Rightarrow> 32 word" where
  "le32 a b c d = push_bit 24 (ucast d) + push_bit 16 (ucast c) + push_bit 8 (ucast b) + ucast a"

section \<open>Generic lemmas\<close>

unbundle bit_operations_syntax

lemma xor_left_cancel [simp]: "x XOR y = x XOR z \<longleftrightarrow> y = (z :: 'a :: len word)"
proof
  assume "x XOR y = x XOR z"
  then have "x XOR (x XOR y) = x XOR (x XOR z)" by simp
  then show "y = z" by (simp only: xor.assoc [symmetric] xor_self_eq xor.left_neutral)
qed simp

lemma xor_right_cancel [simp]: "y XOR x = z XOR x \<longleftrightarrow> y = (z :: 'a :: len word)"
  by (simp only: xor.commute [of _ x] xor_left_cancel)

text \<open>Equality of bytes, bit by bit: eight goals with numerals for the position.\<close>

lemma byte_eqI:
  fixes v w :: byte
  assumes "bit v 0 = bit w 0" "bit v 1 = bit w 1" "bit v 2 = bit w 2" "bit v 3 = bit w 3"
    "bit v 4 = bit w 4" "bit v 5 = bit w 5" "bit v 6 = bit w 6" "bit v 7 = bit w 7"
  shows "v = w"
proof (rule bit_word_eqI)
  fix n assume "n < LENGTH(8)"
  then have "n = 0 \<or> n = 1 \<or> n = 2 \<or> n = 3 \<or> n = 4 \<or> n = 5 \<or> n = 6 \<or> n = 7"
    by simp arith
  then show "bit v n = bit w n" using assms by (elim disjE) (simp_all only:)
qed

lemma le16_bytes: "ucast (le16 lo hi) = lo" "ucast (drop_bit 8 (le16 lo hi)) = hi"
proof -
  have "le16 lo hi = push_bit 8 (ucast hi) OR ucast lo"
    unfolding le16_def
    by (rule disjunctive_add) (auto simp: bit_simps dest: bit_imp_le_length)
  note eq = this
  show "ucast (le16 lo hi) = lo"
    unfolding eq by (rule bit_word_eqI) (auto simp: bit_simps)
  show "ucast (drop_bit 8 (le16 lo hi)) = hi"
  proof (rule bit_word_eqI)
    fix n assume "n < LENGTH(8)"
    moreover have "\<not> bit lo (n + 8)" by (auto dest: bit_imp_le_length)
    ultimately show "bit (ucast (drop_bit 8 (le16 lo hi)) :: byte) n = bit hi n"
      unfolding eq by (simp add: bit_simps add.commute)
  qed
qed

lemma le16_inject: "le16 a b = le16 c d \<longleftrightarrow> a = c \<and> b = d"
  by (metis le16_bytes)

lemma drop_append_length [simp]: "drop (length xs) (xs @ ys) = ys"
  by simp

lemma append_eq_split:
  assumes "xs @ zs = ys @ ws" and "length ys \<le> length xs"
  shows "xs = ys @ drop (length ys) xs" and "drop (length ys) xs @ zs = ws"
proof -
  have "take (length ys) (xs @ zs) = ys" unfolding assms(1) by simp
  then show "xs = ys @ drop (length ys) xs"
    using assms(2) append_take_drop_id [of "length ys" xs] by simp
  have "drop (length ys) (xs @ zs) = ws" unfolding assms(1) by simp
  then show "drop (length ys) xs @ zs = ws" using assms(2) by simp
qed

lemma takeWhile_dropWhile_split: "length (takeWhile P xs) + length (dropWhile P xs) = length xs"
  by (metis length_append takeWhile_dropWhile_id)

lemma drop_butlast_Suc: "drop (length xs - n) (xs @ [x]) = drop (length xs - n) xs @ [x]"
  by simp

end
