(* ===== verification/Checksum.thy ===== *)
theory Checksum
  imports Prelude
begin

text \<open>
  \<open>Utility::CalculateCRC16\<close> of include/ldcp/utility.h: the CRC-16 checksum of the message headers
  and of the out-of-band packets, in the byte-at-a-time form the code uses.  The theory shows that
  it divides by the polynomial \<open>x^16 + x^12 + x^5 + 1\<close> (the reference is written one bit at a
  time) and that it tells apart any two byte strings that differ in a burst of two bytes.
\<close>

unbundle bit_operations_syntax

section \<open>The code\<close>

text \<open>
  One turn of the loop.  The C++ promotes the operands to \<open>int\<close>; every value is cut to 8 or 16
  bits when it is stored or cast, so the fixed widths give the same bits.  For a range of
  \<open>char\<close> the sign extension of \<open>*iter\<close> is cut off by the store into the 8-bit \<open>value\<close>.
\<close>

definition crc16_step :: "16 word \<Rightarrow> byte \<Rightarrow> 16 word" where
  "crc16_step checksum b =
     (let value = ucast (drop_bit 8 checksum) XOR b;
          value = value XOR drop_bit 4 value
      in push_bit 8 checksum XOR push_bit 12 (ucast value) XOR push_bit 5 (ucast value) XOR ucast value)"

definition CalculateCRC16 :: "byte list \<Rightarrow> 16 word" where
  "CalculateCRC16 bs = foldl crc16_step 0xFFFF bs"

section \<open>The reference: division one bit at a time\<close>

definition crc16_shift :: "16 word \<Rightarrow> 16 word" where
  "crc16_shift r = (if bit r 15 then push_bit 1 r XOR 0x1021 else push_bit 1 r)"

definition crc16_bitwise :: "byte list \<Rightarrow> 16 word" where
  "crc16_bitwise bs =
     foldl (\<lambda>r b. (crc16_shift ^^ 8) (r XOR push_bit 8 (ucast b))) 0xFFFF bs"

section \<open>Linearity\<close>

definition crc16_fold :: "byte \<Rightarrow> 16 word" where
  "crc16_fold u = (let value = u XOR drop_bit 4 u in
     push_bit 12 (ucast value) XOR push_bit 5 (ucast value) XOR ucast value)"

lemma crc16_step_fold:
  "crc16_step c b = push_bit 8 c XOR crc16_fold (ucast (drop_bit 8 c) XOR b)"
  by (simp add: crc16_step_def crc16_fold_def Let_def ac_simps)

lemma crc16_shift_xor: "crc16_shift (x XOR y) = crc16_shift x XOR crc16_shift y"
  by (simp add: crc16_shift_def bit_simps push_bit_xor ac_simps)

lemma crc16_shift_pow_xor:
  "(crc16_shift ^^ k) (x XOR y) = (crc16_shift ^^ k) x XOR (crc16_shift ^^ k) y"
  by (induction k) (simp_all add: crc16_shift_xor)

lemma crc16_fold_xor: "crc16_fold (x XOR y) = crc16_fold x XOR crc16_fold y"
  by (simp add: crc16_fold_def Let_def push_bit_xor ac_simps unsigned_xor_eq)

lemma crc16_shift_0 [simp]: "crc16_shift 0 = 0"
  by (simp add: crc16_shift_def)

lemma crc16_shift_pow_0 [simp]: "(crc16_shift ^^ k) 0 = 0"
  by (induction k) simp_all

text \<open>A linear function on bytes is determined by its values on the eight powers of two.\<close>

lemma less_8_cases: "n < 8 \<Longrightarrow> n = 0 \<or> n = 1 \<or> n = 2 \<or> n = 3 \<or> n = 4 \<or> n = 5 \<or> n = 6 \<or> n = (7::nat)"
  by arith

lemma byte_bits:
  "(v :: byte) = (if bit v 0 then 1 else 0) XOR (if bit v 1 then 2 else 0) XOR
     (if bit v 2 then 4 else 0) XOR (if bit v 3 then 8 else 0) XOR
     (if bit v 4 then 16 else 0) XOR (if bit v 5 then 32 else 0) XOR
     (if bit v 6 then 64 else 0) XOR (if bit v 7 then 128 else 0)"
  (is "v = ?w")
proof (rule bit_word_eqI)
  fix n assume "n < LENGTH(8)"
  then have "n < 8" by simp
  have b: "bit (if P then w else 0) m = (P \<and> bit (w :: byte) m)" for P w m by simp
  from \<open>n < 8\<close> show "bit v n = bit ?w n"
    by (elim less_8_cases [THEN disjE] disjE) (simp_all only: bit_xor_iff b, simp_all)
qed

lemma byte_linear_eqI:
  fixes f g :: "byte \<Rightarrow> 'a :: len word"
  assumes f: "\<And>x y. f (x XOR y) = f x XOR f y"
    and g: "\<And>x y. g (x XOR y) = g x XOR g y"
    and b: "f 0 = g 0" "f 1 = g 1" "f 2 = g 2" "f 4 = g 4" "f 8 = g 8" "f 16 = g 16" "f 32 = g 32"
      "f 64 = g 64" "f 128 = g 128"
  shows "f v = g v"
  by (subst (1 2) byte_bits) (simp only: f g if_distrib [of f] if_distrib [of g] b)

lemma crc16_shift_zero_top:
  "(\<And>n. 16 - k \<le> n \<Longrightarrow> \<not> bit r n) \<Longrightarrow> (crc16_shift ^^ k) r = push_bit k r"
proof (induction k)
  case 0
  then show ?case by simp
next
  case (Suc k)
  show ?case
  proof (cases "k < 16")
    case True
    have "(crc16_shift ^^ k) r = push_bit k r" using Suc.prems by (intro Suc.IH) simp
    moreover have "\<not> bit (push_bit k r) 15"
      using Suc.prems [of "15 - k"] True by (simp add: bit_simps)
    ultimately show ?thesis
      by (simp add: crc16_shift_def [of "push_bit k r"] del: push_bit_eq_mult)
  next
    case False
    then have "r = 0" using Suc.prems by (intro bit_word_eqI) simp
    then show ?thesis by simp
  qed
qed

lemma crc16_shift_low: "(crc16_shift ^^ 8) (ucast (v :: byte)) = push_bit 8 (ucast v)"
  by (rule crc16_shift_zero_top) (auto simp: bit_simps dest: bit_imp_le_length)

lemma crc16_shift_high: "(crc16_shift ^^ 8) (push_bit 8 (ucast (v :: byte))) = crc16_fold v"
  by (rule byte_linear_eqI [where f = "\<lambda>v. (crc16_shift ^^ 8) (push_bit 8 (ucast v))"])
    (simp only: push_bit_xor crc16_shift_pow_xor unsigned_xor_eq, rule crc16_fold_xor, code_simp+)

text \<open>A 16-bit value is its high byte and its low byte.\<close>

lemma word16_split: "(c :: 16 word) = push_bit 8 (ucast (ucast (drop_bit 8 c) :: byte)) XOR ucast (ucast c :: byte)"
  by (rule bit_word_eqI) (auto simp: bit_simps)

lemma crc16_step_shift: "crc16_step c b = (crc16_shift ^^ 8) (c XOR push_bit 8 (ucast b))"
proof -
  let ?h = "ucast (drop_bit 8 c) :: byte" and ?l = "ucast c :: byte"
  have "c XOR push_bit 8 (ucast b) = push_bit 8 (ucast (?h XOR b)) XOR ucast ?l"
    by (subst word16_split) (simp only: unsigned_xor_eq push_bit_xor ac_simps)
  then have "(crc16_shift ^^ 8) (c XOR push_bit 8 (ucast b)) = crc16_fold (?h XOR b) XOR push_bit 8 (ucast ?l)"
    by (simp only: crc16_shift_pow_xor crc16_shift_high crc16_shift_low)
  moreover have "push_bit 8 (ucast ?l) = push_bit 8 c"
    by (rule bit_word_eqI) (auto simp: bit_simps)
  ultimately show ?thesis by (simp only: crc16_step_fold ac_simps)
qed

section \<open>Error detection\<close>

text \<open>The low byte of \<open>crc16_fold u\<close> determines \<open>u\<close>.\<close>

definition crc16_unfold :: "byte \<Rightarrow> byte" where
  "crc16_unfold w = (let v = w XOR push_bit 5 w in v XOR drop_bit 4 v)"

lemma crc16_unfold_fold: "crc16_unfold (ucast (crc16_fold u)) = u"
proof (rule byte_linear_eqI [where g = "\<lambda>v. v"])
  show "crc16_unfold (ucast (crc16_fold (x XOR y))) =
      crc16_unfold (ucast (crc16_fold x)) XOR crc16_unfold (ucast (crc16_fold y))" for x y
    by (simp add: crc16_fold_xor unsigned_xor_eq crc16_unfold_def Let_def push_bit_xor ac_simps)
qed (rule refl, code_simp+)

lemma crc16_step_low: "ucast (crc16_step c b) = (ucast (crc16_fold (ucast (drop_bit 8 c) XOR b)) :: byte)"
proof -
  have "ucast (push_bit 8 c) = (0 :: byte)"
    by (rule bit_word_eqI) (auto simp: bit_simps)
  then show ?thesis by (simp add: crc16_step_fold unsigned_xor_eq)
qed

lemma crc16_step_inj:
  assumes "crc16_step c b = crc16_step c' b'"
  shows "ucast (drop_bit 8 c) XOR b = (ucast (drop_bit 8 c') XOR b' :: byte)"
    and "(ucast c :: byte) = ucast c'"
proof -
  from assms have "crc16_unfold (ucast (crc16_step c b)) = crc16_unfold (ucast (crc16_step c' b'))"
    by simp
  then show u: "ucast (drop_bit 8 c) XOR b = (ucast (drop_bit 8 c') XOR b' :: byte)"
    by (simp only: crc16_step_low crc16_unfold_fold)
  with assms have "push_bit 8 c = push_bit 8 c'"
    by (simp add: crc16_step_fold)
  then have "bit (push_bit 8 c) (n + 8) = bit (push_bit 8 c') (n + 8)" for n
    by (simp only:)
  then show "(ucast c :: byte) = ucast c'"
    by (intro bit_word_eqI) (auto simp: bit_simps)
qed

lemma crc16_step_inj_state: "crc16_step c b = crc16_step c' b \<Longrightarrow> c = c'"
  by (subst word16_split [of c], subst word16_split [of c']) (frule crc16_step_inj(1), drule crc16_step_inj(2), simp)

lemma crc16_step_inj_byte: "crc16_step c b = crc16_step c b' \<Longrightarrow> b = b'"
  by (drule crc16_step_inj(1)) simp

lemma foldl_crc16_inj: "foldl crc16_step c bs = foldl crc16_step c' bs \<Longrightarrow> c = c'"
  by (induction bs arbitrary: c c') (auto dest: crc16_step_inj_state)

lemma crc16_two_inj:
  assumes "crc16_step (crc16_step c a) b = crc16_step (crc16_step c a') b'"
  shows "a = a' \<and> b = b'"
proof -
  from assms have "(ucast (crc16_step c a) :: byte) = ucast (crc16_step c a')"
    by (rule crc16_step_inj(2))
  then have "crc16_unfold (ucast (crc16_step c a)) = crc16_unfold (ucast (crc16_step c a'))"
    by simp
  then have "a = a'" by (simp only: crc16_step_low crc16_unfold_fold) simp
  with assms show ?thesis by (auto dest: crc16_step_inj_byte)
qed

lemma CalculateCRC16_append: "CalculateCRC16 (xs @ ys) = foldl crc16_step (CalculateCRC16 xs) ys"
  by (simp add: CalculateCRC16_def)

lemma CalculateCRC16_burst_inj:
  "CalculateCRC16 (xs @ [a, b] @ ys) = CalculateCRC16 (xs @ [a', b'] @ ys) \<longleftrightarrow> a = a' \<and> b = b'"
  by (auto simp: CalculateCRC16_append dest!: foldl_crc16_inj crc16_two_inj)

section \<open>Properties\<close>

text \<open>
  C32: \<open>Utility::CalculateCRC16\<close>, which folds a whole byte in with three shifts and exclusive ors, is the
  CRC with the CCITT polynomial 0x1021 and initial value 0xFFFF, computed by division one bit at a time.
\<close>

theorem CalculateCRC16_is_division: "CalculateCRC16 bs = crc16_bitwise bs"
proof -
  have "crc16_step = (\<lambda>r b. (crc16_shift ^^ 8) (r XOR push_bit 8 (ucast b)))"
    by (intro ext) (rule crc16_step_shift)
  then show ?thesis by (simp only: CalculateCRC16_def crc16_bitwise_def)
qed

text \<open>
  The checksum separates any two texts that differ only in two neighbouring bytes (so every burst
  error of up to nine bits, and every error in one byte, changes it), and any two texts that differ
  in the byte at the same place.
\<close>

lemma CalculateCRC16_detects_bursts:
  "(CalculateCRC16 (xs @ [a, b] @ ys) = CalculateCRC16 (xs @ [a', b'] @ ys) \<longleftrightarrow> a = a' \<and> b = b') \<and>
   (CalculateCRC16 (xs @ [a] @ ys) = CalculateCRC16 (xs @ [a'] @ ys) \<longleftrightarrow> a = a')"
proof
  show "CalculateCRC16 (xs @ [a, b] @ ys) = CalculateCRC16 (xs @ [a', b'] @ ys) \<longleftrightarrow> a = a' \<and> b = b'"
    by (rule CalculateCRC16_burst_inj)
  show "CalculateCRC16 (xs @ [a] @ ys) = CalculateCRC16 (xs @ [a'] @ ys) \<longleftrightarrow> a = a'"
    by (auto simp: CalculateCRC16_append dest!: foldl_crc16_inj crc16_step_inj_byte)
qed

end
