(* ===== verification/Istream.thy ===== *)
theory Istream
  imports Prelude
begin

text \<open>
  The part of the C++ standard library the message parser of src/transport.cpp is written with: a
  \<open>std::istream\<close> over the receive buffer (formatted extraction of a \<open>size_t\<close> and of a character,
  \<open>read\<close>, \<open>peek\<close>, \<open>ignore\<close>), \<open>std::stoi\<close> with base 16 and the formatted output of
  \<open>std::ostream\<close> in decimal and hexadecimal.
\<close>

section \<open>Characters\<close>

definition is_space :: "char \<Rightarrow> bool" where
  "is_space c \<longleftrightarrow> c \<in> {CHR '' '', CHR 0x09, CHR 0x0A, CHR 0x0B, CHR 0x0C, CHR 0x0D}"

definition is_digit :: "char \<Rightarrow> bool" where
  "is_digit c \<longleftrightarrow> (48 :: nat) \<le> of_char c \<and> of_char c \<le> (57 :: nat)"

definition digit_value :: "char \<Rightarrow> nat" where
  "digit_value c = of_char c - 48"

definition is_xdigit :: "char \<Rightarrow> bool" where
  "is_xdigit c \<longleftrightarrow> is_digit c \<or> (65 :: nat) \<le> of_char c \<and> of_char c \<le> (70 :: nat)
     \<or> (97 :: nat) \<le> of_char c \<and> of_char c \<le> (102 :: nat)"

definition xdigit_value :: "char \<Rightarrow> nat" where
  "xdigit_value c =
     (let n = of_char c in if n \<le> 57 then n - 48 else if n \<le> 70 then n - 55 else n - 87)"

definition digits_value :: "string \<Rightarrow> nat" where
  "digits_value ds = foldl (\<lambda>v c. 10 * v + digit_value c) 0 ds"

definition xdigits_value :: "string \<Rightarrow> nat" where
  "xdigits_value ds = foldl (\<lambda>v c. 16 * v + xdigit_value c) 0 ds"

section \<open>The stream\<close>

record istream =
  ibuf :: string
  eofbit :: bool
  failbit :: bool

definition istream_of :: "string \<Rightarrow> istream" where
  "istream_of buf = \<lparr>ibuf = buf, eofbit = False, failbit = False\<rparr>"

definition good :: "istream \<Rightarrow> bool" where
  "good s \<longleftrightarrow> \<not> eofbit s \<and> \<not> failbit s"

text \<open>
  The sentry of a formatted extraction skips white space; at the end of the buffer, or on a stream
  that is not good, it fails.
\<close>

definition sentry_ws :: "istream \<Rightarrow> istream" where
  "sentry_ws s =
     (if good s then
        let b = dropWhile is_space (ibuf s) in
        if b = [] then s\<lparr>ibuf := [], eofbit := True, failbit := True\<rparr> else s\<lparr>ibuf := b\<rparr>
      else s\<lparr>failbit := True\<rparr>)"

text \<open>
  \<open>istream >> size_t\<close>: an optional sign, then decimal digits.  No digit, or a value above the
  range, sets \<open>failbit\<close>; the digits may run to the end of the buffer, which sets \<open>eofbit\<close>.  A minus
  sign negates modulo 2^64.
\<close>

definition extract_size :: "istream \<Rightarrow> nat \<Rightarrow> istream \<times> nat" where
  "extract_size s0 old =
     (let s = sentry_ws s0 in
      if \<not> good s then (s, old)
      else
        let (neg, b) = (case ibuf s of
              CHR ''-'' # r \<Rightarrow> (True, r) | CHR ''+'' # r \<Rightarrow> (False, r) | b \<Rightarrow> (False, b));
            ds = takeWhile is_digit b; r = dropWhile is_digit b; n = digits_value ds;
            s = s\<lparr>ibuf := r, eofbit := (r = [])\<rparr> in
        if ds = [] then (s\<lparr>failbit := True\<rparr>, 0)
        else if n \<ge> 2 ^ 64 then (s\<lparr>failbit := True\<rparr>, 2 ^ 64 - 1)
        else (s, if neg then (2 ^ 64 - n) mod 2 ^ 64 else n))"

text \<open>\<open>istream >> char\<close>: the next character that is not white space.\<close>

definition extract_char :: "istream \<Rightarrow> char \<Rightarrow> istream \<times> char" where
  "extract_char s0 old =
     (let s = sentry_ws s0 in
      if good s then (s\<lparr>ibuf := tl (ibuf s)\<rparr>, hd (ibuf s)) else (s, old))"

text \<open>\<open>istream.read(p, n)\<close>: the next \<open>n\<close> characters, or all there are and a failure.\<close>

definition istream_read :: "istream \<Rightarrow> nat \<Rightarrow> istream \<times> string" where
  "istream_read s n =
     (if good s then
        (s\<lparr>ibuf := drop n (ibuf s), eofbit := (length (ibuf s) < n), failbit := (length (ibuf s) < n)\<rparr>,
         take n (ibuf s))
      else (s\<lparr>failbit := True\<rparr>, []))"

section \<open>\<open>std::stoi(value, nullptr, 16)\<close>\<close>

text \<open>
  White space, a sign, an optional \<open>0x\<close> that a digit follows, digits; \<open>None\<close> is the exception
  (\<open>std::invalid_argument\<close> without a digit, \<open>std::out_of_range\<close> outside \<open>int\<close>).
\<close>

definition stoi16 :: "string \<Rightarrow> int option" where
  "stoi16 s =
     (let (neg, b) = (case dropWhile is_space s of
            CHR ''-'' # r \<Rightarrow> (True, r) | CHR ''+'' # r \<Rightarrow> (False, r) | b \<Rightarrow> (False, b));
          b = (case b of
            CHR ''0'' # x # d # r \<Rightarrow>
              if (x = CHR ''x'' \<or> x = CHR ''X'') \<and> is_xdigit d then d # r else b
          | _ \<Rightarrow> b);
          ds = takeWhile is_xdigit b;
          v = (if neg then - int (xdigits_value ds) else int (xdigits_value ds))
      in if ds = [] \<or> v < - (2 ^ 31) \<or> v \<ge> 2 ^ 31 then None else Some v)"

section \<open>Formatted output\<close>

definition dec_digit :: "nat \<Rightarrow> char" where
  "dec_digit n = ''0123456789'' ! n"

fun dec_string :: "nat \<Rightarrow> string" where
  "dec_string n = (if n < 10 then [dec_digit n] else dec_string (n div 10) @ [dec_digit (n mod 10)])"

declare dec_string.simps [simp del]

text \<open>One upper-case hexadecimal digit; \<open>hex_string k\<close> pads with zeros to \<open>k\<close> digits.\<close>

definition hex_digit :: "nat \<Rightarrow> char" where
  "hex_digit n = ''0123456789ABCDEF'' ! n"

fun hex_string :: "nat \<Rightarrow> nat \<Rightarrow> string" where
  "hex_string 0 n = []"
| "hex_string (Suc k) n = hex_string k (n div 16) @ [hex_digit (n mod 16)]"

section \<open>Lemmas\<close>

lemma length_hex_string [simp]: "length (hex_string k n) = k"
  by (induction k arbitrary: n) auto

lemma hex_digit_table_list:
  "map xdigit_value ''0123456789ABCDEF'' = [0..<16]"
  "\<forall>c \<in> set ''0123456789ABCDEF''. is_xdigit c \<and> \<not> is_space c \<and> c \<noteq> CHR ''x'' \<and> c \<noteq> CHR ''X'' \<and> c \<noteq> CHR ''-'' \<and> c \<noteq> CHR ''+''"
  by code_simp+

lemma hex_digit_table:
  assumes "n < 16"
  shows "is_xdigit (hex_digit n) \<and> xdigit_value (hex_digit n) = n \<and> \<not> is_space (hex_digit n)
     \<and> hex_digit n \<noteq> CHR ''x'' \<and> hex_digit n \<noteq> CHR ''X'' \<and> hex_digit n \<noteq> CHR ''-'' \<and> hex_digit n \<noteq> CHR ''+''"
proof -
  have "xdigit_value (hex_digit n) = map xdigit_value ''0123456789ABCDEF'' ! n" and "hex_digit n \<in> set ''0123456789ABCDEF''"
    using assms by (simp_all add: hex_digit_def nth_mem del: set_simps list.map nth_Cons_numeral)
  from bspec [OF hex_digit_table_list(2) this(2)] this(1) assms show ?thesis
    by (simp add: hex_digit_table_list(1) del: list.map)
qed

lemma dec_digit_table_list:
  "map digit_value ''0123456789'' = [0..<10]"
  "\<forall>c \<in> set ''0123456789''. is_digit c \<and> \<not> is_space c \<and> c \<noteq> CHR ''-'' \<and> c \<noteq> CHR ''+'' \<and> c \<noteq> CHR 0x7B"
  by code_simp+

lemma dec_digit_table:
  assumes "n < 10"
  shows "is_digit (dec_digit n) \<and> digit_value (dec_digit n) = n \<and> \<not> is_space (dec_digit n)
     \<and> dec_digit n \<noteq> CHR ''-'' \<and> dec_digit n \<noteq> CHR ''+'' \<and> dec_digit n \<noteq> CHR 0x7B"
proof -
  have "digit_value (dec_digit n) = map digit_value ''0123456789'' ! n" and "dec_digit n \<in> set ''0123456789''"
    using assms by (simp_all add: dec_digit_def nth_mem del: set_simps list.map nth_Cons_numeral)
  from bspec [OF dec_digit_table_list(2) this(2)] this(1) assms show ?thesis
    by (simp add: dec_digit_table_list(1) del: list.map)
qed

lemma xdigits_hex_string:
  "n < 16 ^ k \<Longrightarrow> xdigits_value (hex_string k n) = n" "\<forall>c \<in> set (hex_string k n). is_xdigit c \<and> \<not> is_space c"
proof (induction k arbitrary: n)
  case 0
  { case 1 then show ?case by (simp add: xdigits_value_def) }
  { case 2 show ?case by simp }
next
  case (Suc k)
  { case 1
    then have "n div 16 < 16 ^ k" by (simp add: less_mult_imp_div_less mult.commute)
    with Suc show ?case using hex_digit_table by (simp add: xdigits_value_def) }
  { case 2 show ?case using Suc hex_digit_table by simp }
qed

lemma stoi16_digits:
  assumes "ds \<noteq> []" "\<forall>c \<in> set ds. is_xdigit c" "xdigits_value ds < 2 ^ 31"
  shows "stoi16 (''0x'' @ ds) = Some (int (xdigits_value ds))"
proof -
  have "takeWhile is_xdigit ds = ds" using assms(2) by (simp add: takeWhile_eq_all_conv)
  moreover obtain d r where "ds = d # r" "is_xdigit d" using assms(1,2) by (cases ds) auto
  ultimately show ?thesis using assms(2,3)
    by (simp add: stoi16_def is_space_def Let_def takeWhile_eq_all_conv [THEN iffD2])
qed

lemma stoi16_hex_string: "n < 16 ^ k \<Longrightarrow> 0 < k \<Longrightarrow> k < 8 \<Longrightarrow> stoi16 (''0x'' @ hex_string k n) = Some (int n)"
proof -
  assume a: "n < 16 ^ k" "0 < k" "k < 8"
  have "(16 :: nat) ^ k \<le> 16 ^ 7" using a(3) by (intro power_increasing) auto
  with a have "n < 2 ^ 31" by simp
  moreover have "hex_string k n \<noteq> []" using a(2) by (metis length_hex_string list.size(3) less_numeral_extra(3))
  ultimately show ?thesis
    using stoi16_digits [of "hex_string k n"] xdigits_hex_string a(1) by simp
qed

lemma dec_string_props:
  "digits_value (dec_string n) = n \<and> (\<forall>c \<in> set (dec_string n). is_digit c \<and> \<not> is_space c) \<and>
   dec_string n \<noteq> [] \<and> hd (dec_string n) \<noteq> CHR ''-'' \<and> hd (dec_string n) \<noteq> CHR ''+'' \<and> hd (dec_string n) \<noteq> CHR 0x7B"
proof (induction n rule: dec_string.induct)
  case (1 n)
  show ?case
  proof (cases "n < 10")
    case True
    then show ?thesis using dec_digit_table by (simp add: dec_string.simps [of n] digits_value_def)
  next
    case False
    then show ?thesis using 1 dec_digit_table
      by (simp add: dec_string.simps [of n] digits_value_def hd_append)
  qed
qed

end
