(* ===== verification/Json.thy ===== *)
theory Json
  imports Prelude Complex_Main
begin

text \<open>
  The JSON values of RapidJSON (third_party/RapidJSON/rapidjson-1.1.0/include/rapidjson/document.h)
  as the SDK uses them: \<open>HasMember\<close>, \<open>operator[]\<close>, \<open>AddMember\<close>, \<open>SetString\<close>, the getters and the
  comparison with an \<open>int\<close> or a string literal.  An object is the list of its members in order, because
  \<open>AddMember\<close> appends without looking for a member of the same name and a lookup takes the first
  one.  Where the library has \<open>RAPIDJSON_ASSERT\<close> the model has the fault \<open>Assertion\<close> (the
  library is built without \<open>NDEBUG\<close>).  A parsed number with a fraction or exponent is a finite
  double, so a rational.  A string from \<open>StringRef\<close> is not copied: \<open>JStringRef\<close> holds the address of its
  characters and the length they had then (theory \<open>Shared_Text\<close>); the SDK only puts it in requests and never
  reads it back.
\<close>

section \<open>Values\<close>

datatype json =
    JNull
  | JBool bool
  | JInt int
  | JDouble rat
  | JString string
  | JArray "json list"
  | JObject "(string \<times> json) list"
  | JStringRef nat nat

definition IsObject :: "json \<Rightarrow> bool" where
  "IsObject v = (case v of JObject _ \<Rightarrow> True | _ \<Rightarrow> False)"

definition IsNull :: "json \<Rightarrow> bool" where
  "IsNull v = (case v of JNull \<Rightarrow> True | _ \<Rightarrow> False)"

text \<open>\<open>kIntFlag\<close> is set exactly for the integers that fit an \<open>int\<close>.\<close>

definition IsInt :: "json \<Rightarrow> bool" where
  "IsInt v = (case v of JInt i \<Rightarrow> - (2 ^ 31) \<le> i \<and> i < 2 ^ 31 | _ \<Rightarrow> False)"

section \<open>Members\<close>

definition HasMember :: "json \<Rightarrow> string \<Rightarrow> bool res" where
  "HasMember v name = (case v of JObject ms \<Rightarrow> Inr (map_of ms name \<noteq> None) | _ \<Rightarrow> Inl Assertion)"

definition member :: "json \<Rightarrow> string \<Rightarrow> json res" where
  "member v name = (case v of
     JObject ms \<Rightarrow> (case map_of ms name of Some x \<Rightarrow> Inr x | None \<Rightarrow> Inl Assertion)
   | _ \<Rightarrow> Inl Assertion)"

definition AddMember :: "json \<Rightarrow> string \<Rightarrow> json \<Rightarrow> json res" where
  "AddMember v name x = (case v of JObject ms \<Rightarrow> Inr (JObject (ms @ [(name, x)])) | _ \<Rightarrow> Inl Assertion)"

text \<open>Assignment through the reference \<open>operator[]\<close> returns: the first member of that name.\<close>

fun update_first :: "string \<Rightarrow> json \<Rightarrow> (string \<times> json) list \<Rightarrow> (string \<times> json) list" where
  "update_first name x [] = []"
| "update_first name x ((n, y) # ms) = (if n = name then (n, x) # ms else (n, y) # update_first name x ms)"

definition SetMember :: "json \<Rightarrow> string \<Rightarrow> json \<Rightarrow> json res" where
  "SetMember v name x = (case v of
     JObject ms \<Rightarrow> if map_of ms name = None then Inl Assertion else Inr (JObject (update_first name x ms))
   | _ \<Rightarrow> Inl Assertion)"

lemma map_of_update_first:
  "map_of ms name \<noteq> None \<Longrightarrow> map_of (update_first name x ms) = (map_of ms)(name \<mapsto> x)"
  by (induction ms) (auto simp: fun_eq_iff)

section \<open>Getters\<close>

definition GetInt :: "json \<Rightarrow> int res" where
  "GetInt v = (case v of JInt i \<Rightarrow> if IsInt v then Inr i else Inl Assertion | _ \<Rightarrow> Inl Assertion)"

definition GetInt64 :: "json \<Rightarrow> int res" where
  "GetInt64 v = (case v of
     JInt i \<Rightarrow> if - (2 ^ 63) \<le> i \<and> i < 2 ^ 63 then Inr i else Inl Assertion
   | _ \<Rightarrow> Inl Assertion)"

definition GetBool :: "json \<Rightarrow> bool res" where
  "GetBool v = (case v of JBool b \<Rightarrow> Inr b | _ \<Rightarrow> Inl Assertion)"

text \<open>\<open>GetString\<close> returns the characters; the length is \<open>GetStringLength\<close>.\<close>

definition GetString :: "json \<Rightarrow> string res" where
  "GetString v = (case v of JString s \<Rightarrow> Inr s | _ \<Rightarrow> Inl Assertion)"

text \<open>
  \<open>GetDouble\<close>: an integer of up to 53 bits is exact; a longer 64-bit one is rounded to the nearest
  value with 53 significant bits, ties to even.
\<close>

definition round53 :: "nat \<Rightarrow> nat" where
  "round53 n =
     (case find (\<lambda>k. n < 2 ^ (53 + k)) [0..<12] of
        None \<Rightarrow> n
      | Some k \<Rightarrow>
          let q = n div 2 ^ k; r = n mod 2 ^ k in
          (if 2 * r > 2 ^ k \<or> (2 * r = 2 ^ k \<and> odd q) then q + 1 else q) * 2 ^ k)"

definition int_to_double :: "int \<Rightarrow> rat" where
  "int_to_double i = (if i < 0 then - of_nat (round53 (nat (- i))) else of_nat (round53 (nat i)))"

definition GetDouble :: "json \<Rightarrow> rat res" where
  "GetDouble v = (case v of JDouble d \<Rightarrow> Inr d | JInt i \<Rightarrow> Inr (int_to_double i) | _ \<Rightarrow> Inl Assertion)"

definition ArraySize :: "json \<Rightarrow> nat res" where
  "ArraySize v = (case v of JArray xs \<Rightarrow> Inr (length xs) | _ \<Rightarrow> Inl Assertion)"

definition ArrayAt :: "json \<Rightarrow> nat \<Rightarrow> json res" where
  "ArrayAt v i = (case v of JArray xs \<Rightarrow> if i < length xs then Inr (xs ! i) else Inl Assertion | _ \<Rightarrow> Inl Assertion)"

section \<open>Comparison\<close>

text \<open>
  \<open>operator==\<close> of a value with an \<open>int\<close>: two integers are compared by their 64 bits, a double
  by value; a value of another type is different.  With a string literal: type, length, characters.
\<close>

definition eq_int :: "json \<Rightarrow> int \<Rightarrow> bool" where
  "eq_int v i = (case v of
     JInt a \<Rightarrow> a mod 2 ^ 64 = i mod 2 ^ 64
   | JDouble d \<Rightarrow> d = of_int i
   | _ \<Rightarrow> False)"

definition eq_string :: "json \<Rightarrow> string \<Rightarrow> bool" where
  "eq_string v s = (case v of JString t \<Rightarrow> t = s | _ \<Rightarrow> False)"

section \<open>Lemmas\<close>

lemma HasMember_JObject [simp]: "HasMember (JObject ms) name = Inr (map_of ms name \<noteq> None)"
  by (simp add: HasMember_def)

lemma member_JObject [simp]:
  "member (JObject ms) name = (case map_of ms name of Some x \<Rightarrow> Inr x | None \<Rightarrow> Inl Assertion)"
  by (simp add: member_def)

lemma AddMember_JObject [simp]: "AddMember (JObject ms) name x = Inr (JObject (ms @ [(name, x)]))"
  by (simp add: AddMember_def)

lemma member_Inr_iff: "member v name = Inr x \<longleftrightarrow> (\<exists>ms. v = JObject ms \<and> map_of ms name = Some x)"
  by (auto simp: member_def split: json.splits option.splits)

lemma AddMember_Inr_iff: "AddMember v name x = Inr w \<longleftrightarrow> (\<exists>ms. v = JObject ms \<and> w = JObject (ms @ [(name, x)]))"
  by (auto simp: AddMember_def split: json.splits)

lemma IsObject_iff: "IsObject v \<longleftrightarrow> (\<exists>ms. v = JObject ms)"
  by (auto simp: IsObject_def split: json.splits)

lemma GetInt_JInt [simp]: "GetInt (JInt i) = (if - (2 ^ 31) \<le> i \<and> i < 2 ^ 31 then Inr i else Inl Assertion)"
  by (simp add: GetInt_def IsInt_def)

lemma GetInt_Inr_iff: "GetInt v = Inr i \<longleftrightarrow> v = JInt i \<and> - (2 ^ 31) \<le> i \<and> i < 2 ^ 31"
  by (auto simp: GetInt_def IsInt_def split: json.splits)

lemma GetBool_JBool [simp]: "GetBool (JBool b) = Inr b"
  by (simp add: GetBool_def)

lemma GetString_JString [simp]: "GetString (JString s) = Inr s"
  by (simp add: GetString_def)

lemma eq_int_JInt:
  assumes "- (2 ^ 31) \<le> a" "a < 2 ^ 31" "- (2 ^ 31) \<le> i" "i < 2 ^ 31"
  shows "eq_int (JInt a) i \<longleftrightarrow> a = i"
proof
  assume "eq_int (JInt a) i"
  then have "(2 :: int) ^ 64 dvd a - i" by (simp add: eq_int_def mod_eq_dvd_iff)
  moreover have "\<bar>a - i\<bar> < 2 ^ 64" using assms by simp
  ultimately show "a = i" using dvd_imp_le_int [of "a - i" "2 ^ 64"] by auto
qed (simp add: eq_int_def)

text \<open>An integer or double equals at most one \<open>int\<close>.\<close>

lemma eq_int_unique:
  assumes "eq_int v i" "eq_int v j"
    and "- (2 ^ 31) \<le> i" "i < 2 ^ 31" "- (2 ^ 31) \<le> j" "j < 2 ^ 31"
  shows "i = j"
proof (cases v)
  case (JInt a)
  with assms(1,2) have "eq_int (JInt i) j" by (simp add: eq_int_def)
  with assms(3-6) show ?thesis by (simp add: eq_int_JInt)
next
  case (JDouble d)
  with assms(1,2) show ?thesis by (simp add: eq_int_def)
qed (use assms(1) in \<open>simp_all add: eq_int_def\<close>)

end
