(* ===== verification/Framing.thy ===== *)
theory Framing
  imports Checksum Istream Json "HOL-Library.Sublist"
begin

text \<open>
  The message format of the TCP connection, from src/transport.cpp:
  \<open>NetworkTransport::encapsulateOutgoingMessage\<close> and \<open>NetworkTransport::parseIncomingMessage\<close>.
  A message is a sequence of net-strings, \<open>15:checksum=0xABCD,0:,<length>:<JSON text>,\<close> and a line
  end, or a bare JSON object and a line end.

  RapidJSON's writer and reader are parameters: \<open>wr d\<close> is the text of a document, \<open>rd buf\<close> is the
  document parsed at the start of the buffer (\<open>None\<close> for a parse error) with the number of
  characters taken from the stream.
\<close>

type_synonym json_writer = "json \<Rightarrow> string"
type_synonym json_reader = "string \<Rightarrow> json option \<times> nat"

section \<open>The sender\<close>

definition CRLF :: string where
  "CRLF = [CHR 0x0D, CHR 0x0A]"

text \<open>
  The three stream buffers of an outgoing message: leading part, main part, trailing part.  The
  function appends to what they hold and measures the main buffer.
\<close>

type_synonym bufs = "string \<times> string \<times> string"

definition encapsulateOutgoingMessage :: "json_writer \<Rightarrow> json \<Rightarrow> bufs \<Rightarrow> bufs" where
  "encapsulateOutgoingMessage wr message buffers =
     (case buffers of (leading_part, main_part, trailing_part) \<Rightarrow>
        let main_part = main_part @ wr message;
            checksum = CalculateCRC16 (bytes_of main_part);
            leading_part = leading_part @ ''15:checksum=0x'' @ hex_string 4 (unat checksum) @ '',''
              @ ''0:,'' @ dec_string (length main_part) @ '':''
        in (leading_part, main_part, trailing_part @ '','' @ CRLF))"

definition wire_text :: "bufs \<Rightarrow> string" where
  "wire_text bufs = (case bufs of (a, b, c) \<Rightarrow> a @ b @ c)"

section \<open>The receiver\<close>

text \<open>\<open>std::string::npos\<close>, the value \<open>character_count\<close> starts from.\<close>

definition npos :: nat where
  "npos = 2 ^ 64 - 1"

definition MESSAGE_LENGTH_MAX :: nat where
  "MESSAGE_LENGTH_MAX = 65535"

text \<open>
  A header net-string \<open>key=value\<close>.  Without \<open>'='\<close> the second \<open>substr\<close> starts past the end and throws;
  so does \<open>stoi\<close> on a value that is not a number.  Only the key \<open>checksum\<close> is looked at.
\<close>

definition read_header :: "string \<Rightarrow> int \<Rightarrow> int option" where
  "read_header character_sequence expected_checksum =
     (let key = takeWhile (\<lambda>c. c \<noteq> CHR ''='') character_sequence in
      if length key + 1 > length character_sequence then None
      else
        let val = drop (length key + 1) character_sequence in
        if key = ''checksum'' then stoi16 val else Some expected_checksum)"

text \<open>Every extraction takes characters from the front of the buffer.\<close>

lemma sentry_ws_length: "length (ibuf (sentry_ws s)) \<le> length (ibuf s)"
  by (simp add: sentry_ws_def Let_def length_dropWhile_le)

lemma extract_char_length: "length (ibuf (fst (extract_char s c))) \<le> length (ibuf s)"
  using sentry_ws_length [of s] by (auto simp: extract_char_def Let_def)

lemma istream_read_length: "length (ibuf (fst (istream_read s n))) \<le> length (ibuf s)"
  by (simp add: istream_read_def)

lemma good_extract_char: "good (fst (extract_char s c)) \<Longrightarrow> good s"
  by (auto simp: extract_char_def sentry_ws_def good_def Let_def split: if_splits)

lemma good_istream_read: "good (fst (istream_read s n)) \<Longrightarrow> good s"
  by (auto simp: istream_read_def good_def split: if_splits)

lemma extract_size_length:
  "length (ibuf (fst (extract_size s old))) \<le> length (ibuf s)"
  "good (fst (extract_size s old)) \<Longrightarrow> length (ibuf (fst (extract_size s old))) < length (ibuf s)"
proof -
  let ?b = "ibuf (sentry_ws s)"
  define b where "b = (case ?b of CHR ''-'' # r \<Rightarrow> (True, r) | CHR ''+'' # r \<Rightarrow> (False, r) | b \<Rightarrow> (False, b))"
  have le: "length (snd b) \<le> length ?b"
    by (auto simp: b_def split: list.splits char.splits bool.splits)
  have split: "length (takeWhile is_digit (snd b)) + length (dropWhile is_digit (snd b)) = length (snd b)"
    by (rule takeWhile_dropWhile_split)
  note defs = extract_size_def Let_def b_def [symmetric] case_prod_beta
  show "length (ibuf (fst (extract_size s old))) \<le> length (ibuf s)"
    using le split sentry_ws_length [of s] by (auto simp: defs)
  show "length (ibuf (fst (extract_size s old))) < length (ibuf s)" if "good (fst (extract_size s old))"
    using le split sentry_ws_length [of s] that
    by (cases "takeWhile is_digit (snd b)") (auto simp: defs good_def split: if_splits)
qed

lemma netstring_progress:
  assumes "good (fst (extract_char (fst (istream_read (fst (extract_char (fst (extract_size is n)) c)) m)) c'))"
  shows "length (ibuf (fst (extract_char (fst (istream_read (fst (extract_char (fst (extract_size is n)) c)) m)) c')))
    < length (ibuf is)"
proof -
  let ?s1 = "fst (extract_size is n)" let ?s2 = "fst (extract_char ?s1 c)" let ?s3 = "fst (istream_read ?s2 m)"
  have "good ?s1" using assms by (blast dest: good_extract_char good_istream_read)
  then have "length (ibuf ?s1) < length (ibuf is)" by (rule extract_size_length)
  then show ?thesis
    using extract_char_length [of ?s1 c] istream_read_length [of ?s2 m] extract_char_length [of ?s3 c'] by linarith
qed

text \<open>
  The loop over the net-strings.  \<open>None\<close> is an exception, caught by the function, or the end of a
  message without payload; the stream is returned as it was left.  Once the headers have ended
  (\<open>end_of_headers\<close>) the checksum of the next \<open>character_count\<close> characters is compared, and the
  JSON reader starts at the same place.
\<close>

function parse_netstrings :: "json_reader \<Rightarrow> istream \<Rightarrow> int \<Rightarrow> bool \<Rightarrow> istream \<times> json option" where
  "parse_netstrings rd is expected_checksum end_of_headers =
     (let r1 = extract_size is npos; character_count = snd r1;
          r2 = extract_char (fst r1) CHR 0x00; is2 = fst r2
      in if \<not> good is2 \<or> character_count > MESSAGE_LENGTH_MAX \<or> snd r2 \<noteq> CHR '':'' then (is2, None)
      else if \<not> end_of_headers then
        (let r3 = istream_read is2 character_count;
             r4 = extract_char (fst r3) CHR 0x00; is4 = fst r4
         in if \<not> good is4 \<or> snd r4 \<noteq> CHR '','' then (is4, None)
            else if character_count = 0 then parse_netstrings rd is4 expected_checksum True
            else (case read_header (snd r3) expected_checksum of
                None \<Rightarrow> (is4, None)
              | Some expected_checksum \<Rightarrow> parse_netstrings rd is4 expected_checksum False))
      else if \<not> length (ibuf is2) \<ge> character_count + 1 then (is2, None)
      else if int (unat (CalculateCRC16 (bytes_of (take character_count (ibuf is2))))) \<noteq> expected_checksum
      then (is2, None)
      else if ibuf is2 ! character_count \<noteq> CHR '','' then (is2, None)
      else if character_count = 0 then (is2, None)
      else (case rd (ibuf is2) of (message, taken) \<Rightarrow> (is2\<lparr>ibuf := drop taken (ibuf is2)\<rparr>, message)))"
  by pat_completeness auto

termination
  by (relation "measure (\<lambda>(rd, is, e, h). length (ibuf is))") (auto simp: netstring_progress)

declare parse_netstrings.simps [simp del]

text \<open>
  \<open>parseIncomingMessage(length)\<close> on the receive buffer, of which \<open>len\<close> characters are the line that
  was received: the buffer that is left and the message, \<open>null\<close> when there is none.  The
  argument of \<open>ignore\<close> is a signed count, so a line of which more was consumed is left alone.
\<close>

definition parse_stream :: "json_reader \<Rightarrow> string \<Rightarrow> istream \<times> json option" where
  "parse_stream rd buf =
     (case buf of
        CHR 0x7B # _ \<Rightarrow> (case rd buf of (message, taken) \<Rightarrow> (istream_of (drop taken buf), message))
      | _ \<Rightarrow> parse_netstrings rd (istream_of buf) (- 1) False)"

definition parseIncomingMessage :: "json_reader \<Rightarrow> string \<Rightarrow> nat \<Rightarrow> string \<times> json" where
  "parseIncomingMessage rd buf len =
     (case parse_stream rd buf of (is, message) \<Rightarrow>
        (drop (len - (length buf - length (ibuf is))) (ibuf is),
         (case message of Some d \<Rightarrow> if IsObject d then d else JNull | None \<Rightarrow> JNull)))"

section \<open>What is left of the buffer\<close>

lemma sentry_ws_suffix: "suffix (ibuf (sentry_ws s)) (ibuf s)"
  by (auto simp: sentry_ws_def Let_def suffix_dropWhile)

lemma extract_char_suffix: "suffix (ibuf (fst (extract_char s c))) (ibuf s)"
  using suffix_order.trans [OF suffix_tl sentry_ws_suffix [of s]] sentry_ws_suffix [of s]
  by (simp add: extract_char_def Let_def)

lemma istream_read_suffix: "suffix (ibuf (fst (istream_read s n))) (ibuf s)"
  by (simp add: istream_read_def suffix_drop)

lemma extract_size_suffix: "suffix (ibuf (fst (extract_size s old))) (ibuf s)"
proof -
  define b where "b = (case ibuf (sentry_ws s) of CHR ''-'' # r \<Rightarrow> (True, r) | CHR ''+'' # r \<Rightarrow> (False, r) | b \<Rightarrow> (False, b))"
  have "suffix (snd b) (ibuf (sentry_ws s))"
    by (auto simp: b_def suffix_ConsI split: list.splits char.splits bool.splits)
  then have "suffix (dropWhile is_digit (snd b)) (ibuf s)"
    by (meson sentry_ws_suffix suffix_dropWhile suffix_order.trans)
  then show ?thesis
    by (simp add: extract_size_def Let_def b_def [symmetric] case_prod_beta sentry_ws_suffix)
qed

lemma parse_netstrings_suffix: "suffix (ibuf (fst (parse_netstrings rd is e h))) (ibuf is)"
proof (induction rd "is" e h rule: parse_netstrings.induct)
  case (1 rd "is" e h)
  define r1 where "r1 = extract_size is npos"
  define r2 where "r2 = extract_char (fst r1) CHR 0x00"
  define r3 where "r3 = istream_read (fst r2) (snd r1)"
  define r4 where "r4 = extract_char (fst r3) CHR 0x00"
  have s2: "suffix (ibuf (fst r2)) (ibuf is)"
    using extract_char_suffix extract_size_suffix suffix_order.trans unfolding r1_def r2_def by blast
  then have s4: "suffix (ibuf (fst r4)) (ibuf is)"
    using extract_char_suffix istream_read_suffix suffix_order.trans unfolding r3_def r4_def by blast
  have rec: "suffix (ibuf (fst (parse_netstrings rd (fst r4) e' h'))) (ibuf is)"
    if "suffix (ibuf (fst (parse_netstrings rd (fst r4) e' h'))) (ibuf (fst r4))" for e' h'
    using that s4 suffix_order.trans by blast
  note IH = 1(1) [OF r1_def refl r2_def refl _ _ r3_def r4_def refl]
    1(2) [OF r1_def refl r2_def refl _ _ r3_def r4_def refl]
  have sd: "suffix (drop t (ibuf (fst r2))) (ibuf is)" for t
    using s2 suffix_drop suffix_order.trans by blast
  show ?case
    using IH s2 s4 rec sd
    by (subst parse_netstrings.simps)
      (simp add: r1_def [symmetric] r2_def [symmetric] r3_def [symmetric] r4_def [symmetric] Let_def
        split: option.splits prod.splits)
qed

lemma parse_stream_suffix: "suffix (ibuf (fst (parse_stream rd buf))) buf"
  using parse_netstrings_suffix [of rd "istream_of buf"]
  by (auto simp: parse_stream_def istream_of_def suffix_drop split: list.splits char.splits bool.splits prod.splits)

lemma drop_suffix:
  "suffix r buf \<Longrightarrow> drop (len - (length buf - length r)) r = drop (max len (length buf - length r)) buf"
  by (auto simp: suffix_def max_def)

lemma parseIncomingMessage_buffer:
  "fst (parseIncomingMessage rd buf len) =
    drop (max len (length buf - length (ibuf (fst (parse_stream rd buf))))) buf"
  by (simp add: parseIncomingMessage_def case_prod_beta drop_suffix [OF parse_stream_suffix])

section \<open>Well-formed net-strings\<close>

lemma extract_char_front:
  "\<not> is_space c \<Longrightarrow> extract_char (istream_of (c # rest)) old = (istream_of rest, c)"
  by (simp add: extract_char_def sentry_ws_def istream_of_def good_def)

lemma istream_read_front: "istream_read (istream_of (xs @ rest)) (length xs) = (istream_of rest, xs)"
  by (simp add: istream_read_def istream_of_def good_def)

lemma extract_size_front:
  assumes "n < 2 ^ 64" and "\<not> is_digit c"
  shows "extract_size (istream_of (dec_string n @ c # rest)) old = (istream_of (c # rest), n)"
proof -
  obtain d ds where ds: "dec_string n = d # ds" using dec_string_props [of n] by (cases "dec_string n") auto
  have digits: "\<forall>x \<in> set (d # ds). is_digit x" and "\<not> is_space d" "d \<noteq> CHR ''-''" "d \<noteq> CHR ''+''"
    using dec_string_props [of n] ds by auto
  then have sentry: "sentry_ws (istream_of ((d # ds) @ c # rest)) = istream_of ((d # ds) @ c # rest)"
    by (simp add: sentry_ws_def istream_of_def good_def)
  have sign: "(case (d # ds) @ c # rest of CHR ''-'' # r \<Rightarrow> (True, r) | CHR ''+'' # r \<Rightarrow> (False, r) | b \<Rightarrow> (False, b))
      = (False, (d # ds) @ c # rest)"
    using \<open>d \<noteq> CHR ''-''\<close> \<open>d \<noteq> CHR ''+''\<close> by (auto split: char.splits bool.splits)
  have tw: "takeWhile is_digit ((d # ds) @ c # rest) = d # ds" "dropWhile is_digit ((d # ds) @ c # rest) = c # rest"
    using digits assms(2) by (simp_all add: takeWhile_append dropWhile_append)
  have "digits_value (d # ds) = n" using dec_string_props [of n] ds by simp
  with assms(1) sentry sign tw show ?thesis
    unfolding ds by (simp add: extract_size_def Let_def istream_of_def good_def)
qed

lemma not_special [simp]: "\<not> is_digit CHR '':''" "\<not> is_space CHR '':''" "\<not> is_space CHR '',''"
  by (simp_all add: is_digit_def is_space_def)

lemma good_istream_of [simp]: "good (istream_of b)"
  by (simp add: good_def istream_of_def)

lemma ibuf_istream_of [simp]: "ibuf (istream_of b) = b"
  by (simp add: istream_of_def)

text \<open>One header net-string, and the payload net-string.\<close>

lemma parse_header_netstring:
  assumes "length s \<le> MESSAGE_LENGTH_MAX"
  shows "parse_netstrings rd (istream_of (dec_string (length s) @ '':'' @ s @ '','' @ rest)) e False =
    (if s = [] then parse_netstrings rd (istream_of rest) e True
     else case read_header s e of
         None \<Rightarrow> (istream_of rest, None)
       | Some e \<Rightarrow> parse_netstrings rd (istream_of rest) e False)"
  using assms
  by (subst parse_netstrings.simps)
    (simp add: extract_size_front extract_char_front istream_read_front MESSAGE_LENGTH_MAX_def Let_def
      split: option.split)

lemma parse_payload_netstring:
  assumes "length body \<le> MESSAGE_LENGTH_MAX"
  shows "parse_netstrings rd (istream_of (dec_string (length body) @ '':'' @ body @ '','' @ rest)) e True =
    (if e \<noteq> int (unat (CalculateCRC16 (bytes_of body))) \<or> body = []
     then (istream_of (body @ '','' @ rest), None)
     else case rd (body @ '','' @ rest) of
         (message, taken) \<Rightarrow> (istream_of (drop taken (body @ '','' @ rest)), message))"
  using assms
  by (subst parse_netstrings.simps)
    (simp add: extract_size_front extract_char_front MESSAGE_LENGTH_MAX_def Let_def nth_append,
     auto simp: istream_of_def)

text \<open>The frame of the sender, with any text in the place of the payload.\<close>

definition frame :: "16 word \<Rightarrow> nat \<Rightarrow> string \<Rightarrow> string" where
  "frame checksum len body =
     ''15:checksum=0x'' @ hex_string 4 (unat checksum) @ '',0:,'' @ dec_string len @ '':'' @ body @ '','' @ CRLF"

lemma wire_text_frame:
  "wire_text (encapsulateOutgoingMessage wr d ([], [], [])) = frame (CalculateCRC16 (bytes_of (wr d))) (length (wr d)) (wr d)"
  by (simp add: encapsulateOutgoingMessage_def wire_text_def frame_def Let_def)

lemma dec_string_15: "dec_string 15 = ''15''" and dec_string_0: "dec_string 0 = ''0''"
  by (simp_all add: dec_string.simps dec_digit_def)

lemma read_checksum_header: "read_header (''checksum=0x'' @ hex_string 4 (unat (c :: 16 word))) e = Some (int (unat c))"
proof -
  have "unat c < 16 ^ 4" using unsigned_less [of c] by simp
  from stoi16_hex_string [OF this] show ?thesis
    by (simp add: read_header_def Let_def)
qed

lemma parse_empty_netstring:
  "parse_netstrings rd (istream_of (''0:,'' @ rest)) e False = parse_netstrings rd (istream_of rest) e True"
  using parse_header_netstring [of "[]" rd rest e] by (simp add: dec_string_0)

lemma parse_frame:
  assumes "length body \<le> MESSAGE_LENGTH_MAX"
  shows "parse_stream rd (frame c (length body) body @ rest) =
    (if c \<noteq> CalculateCRC16 (bytes_of body) \<or> body = []
     then (istream_of (body @ '','' @ CRLF @ rest), None)
     else case rd (body @ '','' @ CRLF @ rest) of
         (message, taken) \<Rightarrow> (istream_of (drop taken (body @ '','' @ CRLF @ rest)), message))"
proof -
  define h where "h = ''checksum=0x'' @ hex_string 4 (unat c)"
  let ?p = "dec_string (length body) @ '':'' @ body @ '','' @ CRLF @ rest"
  have h: "length h = 15" "h \<noteq> []" "read_header h e = Some (int (unat c))" for e
    by (simp_all add: h_def read_checksum_header [simplified])
  have fr: "frame c (length body) body @ rest = dec_string (length h) @ '':'' @ h @ '','' @ ''0:,'' @ ?p"
    by (simp add: frame_def h(1) dec_string_15) (simp add: h_def)
  have "parse_stream rd (frame c (length body) body @ rest) =
      parse_netstrings rd (istream_of (frame c (length body) body @ rest)) (- 1) False"
    by (simp add: parse_stream_def frame_def)
  also have "\<dots> = parse_netstrings rd (istream_of (''0:,'' @ ?p)) (int (unat c)) False"
    unfolding fr using h by (subst parse_header_netstring) (simp_all add: MESSAGE_LENGTH_MAX_def)
  also have "\<dots> = parse_netstrings rd (istream_of ?p) (int (unat c)) True"
    by (rule parse_empty_netstring)
  finally show ?thesis
    using assms by (simp only: parse_payload_netstring of_nat_eq_iff word_unat_eq_iff [symmetric])
qed

lemma length_frame: "length (frame c n body) = 26 + length (dec_string n) + length body"
  by (simp add: frame_def CRLF_def)

lemma parseIncomingMessage_frame:
  assumes "length body \<le> MESSAGE_LENGTH_MAX" "body \<noteq> []" "c = CalculateCRC16 (bytes_of body)"
    and "rd (body @ '','' @ CRLF @ rest) = (m, length body)"
  shows "parseIncomingMessage rd (frame c (length body) body @ rest) (length (frame c (length body) body)) =
    (rest, (case m of Some d \<Rightarrow> if IsObject d then d else JNull | None \<Rightarrow> JNull))"
  using assms by (simp add: parseIncomingMessage_def parse_frame length_frame CRLF_def)

lemma parseIncomingMessage_bad_checksum:
  assumes "length body \<le> MESSAGE_LENGTH_MAX" "c \<noteq> CalculateCRC16 (bytes_of body)"
  shows "parseIncomingMessage rd (frame c (length body) body @ rest) (length (frame c (length body) body)) =
    (rest, JNull)"
  using assms by (simp add: parseIncomingMessage_def parse_frame length_frame CRLF_def)

end
