(* ===== verification/Oob_Packet.thy ===== *)
theory Oob_Packet
  imports Checksum
begin

text \<open>
  The out-of-band UDP packets: the packed \<open>OobPacketHeader\<close> of include/ldcp/data_types.h and
  \<open>NetworkTransport::verifyOobPacket\<close> of src/transport.cpp.
\<close>

unbundle bit_operations_syntax

section \<open>The header\<close>

record OobPacketHeader =
  signature :: "16 word"
  frame_index :: "16 word"
  block_index :: "8 word"
  block_count :: "8 word"
  block_length :: "16 word"
  timestamp :: "32 word"
  checksum :: "16 word"
  flags :: "16 word"

definition sizeof_OobPacketHeader :: nat where
  "sizeof_OobPacketHeader = 16"

text \<open>
  The cast of the packet to the packed structure, on a packet of at least \<open>sizeof_OobPacketHeader\<close>
  bytes.  The two bit-fields of the union are bit 0 and bit 8 of \<open>flags\<close>.
\<close>

definition header_of :: "byte list \<Rightarrow> OobPacketHeader" where
  "header_of d =
     \<lparr>signature = le16 (d ! 0) (d ! 1), frame_index = le16 (d ! 2) (d ! 3),
      block_index = d ! 4, block_count = d ! 5, block_length = le16 (d ! 6) (d ! 7),
      timestamp = le32 (d ! 8) (d ! 9) (d ! 10) (d ! 11),
      checksum = le16 (d ! 12) (d ! 13), flags = le16 (d ! 14) (d ! 15)\<rparr>"

definition intensity_width :: "OobPacketHeader \<Rightarrow> nat" where
  "intensity_width h = (if bit (flags h) 0 then 1 else 0)"

definition flag_angular_fov :: "OobPacketHeader \<Rightarrow> nat" where
  "flag_angular_fov h = (if bit (flags h) 8 then 1 else 0)"

text \<open>A store to the \<open>checksum\<close> field of the packet in place.\<close>

definition put_checksum :: "byte list \<Rightarrow> 16 word \<Rightarrow> byte list" where
  "put_checksum d c = d[12 := ucast c, 13 := ucast (drop_bit 8 c)]"

section \<open>Verification\<close>

text \<open>
  The field is cleared, the checksum taken over the whole packet and the field restored; the result
  is the verdict and the packet as it is left in the buffer.
\<close>

definition verifyOobPacket :: "byte list \<Rightarrow> bool \<times> byte list" where
  "verifyOobPacket data =
     (if length data < sizeof_OobPacketHeader \<or> signature (header_of data) \<noteq> 0xFFFF then (False, data)
      else
        let saved_checksum = checksum (header_of data);
            data = put_checksum data 0;
            packet_valid = (CalculateCRC16 data = saved_checksum);
            data = put_checksum data saved_checksum
        in (packet_valid, data))"

section \<open>Lemmas\<close>

lemma length_put_checksum [simp]: "length (put_checksum d c) = length d"
  by (simp add: put_checksum_def)

lemma put_checksum_put [simp]: "put_checksum (put_checksum d c) c' = put_checksum d c'"
  by (simp add: put_checksum_def list_update_swap)

lemma put_checksum_same: "14 \<le> length d \<Longrightarrow> put_checksum d (le16 (d ! 12) (d ! 13)) = d"
  by (simp add: put_checksum_def le16_bytes)

lemma verifyOobPacket_eq:
  "verifyOobPacket d =
     (16 \<le> length d \<and> d ! 0 = 0xFF \<and> d ! 1 = 0xFF \<and> CalculateCRC16 (put_checksum d 0) = le16 (d ! 12) (d ! 13), d)"
proof -
  have "le16 (d ! 0) (d ! 1) = 0xFFFF \<longleftrightarrow> d ! 0 = 0xFF \<and> d ! 1 = 0xFF"
  proof -
    have "(0xFFFF :: 16 word) = le16 0xFF 0xFF" by (simp add: le16_def)
    then show ?thesis by (simp only: le16_inject)
  qed
  then show ?thesis
    by (auto simp: verifyOobPacket_def sizeof_OobPacketHeader_def header_of_def Let_def put_checksum_same)
qed

text \<open>Writing the checksum field splits the packet around its two bytes.\<close>

lemma put_checksum_split:
  "14 \<le> length d \<Longrightarrow> put_checksum d c = take 12 d @ [ucast c, ucast (drop_bit 8 c)] @ drop 14 d"
proof -
  assume l: "14 \<le> length d"
  then have "drop 12 d = d ! 12 # d ! 13 # drop 14 d"
    using Cons_nth_drop_Suc [of 12 d] Cons_nth_drop_Suc [of 13 d] by simp
  then have d: "d = take 12 d @ d ! 12 # d ! 13 # drop 14 d" by (metis append_take_drop_id)
  have "(take 12 d @ x # y # drop 14 d)[12 := u, 13 := v] = take 12 d @ [u, v] @ drop 14 d" for x y u v
    using l by (simp add: list_update_append)
  then show "put_checksum d c = take 12 d @ [ucast c, ucast (drop_bit 8 c)] @ drop 14 d"
    unfolding put_checksum_def by (subst d) blast
qed

section \<open>Properties\<close>

text \<open>
  C15: \<open>verifyOobPacket\<close> accepts a packet exactly when it has a whole header, starts with the signature
  and the checksum over the packet with a cleared checksum field is the one in the field; whatever the
  verdict, the packet is left in the buffer as it came.
\<close>

theorem verifyOobPacket_verdict:
  "verifyOobPacket d =
     (sizeof_OobPacketHeader \<le> length d \<and> take 2 d = [0xFF, 0xFF] \<and>
      CalculateCRC16 (take 12 d @ [0, 0] @ drop 14 d) = checksum (header_of d), d)"
proof (cases "16 \<le> length d")
  case True
  then obtain x y r where "d = x # y # r" by (cases d; cases "tl d") auto
  then have "take 2 d = [d ! 0, d ! 1]" by simp
  with True show ?thesis
    by (auto simp: verifyOobPacket_eq put_checksum_split sizeof_OobPacketHeader_def header_of_def)
qed (simp add: verifyOobPacket_eq sizeof_OobPacketHeader_def)

text \<open>
  A packet the check accepts is rejected when two neighbouring bytes behind the header, or one byte
  anywhere but in the checksum field, arrive damaged.
\<close>

lemma verifyOobPacket_rejects_damage:
  assumes "verifyOobPacket (xs @ [a, b] @ ys) = (True, d)" and "14 \<le> length xs" and "(a', b') \<noteq> (a, b)"
  shows "verifyOobPacket (xs @ [a', b'] @ ys) = (False, xs @ [a', b'] @ ys)"
proof -
  have split: "take 12 (xs @ [a, b] @ ys) @ [0, 0] @ drop 14 (xs @ [a, b] @ ys) =
      (take 12 xs @ [0, 0] @ drop 14 xs) @ [a, b] @ ys" for a b
    using assms(2) by simp
  have nth: "(xs @ [a', b'] @ ys) ! i = (xs @ [a, b] @ ys) ! i" if "i < 14" for i
    using that assms(2) by (simp add: nth_append)
  have "CalculateCRC16 ((take 12 xs @ [0, 0] @ drop 14 xs) @ [a, b] @ ys) \<noteq>
      CalculateCRC16 ((take 12 xs @ [0, 0] @ drop 14 xs) @ [a', b'] @ ys)"
    using assms(3) by (simp only: CalculateCRC16_burst_inj) auto
  moreover from assms(1) have "CalculateCRC16 ((take 12 xs @ [0, 0] @ drop 14 xs) @ [a, b] @ ys) =
      le16 ((xs @ [a, b] @ ys) ! 12) ((xs @ [a, b] @ ys) ! 13)"
    using assms(2) split [of a b] by (auto simp: verifyOobPacket_eq put_checksum_split)
  ultimately have "CalculateCRC16 (put_checksum (xs @ [a', b'] @ ys) 0) \<noteq>
      le16 ((xs @ [a', b'] @ ys) ! 12) ((xs @ [a', b'] @ ys) ! 13)"
    using assms(2) nth [of 12] nth [of 13] split [of a' b'] by (simp add: put_checksum_split)
  then show ?thesis by (simp add: verifyOobPacket_eq)
qed

lemma verifyOobPacket_rejects_damage_example:
  "verifyOobPacket [0xFF, 0xFF, 0, 0, 0, 1, 1, 0, 0, 0, 0, 0, 12, 183, 1, 0] =
    (False, [0xFF, 0xFF, 0, 0, 0, 1, 1, 0, 0, 0, 0, 0, 12, 183, 1, 0])"
proof -
  have "verifyOobPacket ([0xFF, 0xFF, 0, 0, 0, 1, 1, 0, 0, 0, 0, 0, 12, 183] @ [0, 0] @ []) =
      (True, [0xFF, 0xFF, 0, 0, 0, 1, 1, 0, 0, 0, 0, 0, 12, 183, 0, 0])"
    by (simp add: verifyOobPacket_eq put_checksum_def CalculateCRC16_def crc16_step_def le16_def Let_def)
  from verifyOobPacket_rejects_damage [OF this, of 1 0] show ?thesis by simp
qed

end
