(* ===== verification/Locations.thy ===== *)
theory Locations
  imports Prelude
begin

text \<open>
  The data types the components exchange: \<open>error_t\<close> (include/ldcp/error.h), the enumerations of
  include/ldcp/data_types.h, network locations (src/location.cpp), device descriptions
  (src/device_info.cpp) and the byte-order functions of the host, which is little-endian.
\<close>

unbundle bit_operations_syntax

section \<open>Error codes\<close>

datatype error_t =
    no_error
  | connection_refused
  | timed_out
  | address_in_use
  | protocol_error
  | not_supported
  | invalid_params
  | device_error
  | unknown

text \<open>The enumerator values; comparisons of \<open>error_t\<close> in C++ are comparisons of these.\<close>

fun error_value :: "error_t \<Rightarrow> nat" where
  "error_value no_error = 0"
| "error_value connection_refused = 1"
| "error_value timed_out = 2"
| "error_value address_in_use = 3"
| "error_value protocol_error = 4"
| "error_value not_supported = 5"
| "error_value invalid_params = 6"
| "error_value device_error = 7"
| "error_value unknown = 8"

lemma error_value_inj: "error_value a = error_value b \<Longrightarrow> a = b"
  by (cases a; cases b) simp_all

instantiation error_t :: linorder
begin

definition less_eq_error_t :: "error_t \<Rightarrow> error_t \<Rightarrow> bool" where
  "less_eq_error_t a b \<longleftrightarrow> error_value a \<le> error_value b"

definition less_error_t :: "error_t \<Rightarrow> error_t \<Rightarrow> bool" where
  "less_error_t a b \<longleftrightarrow> error_value a < error_value b"

instance
  by standard (auto simp: less_eq_error_t_def less_error_t_def dest: error_value_inj)

end

section \<open>Scan enumerations\<close>

datatype scan_resolution_t =
    SCAN_RESOLUTION_120K
  | SCAN_RESOLUTION_90K
  | SCAN_RESOLUTION_60K
  | SCAN_RESOLUTION_30K
  | SCAN_RESOLUTION_15K

datatype angular_fov_t = ANGULAR_FOV_270DEG | ANGULAR_FOV_360DEG

section \<open>Byte order\<close>

type_synonym in_addr_t = "32 word"
type_synonym in_port_t = "16 word"

definition htons :: "16 word \<Rightarrow> 16 word" where
  "htons x = push_bit 8 x OR drop_bit 8 x"

definition htonl :: "32 word \<Rightarrow> 32 word" where
  "htonl x = push_bit 24 x OR (push_bit 8 x AND 0x00FF0000) OR (drop_bit 8 x AND 0x0000FF00) OR drop_bit 24 x"

abbreviation ntohs :: "16 word \<Rightarrow> 16 word" where "ntohs \<equiv> htons"
abbreviation ntohl :: "32 word \<Rightarrow> 32 word" where "ntohl \<equiv> htonl"

lemma htons_htons [simp]: "htons (htons x) = x"
  by (rule bit_word_eqI) (auto simp: htons_def bit_simps)

lemma bit_htonl:
  "bit (htonl x) n \<longleftrightarrow>
     (if n < 8 then bit x (n + 24) else if n < 16 then bit x (n + 8)
      else if n < 24 then bit x (n - 8) else n < 32 \<and> bit x (n - 24))"
proof -
  have m1: "bit (0x00FF0000 :: 32 word) n \<longleftrightarrow> 16 \<le> n \<and> n < 24" for n
  proof -
    have "(0x00FF0000 :: 32 word) = push_bit 16 (mask 8)" by (simp add: mask_eq_exp_minus_1)
    then show ?thesis by (simp only: bit_push_bit_iff bit_mask_iff) auto
  qed
  have m2: "bit (0x0000FF00 :: 32 word) n \<longleftrightarrow> 8 \<le> n \<and> n < 16" for n
  proof -
    have "(0x0000FF00 :: 32 word) = push_bit 8 (mask 8)" by (simp add: mask_eq_exp_minus_1)
    then show ?thesis by (simp only: bit_push_bit_iff bit_mask_iff) auto
  qed
  show ?thesis
    unfolding htonl_def bit_or_iff bit_and_iff m1 m2
    by (auto simp: bit_simps add.commute dest: bit_imp_le_length)
qed

lemma htonl_htonl [simp]: "htonl (htonl x) = x"
  by (rule bit_word_eqI) (auto simp: bit_htonl)

section \<open>Locations\<close>

text \<open>
  \<open>Location\<close> has one subclass in the SDK; \<open>OtherLocation\<close> stands for an object of any other
  subclass, which the \<open>typeid\<close> tests tell apart.
\<close>

datatype location = NetworkLocation (address: in_addr_t) (port: in_port_t) | OtherLocation

definition location_eq :: "location \<Rightarrow> location \<Rightarrow> bool" where
  "location_eq l other \<longleftrightarrow> address l = address other \<and> port l = port other"

section \<open>Device descriptions\<close>

record device_info =
  di_id :: string
  di_location :: "location option"
  di_metadata :: "string \<rightharpoonup> string"

definition keep_network :: "location \<Rightarrow> location option" where
  "keep_network l = (case l of NetworkLocation a p \<Rightarrow> Some l | OtherLocation \<Rightarrow> None)"

definition DeviceInfo :: "string \<Rightarrow> location \<Rightarrow> device_info" where
  "DeviceInfo i l = \<lparr>di_id = i, di_location = keep_network l, di_metadata = Map.empty\<rparr>"

definition DeviceInfo_copy :: "device_info \<Rightarrow> device_info res" where
  "DeviceInfo_copy other =
     (case di_location other of
        None \<Rightarrow> Inl Null_deref
      | Some l \<Rightarrow> Inr \<lparr>di_id = di_id other, di_location = keep_network l, di_metadata = di_metadata other\<rparr>)"

text \<open>\<open>operator=\<close>; the flag says whether both sides are the same object.\<close>

definition DeviceInfo_assign :: "bool \<Rightarrow> device_info \<Rightarrow> device_info \<Rightarrow> device_info res" where
  "DeviceInfo_assign same this other =
     (if same then Inr this
      else case di_location other of
        None \<Rightarrow> Inl Null_deref
      | Some l \<Rightarrow> Inr \<lparr>di_id = di_id other,
          di_location = (case l of NetworkLocation a p \<Rightarrow> Some l | OtherLocation \<Rightarrow> di_location this),
          di_metadata = di_metadata other\<rparr>)"

definition DeviceInfo_eq :: "device_info \<Rightarrow> device_info \<Rightarrow> bool res" where
  "DeviceInfo_eq this other =
     (case di_location this of
        None \<Rightarrow> Inl Null_deref
      | Some OtherLocation \<Rightarrow> Inr False
      | Some (NetworkLocation a p) \<Rightarrow>
          (case di_location other of
             None \<Rightarrow> Inl Null_deref
           | Some OtherLocation \<Rightarrow> Inr False
           | Some (NetworkLocation b q) \<Rightarrow> Inr (location_eq (NetworkLocation a p) (NetworkLocation b q))))"

text \<open>The accessors; \<open>location()\<close> dereferences the pointer.\<close>

definition DeviceInfo_id :: "device_info \<Rightarrow> string" where
  "DeviceInfo_id this = di_id this"

definition DeviceInfo_location :: "device_info \<Rightarrow> location res" where
  "DeviceInfo_location this = (case di_location this of None \<Rightarrow> Inl Null_deref | Some l \<Rightarrow> Inr l)"

definition DeviceInfo_metadata :: "device_info \<Rightarrow> (string \<rightharpoonup> string)" where
  "DeviceInfo_metadata this = di_metadata this"

text \<open>The invariant of a description made from a network location: it holds one.\<close>

definition located :: "device_info \<Rightarrow> bool" where
  "located d \<longleftrightarrow> (\<exists>a p. di_location d = Some (NetworkLocation a p))"

lemma located_DeviceInfo [simp]: "located (DeviceInfo i (NetworkLocation a p))"
  by (simp add: located_def DeviceInfo_def keep_network_def)

lemma DeviceInfo_copy_located: "located d \<Longrightarrow> DeviceInfo_copy d = Inr d"
  by (cases d) (auto simp: located_def DeviceInfo_copy_def keep_network_def)

lemma DeviceInfo_assign_located: "located d \<Longrightarrow> DeviceInfo_assign False this d = Inr d"
  by (cases d) (auto simp: located_def DeviceInfo_assign_def)

lemma DeviceInfo_eq_located:
  "located d \<Longrightarrow> located d' \<Longrightarrow> DeviceInfo_eq d d' = Inr (di_location d = di_location d')"
  by (auto simp: located_def DeviceInfo_eq_def location_eq_def)

end
