(* ===== verification/Net_Transport.thy ===== *)
theory Net_Transport
  imports Framing Oob_Packet Locations
begin

text \<open>
  \<open>NetworkTransport\<close> and \<open>Transport\<close> of src/transport.cpp: connecting, the receive loop, the queue of
  outgoing messages, the out-of-band socket.  Asio is outside the model: its operations are the
  flags of the pending operations (\<open>reading\<close>, \<open>oob_receiving\<close>, \<open>write_op\<close>) and its completions are
  the events of \<open>io_step\<close>, which runs the handler the code has bound to the operation.  The I/O thread
  ends when no operation is pending (\<open>io_stopped\<close>); what is dispatched after that never runs.
\<close>

section \<open>State\<close>

datatype asio_error = operation_aborted | err_connection_refused | err_address_in_use | other_error

record transport =
  device_address :: "32 word \<times> 16 word"
  primary_open :: bool
  oob_open :: bool
  reading :: bool
  oob_receiving :: bool
  write_op :: "string option"
  io_stopped :: bool
  incoming_message_buffer :: string
  outgoing_message_buffers :: bufs
  outgoing_message_queue :: "json list"
  received_message_callback :: bool
  transmit_error_callback :: bool
  receive_error_callback :: bool
  received_oob_packet_callback :: bool
  wire :: string

text \<open>What a handler tells the owner of the transport, through the callbacks.\<close>

datatype callback =
    Message json
  | Transmit_error error_t
  | Receive_error error_t
  | Oob_data "byte list"

definition NetworkTransport :: "location \<Rightarrow> transport" where [opens]:
  "NetworkTransport l =
     \<lparr>device_address = (ntohl (address l), ntohs (port l)), primary_open = False, oob_open = False,
      reading = False, oob_receiving = False, write_op = None, io_stopped = True,
      incoming_message_buffer = [], outgoing_message_buffers = ([], [], []), outgoing_message_queue = [],
      received_message_callback = False, transmit_error_callback = False,
      receive_error_callback = False, received_oob_packet_callback = False, wire = []\<rparr>"

definition Transport_create :: "location \<Rightarrow> transport option" where [opens]:
  "Transport_create l = (case l of NetworkLocation a p \<Rightarrow> Some (NetworkTransport l) | OtherLocation \<Rightarrow> None)"

definition setReceivedMessageCallback :: "transport \<Rightarrow> transport" where [opens]:
  "setReceivedMessageCallback t = t\<lparr>received_message_callback := True\<rparr>"

definition setTransmitErrorCallback :: "transport \<Rightarrow> transport" where
  "setTransmitErrorCallback t = t\<lparr>transmit_error_callback := True\<rparr>"

definition setReceiveErrorCallback :: "transport \<Rightarrow> transport" where
  "setReceiveErrorCallback t = t\<lparr>receive_error_callback := True\<rparr>"

definition setReceivedOobPacketCallback :: "transport \<Rightarrow> transport" where [opens]:
  "setReceivedOobPacketCallback t = t\<lparr>received_oob_packet_callback := True\<rparr>"

section \<open>Connecting\<close>

text \<open>
  \<open>outcome\<close> is what asio reports before the timeout: \<open>None\<close> nothing, \<open>Some None\<close> success,
  \<open>Some (Some e)\<close> an error.  The handler ignores \<open>operation_aborted\<close>, so the wait then times out.  On
  success the first read is started; otherwise the socket is closed and the thread joined.  The transport is
  one that \<open>create\<close> has just made: \<open>Session::open\<close> makes a new one each time, and the stopped \<open>io_service_\<close> of an
  old one would not run again.
\<close>

definition connect :: "asio_error option option \<Rightarrow> transport \<Rightarrow> transport \<times> error_t" where [opens]:
  "connect outcome t =
     (let connect_result = (if outcome = Some (Some operation_aborted) then None else outcome) in
      case connect_result of
        Some None \<Rightarrow> (t\<lparr>primary_open := True, reading := True, io_stopped := False\<rparr>, no_error)
      | None \<Rightarrow> (t\<lparr>primary_open := False, io_stopped := True\<rparr>, timed_out)
      | Some (Some e) \<Rightarrow> (t\<lparr>primary_open := False, io_stopped := True\<rparr>,
          (if e = err_connection_refused then connection_refused else unknown)))"

text \<open>
  \<open>disconnect\<close> runs a closure on the I/O thread and joins it.  \<open>shutdown\<close> is the throwing overload:
  an error in the I/O thread ends the process.  A stopped thread never runs the closure.
\<close>

definition disconnect :: "asio_error option \<Rightarrow> transport \<Rightarrow> transport res" where
  "disconnect shutdown_result t =
     (if primary_open t \<and> \<not> io_stopped t then
        if shutdown_result \<noteq> None then Inl Terminate
        else Inr (t\<lparr>primary_open := False, oob_open := False, reading := False, oob_receiving := False,
          write_op := None, io_stopped := True\<rparr>)
      else Inr t)"

definition isConnected :: "transport \<Rightarrow> bool" where
  "isConnected t = primary_open t"

section \<open>Sending\<close>

text \<open>The front of the queue is formatted into the buffers and handed to \<open>asio::async_write\<close>.\<close>

definition start_write :: "json_writer \<Rightarrow> transport \<Rightarrow> transport" where
  "start_write wr t =
     (let bufs = encapsulateOutgoingMessage wr (hd (outgoing_message_queue t)) (outgoing_message_buffers t)
      in t\<lparr>outgoing_message_buffers := bufs, write_op := Some (wire_text bufs)\<rparr>)"

definition transmitMessage :: "json_writer \<Rightarrow> json \<Rightarrow> transport \<Rightarrow> transport" where
  "transmitMessage wr message t =
     (if io_stopped t then t
      else
        let transmit_in_progress = (outgoing_message_queue t \<noteq> []);
            t = t\<lparr>outgoing_message_queue := outgoing_message_queue t @ [message]\<rparr>
        in if transmit_in_progress then t else start_write wr t)"

definition outgoingMessageHandler :: "json_writer \<Rightarrow> asio_error option \<Rightarrow> transport \<Rightarrow> transport \<times> callback list" where
  "outgoingMessageHandler wr error t =
     (case error of
        None \<Rightarrow>
          (let t = t\<lparr>outgoing_message_buffers := ([], [], []), outgoing_message_queue := tl (outgoing_message_queue t)\<rparr>
           in (if outgoing_message_queue t \<noteq> [] then start_write wr t else t, []))
      | Some e \<Rightarrow>
          (t, if e \<noteq> operation_aborted \<and> transmit_error_callback t then [Transmit_error unknown] else []))"

section \<open>The out-of-band socket\<close>

text \<open>
  \<open>open\<close> of an open socket throws.  \<open>bind_result\<close> is the outcome of the bind; on failure the socket is
  closed again.
\<close>

definition enableOob :: "location \<Rightarrow> asio_error option \<Rightarrow> transport \<Rightarrow> (transport \<times> error_t) res" where
  "enableOob l bind_result t =
     (if oob_open t then Inl (Uncaught ''already_open'')
      else case l of
        OtherLocation \<Rightarrow> Inl (Uncaught ''bad_cast'')
      | NetworkLocation a p \<Rightarrow>
          (case bind_result of
             None \<Rightarrow> Inr (t\<lparr>oob_open := True, oob_receiving := True\<rparr>, no_error)
           | Some e \<Rightarrow> Inr (t\<lparr>oob_open := False\<rparr>, if e = err_address_in_use then address_in_use else unknown)))"

definition oobPacketHandler :: "asio_error option \<Rightarrow> 32 word \<times> 16 word \<Rightarrow> byte list \<Rightarrow> transport \<Rightarrow> transport \<times> callback list" where
  "oobPacketHandler error sender_address packet t =
     (case error of
        None \<Rightarrow>
          (t\<lparr>oob_receiving := True\<rparr>,
           if sender_address = device_address t \<and> received_oob_packet_callback t then
             (case verifyOobPacket packet of (valid, oob_data) \<Rightarrow> if valid then [Oob_data oob_data] else [])
           else [])
      | Some e \<Rightarrow> (t, []))"

section \<open>Receiving\<close>

text \<open>The place after the first line end in the buffer, where \<open>async_read_until\<close> completes.\<close>

fun crlf_end :: "string \<Rightarrow> nat option" where
  "crlf_end (c # d # r) = (if c = CHR 0x0D \<and> d = CHR 0x0A then Some 2 else map_option Suc (crlf_end (d # r)))"
| "crlf_end r = None"

lemma crlf_end_bounds: "crlf_end buf = Some n \<Longrightarrow> 2 \<le> n \<and> n \<le> length buf"
  by (induction buf arbitrary: n rule: crlf_end.induct) (auto split: if_splits)

definition incomingMessageHandler ::
  "json_reader \<Rightarrow> asio_error option \<Rightarrow> nat \<Rightarrow> transport \<Rightarrow> transport \<times> callback list" where
  "incomingMessageHandler rd error bytes_transferred t =
     (case error of
        None \<Rightarrow>
          (if received_message_callback t then
             (case parseIncomingMessage rd (incoming_message_buffer t) bytes_transferred of (buf, message) \<Rightarrow>
                (t\<lparr>incoming_message_buffer := buf, reading := True\<rparr>, if IsNull message then [] else [Message message]))
           else (t\<lparr>reading := True\<rparr>, []))
      | Some e \<Rightarrow>
          (t, if e \<noteq> operation_aborted \<and> receive_error_callback t then [Receive_error unknown] else []))"

lemma incomingMessageHandler_shrinks:
  assumes "crlf_end (incoming_message_buffer t) = Some n" and "received_message_callback t"
  shows "length (incoming_message_buffer (fst (incomingMessageHandler rd None n (t\<lparr>reading := False\<rparr>))))
    < length (incoming_message_buffer t)"
  using crlf_end_bounds [OF assms(1)] assms(2) parseIncomingMessage_buffer [of rd "incoming_message_buffer t" n]
  by (auto simp: incomingMessageHandler_def split: prod.splits)

text \<open>
  The completions of the read that the buffer allows, one after the other.  Every one takes at least
  the line that was found, so there are finitely many.
\<close>

function drain :: "json_reader \<Rightarrow> transport \<Rightarrow> transport \<times> callback list" where
  "drain rd t =
     (case crlf_end (incoming_message_buffer t) of
        None \<Rightarrow> (t, [])
      | Some n \<Rightarrow>
          if received_message_callback t then
            (let r = incomingMessageHandler rd None n (t\<lparr>reading := False\<rparr>); r' = drain rd (fst r)
             in (fst r', snd r @ snd r'))
          else (t, []))"
  by pat_completeness auto

termination
  by (relation "measure (\<lambda>(rd, t). length (incoming_message_buffer t))") (auto simp: incomingMessageHandler_shrinks)

declare drain.simps [simp del]

section \<open>Events of the I/O thread\<close>

text \<open>
  What asio can report: characters received, an error of the read, the end of a write or its error
  after some characters went out, a datagram, an error of the datagram socket.  A completion of an
  operation that is not pending, or on a stopped thread, changes nothing.  Without a message callback
  the handler would take nothing from the buffer and start over without end.
\<close>

datatype io_event =
    Tcp_bytes string
  | Tcp_error asio_error
  | Write_done
  | Write_error asio_error nat
  | Udp_packet "32 word \<times> 16 word" "byte list"
  | Udp_error asio_error

definition settle :: "transport \<Rightarrow> transport" where
  "settle t = (if reading t \<or> oob_receiving t \<or> write_op t \<noteq> None then t else t\<lparr>io_stopped := True\<rparr>)"

fun io_step :: "json_writer \<Rightarrow> json_reader \<Rightarrow> io_event \<Rightarrow> transport \<Rightarrow> (transport \<times> callback list) res" where
  "io_step wr rd (Tcp_bytes s) t =
     (if reading t \<and> \<not> io_stopped t then
        let t = t\<lparr>incoming_message_buffer := incoming_message_buffer t @ s\<rparr> in
        if crlf_end (incoming_message_buffer t) \<noteq> None \<and> \<not> received_message_callback t then Inl Divergence
        else Inr (drain rd t)
      else Inr (t, []))"
| "io_step wr rd (Tcp_error e) t =
     (if reading t \<and> \<not> io_stopped t then
        (case incomingMessageHandler rd (Some e) 0 (t\<lparr>reading := False\<rparr>) of (t, cbs) \<Rightarrow> Inr (settle t, cbs))
      else Inr (t, []))"
| "io_step wr rd Write_done t =
     (case write_op t of
        Some s \<Rightarrow>
          if io_stopped t then Inr (t, [])
          else (case outgoingMessageHandler wr None (t\<lparr>write_op := None, wire := wire t @ s\<rparr>) of
                  (t, cbs) \<Rightarrow> Inr (settle t, cbs))
      | None \<Rightarrow> Inr (t, []))"
| "io_step wr rd (Write_error e n) t =
     (case write_op t of
        Some s \<Rightarrow>
          if io_stopped t then Inr (t, [])
          else (case outgoingMessageHandler wr (Some e) (t\<lparr>write_op := None, wire := wire t @ take n s\<rparr>) of
                  (t, cbs) \<Rightarrow> Inr (settle t, cbs))
      | None \<Rightarrow> Inr (t, []))"
| "io_step wr rd (Udp_packet sender packet) t =
     (if oob_receiving t \<and> \<not> io_stopped t then
        Inr (oobPacketHandler None sender packet (t\<lparr>oob_receiving := False\<rparr>))
      else Inr (t, []))"
| "io_step wr rd (Udp_error e) t =
     (if oob_receiving t \<and> \<not> io_stopped t then
        (case oobPacketHandler (Some e) (0, 0) [] (t\<lparr>oob_receiving := False\<rparr>) of (t, cbs) \<Rightarrow> Inr (settle t, cbs))
      else Inr (t, []))"

fun io_run :: "json_writer \<Rightarrow> json_reader \<Rightarrow> io_event list \<Rightarrow> transport \<Rightarrow> (transport \<times> callback list) res" where
  "io_run wr rd [] t = Inr (t, [])"
| "io_run wr rd (ev # evs) t =
     bindR (io_step wr rd ev t) (\<lambda>(t, cbs). bindR (io_run wr rd evs t) (\<lambda>(t, cbs'). Inr (t, cbs @ cbs')))"

section \<open>Reassembly of the received stream\<close>

text \<open>The text of one message on the wire.\<close>

definition frame_of :: "json_writer \<Rightarrow> json \<Rightarrow> string" where
  "frame_of wr d = wire_text (encapsulateOutgoingMessage wr d ([], [], []))"

text \<open>
  What is asked of RapidJSON for a document: its text has no carriage return (control characters are
  escaped), and reading a stream that starts with the text gives the document and takes just the text.
\<close>

definition reads_back :: "json_writer \<Rightarrow> json_reader \<Rightarrow> json \<Rightarrow> bool" where
  "reads_back wr rd d \<longleftrightarrow>
     IsObject d \<and> wr d \<noteq> [] \<and> length (wr d) \<le> MESSAGE_LENGTH_MAX \<and> CHR 0x0D \<notin> set (wr d) \<and>
     (\<forall>rest. rd (wr d @ '','' @ CRLF @ rest) = (Some d, length (wr d)))"

lemma frame_of_frame: "frame_of wr d = frame (CalculateCRC16 (bytes_of (wr d))) (length (wr d)) (wr d)"
  by (simp add: frame_of_def wire_text_frame)

lemma no_space_CR: "\<forall>c \<in> set s. \<not> is_space c \<Longrightarrow> CHR 0x0D \<notin> set s"
  by (auto simp: is_space_def)

lemma frame_of_line:
  assumes "reads_back wr rd d"
  obtains l where "frame_of wr d = l @ CRLF" and "CHR 0x0D \<notin> set l"
proof
  let ?c = "CalculateCRC16 (bytes_of (wr d))"
  let ?l = "''15:checksum=0x'' @ hex_string 4 (unat ?c) @ '',0:,'' @ dec_string (length (wr d)) @ '':'' @ wr d @ '',''"
  show "frame_of wr d = ?l @ CRLF" by (simp add: frame_of_frame frame_def)
  have "CHR 0x0D \<notin> set (hex_string 4 (unat ?c))"
    by (intro no_space_CR ballI) (use xdigits_hex_string(2) in blast)
  moreover have "CHR 0x0D \<notin> set (dec_string (length (wr d)))"
    by (intro no_space_CR ballI) (use dec_string_props in blast)
  ultimately show "CHR 0x0D \<notin> set ?l" using assms by (simp add: reads_back_def)
qed

lemma crlf_end_line: "CHR 0x0D \<notin> set l \<Longrightarrow> crlf_end (l @ CRLF @ rest) = Some (length l + 2)"
proof (induction l)
  case Nil
  then show ?case by (simp add: CRLF_def)
next
  case (Cons c l)
  then show ?case by (cases "l @ CRLF @ rest") (auto simp: CRLF_def)
qed

lemma crlf_end_partial: "CHR 0x0D \<notin> set l \<Longrightarrow> l @ CRLF = p @ q \<Longrightarrow> q \<noteq> [] \<Longrightarrow> crlf_end p = None"
proof (induction p arbitrary: l rule: crlf_end.induct)
  case (1 c d r)
  show ?case
  proof (cases l)
    case Nil
    with 1 show ?thesis by (auto simp: CRLF_def)
  next
    case (Cons a l')
    with 1 have "c = a" "CHR 0x0D \<notin> set l'" "l' @ CRLF = (d # r) @ q" by auto
    moreover have "a \<noteq> CHR 0x0D" using 1(2) Cons by auto
    ultimately show ?thesis using 1 by auto
  qed
qed simp_all

lemma crlf_end_frame: "reads_back wr rd d \<Longrightarrow> crlf_end (frame_of wr d @ rest) = Some (length (frame_of wr d))"
  by (elim frame_of_line) (simp add: crlf_end_line CRLF_def [symmetric], simp add: CRLF_def)

lemma crlf_end_frame_partial: "reads_back wr rd d \<Longrightarrow> frame_of wr d = p @ q \<Longrightarrow> q \<noteq> [] \<Longrightarrow> crlf_end p = None"
  by (elim frame_of_line) (use crlf_end_partial in metis)

lemma parse_frame_of:
  "reads_back wr rd d \<Longrightarrow> parseIncomingMessage rd (frame_of wr d @ rest) (length (frame_of wr d)) = (rest, d)"
  by (simp add: frame_of_frame reads_back_def parseIncomingMessage_frame [where m = "Some d"])

lemma drain_frame:
  assumes "reads_back wr rd d" and "received_message_callback t" and "reading t"
    and "incoming_message_buffer t = frame_of wr d @ rest"
  shows "drain rd t = (let r = drain rd (t\<lparr>incoming_message_buffer := rest\<rparr>) in (fst r, Message d # snd r))"
proof -
  have "\<not> IsNull d" using assms(1) by (auto simp: reads_back_def IsObject_def IsNull_def split: json.splits)
  with assms show ?thesis
    by (cases t, subst drain.simps)
      (simp add: crlf_end_frame parse_frame_of incomingMessageHandler_def Let_def)
qed

lemma drain_none: "crlf_end (incoming_message_buffer t) = None \<Longrightarrow> drain rd t = (t, [])"
  by (subst drain.simps) simp

lemma drain_stream:
  assumes "\<forall>d \<in> set ds. reads_back wr rd d" and "received_message_callback t" "reading t"
    and "incoming_message_buffer t @ rest = concat (map (frame_of wr) ds)"
  shows "\<exists>ds1 ds2 p. ds = ds1 @ ds2 \<and> drain rd t = (t\<lparr>incoming_message_buffer := p\<rparr>, map Message ds1) \<and>
    p @ rest = concat (map (frame_of wr) ds2) \<and> crlf_end p = None"
  using assms
proof (induction ds arbitrary: t)
  case Nil
  then have e: "incoming_message_buffer t = []" and "rest = []" by auto
  then have "t\<lparr>incoming_message_buffer := []\<rparr> = t" by (cases t) simp
  with e \<open>rest = []\<close> show ?case by (auto simp: drain_none)
next
  case (Cons d ds)
  let ?buf = "incoming_message_buffer t"
  have wf: "reads_back wr rd d" using Cons.prems(1) by simp
  show ?case
  proof (cases "length ?buf < length (frame_of wr d)")
    case True
    with Cons.prems(4) obtain q where q: "?buf @ q = frame_of wr d"
      by (auto simp: append_eq_append_conv2)
    with True have "q \<noteq> []" by auto
    with q [symmetric] have "crlf_end ?buf = None" using wf crlf_end_frame_partial by blast
    moreover have "t\<lparr>incoming_message_buffer := ?buf\<rparr> = t" by (cases t) simp
    ultimately show ?thesis using Cons.prems(4)
      by (intro exI [of _ "[]"] exI [of _ "d # ds"] exI [of _ ?buf]) (simp add: drain_none)
  next
    case False
    define b where "b = drop (length (frame_of wr d)) ?buf"
    have "?buf @ rest = frame_of wr d @ concat (map (frame_of wr) ds)" using Cons.prems(4) by simp
    with False have b: "?buf = frame_of wr d @ b" "b @ rest = concat (map (frame_of wr) ds)"
      unfolding b_def using append_eq_split [of ?buf rest "frame_of wr d"] by simp_all
    let ?t = "t\<lparr>incoming_message_buffer := b\<rparr>"
    from Cons.IH [of ?t] Cons.prems b obtain ds1 ds2 p where
      IH: "ds = ds1 @ ds2" "drain rd ?t = (?t\<lparr>incoming_message_buffer := p\<rparr>, map Message ds1)"
      "p @ rest = concat (map (frame_of wr) ds2)" "crlf_end p = None"
      by auto
    have "drain rd t = (t\<lparr>incoming_message_buffer := p\<rparr>, map Message (d # ds1))"
      using drain_frame [OF wf Cons.prems(2,3) b(1)] IH(2) by (simp add: Let_def)
    with IH show ?thesis by (intro exI [of _ "d # ds1"] exI [of _ ds2] exI [of _ p]) simp
  qed
qed

lemma io_run_chunks:
  assumes "\<forall>d \<in> set ds. reads_back wr rd d" and "received_message_callback t" "reading t" "\<not> io_stopped t"
    and "incoming_message_buffer t @ concat chunks = concat (map (frame_of wr) ds)"
    and "crlf_end (incoming_message_buffer t) = None"
  shows "io_run wr rd (map Tcp_bytes chunks) t = Inr (t\<lparr>incoming_message_buffer := []\<rparr>, map Message ds)"
  using assms
proof (induction chunks arbitrary: t ds)
  case Nil
  show ?case
  proof (cases ds)
    case Nil
    with Nil.prems show ?thesis by (cases t) simp
  next
    case (Cons d ds')
    then have "crlf_end (incoming_message_buffer t) = Some (length (frame_of wr d))"
      using Nil.prems crlf_end_frame [of wr rd d "concat (map (frame_of wr) ds')"] by simp
    with Nil.prems(6) show ?thesis by simp
  qed
next
  case (Cons c chunks)
  let ?t = "t\<lparr>incoming_message_buffer := incoming_message_buffer t @ c\<rparr>"
  from drain_stream [OF Cons.prems(1), of ?t "concat chunks"] Cons.prems obtain ds1 ds2 p where
    d: "ds = ds1 @ ds2" "drain rd ?t = (?t\<lparr>incoming_message_buffer := p\<rparr>, map Message ds1)"
    "p @ concat chunks = concat (map (frame_of wr) ds2)" "crlf_end p = None"
    by auto
  let ?u = "t\<lparr>incoming_message_buffer := p\<rparr>"
  have "io_run wr rd (map Tcp_bytes chunks) ?u = Inr (?u\<lparr>incoming_message_buffer := []\<rparr>, map Message ds2)"
    using Cons.IH [of ds2 ?u] Cons.prems d by simp
  with d Cons.prems show ?case by (simp add: Let_def)
qed

text \<open>Every handler call takes at least the two characters of a line end, so the chain of calls is short.\<close>

lemma drain_settles:
  assumes "received_message_callback t" and "reading t" and "drain rd t = (t', cbs)"
  shows "reading t' \<and> crlf_end (incoming_message_buffer t') = None \<and>
    2 * length cbs + length (incoming_message_buffer t') \<le> length (incoming_message_buffer t)"
  using assms
proof (induction rd t arbitrary: t' cbs rule: drain.induct)
  case (1 rd t)
  show ?case
  proof (cases "crlf_end (incoming_message_buffer t)")
    case None
    with 1(2-4) show ?thesis by (auto simp: drain.simps [of rd t])
  next
    case (Some n)
    define u where "u = incomingMessageHandler rd None n (t\<lparr>reading := False\<rparr>)"
    have "drain rd t = (fst (drain rd (fst u)), snd u @ snd (drain rd (fst u)))"
      using Some 1(2) by (subst drain.simps) (simp add: u_def Let_def)
    moreover obtain t2 cbs2 where d: "drain rd (fst u) = (t2, cbs2)" by (cases "drain rd (fst u)")
    ultimately have r: "t' = t2" "cbs = snd u @ cbs2" using 1(4) by simp_all
    have u: "received_message_callback (fst u)" "reading (fst u)" "length (snd u) \<le> 1"
      using 1(2) by (auto simp: u_def incomingMessageHandler_def split: prod.splits)
    have "length (incoming_message_buffer (fst u)) + n \<le> length (incoming_message_buffer t)"
      using crlf_end_bounds [OF Some] 1(2) parseIncomingMessage_buffer [of rd "incoming_message_buffer t" n]
      by (auto simp: u_def incomingMessageHandler_def split: prod.splits)
    with 1(1) [OF Some 1(2) u_def u(1,2) d] crlf_end_bounds [OF Some] u(3) r show ?thesis by simp
  qed
qed

section \<open>Steps of a connected transport\<close>

text \<open>A step is a call of \<open>transmitMessage\<close> or an event of the I/O thread.\<close>

datatype net_label = Submit json | Io io_event

inductive net_step :: "json_writer \<Rightarrow> json_reader \<Rightarrow> transport \<Rightarrow> net_label \<Rightarrow> transport \<Rightarrow> bool"
  for wr rd where
  submit: "net_step wr rd t (Submit m) (transmitMessage wr m t)"
| io: "io_step wr rd ev t = Inr (t', cbs) \<Longrightarrow> net_step wr rd t (Io ev) t'"

inductive_cases net_step_submitE: "net_step wr rd t (Submit m) t'"
inductive_cases net_step_ioE: "net_step wr rd t (Io ev) t'"

inductive net_path :: "json_writer \<Rightarrow> json_reader \<Rightarrow> transport \<Rightarrow> net_label list \<Rightarrow> transport \<Rightarrow> bool"
  for wr rd t0 where
  here: "net_path wr rd t0 [] t0"
| more: "net_path wr rd t0 ls t \<Longrightarrow> net_step wr rd t l t' \<Longrightarrow> net_path wr rd t0 (ls @ [l]) t'"

definition submitted :: "net_label list \<Rightarrow> json list" where
  "submitted ls = concat (map (\<lambda>l. case l of Submit m \<Rightarrow> [m] | Io _ \<Rightarrow> []) ls)"

definition fault_free :: "net_label list \<Rightarrow> bool" where
  "fault_free ls \<longleftrightarrow> (\<forall>l \<in> set ls. case l of Io (Write_error _ _) \<Rightarrow> False | Io (Tcp_error _) \<Rightarrow> False | _ \<Rightarrow> True)"

text \<open>
  The invariant of the sender: what is on the wire are the frames of the messages that have left the
  queue; the buffers and the pending write are the frame of the message at its front.
\<close>

definition tx_inv :: "json_writer \<Rightarrow> json list \<Rightarrow> transport \<Rightarrow> bool" where
  "tx_inv wr ms t \<longleftrightarrow>
     (\<exists>sent. ms = sent @ outgoing_message_queue t \<and> wire t = concat (map (frame_of wr) sent)) \<and>
     (if outgoing_message_queue t = [] then outgoing_message_buffers t = ([], [], []) \<and> write_op t = None
      else outgoing_message_buffers t = encapsulateOutgoingMessage wr (hd (outgoing_message_queue t)) ([], [], [])
        \<and> write_op t = Some (frame_of wr (hd (outgoing_message_queue t))))"

text \<open>The receiving side does not touch the sender's fields.\<close>

definition same_tx :: "transport \<Rightarrow> transport \<Rightarrow> bool" where
  "same_tx t u \<longleftrightarrow> outgoing_message_queue u = outgoing_message_queue t \<and>
     outgoing_message_buffers u = outgoing_message_buffers t \<and> write_op u = write_op t \<and> wire u = wire t"

lemma same_tx_refl [simp]: "same_tx t t"
  by (simp add: same_tx_def)

lemma same_tx_trans: "same_tx t u \<Longrightarrow> same_tx u v \<Longrightarrow> same_tx t v"
  by (simp add: same_tx_def)

lemma tx_inv_same: "same_tx t u \<Longrightarrow> tx_inv wr ms t \<Longrightarrow> tx_inv wr ms u"
  by (simp add: tx_inv_def same_tx_def)

lemma incomingMessageHandler_same:
  "same_tx t (fst (incomingMessageHandler rd e n t)) \<and>
   io_stopped (fst (incomingMessageHandler rd e n t)) = io_stopped t \<and>
   (e = None \<longrightarrow> reading (fst (incomingMessageHandler rd e n t)))"
  by (auto simp: incomingMessageHandler_def same_tx_def split: option.splits prod.splits)

lemma drain_same:
  "same_tx t (fst (drain rd t)) \<and> io_stopped (fst (drain rd t)) = io_stopped t \<and>
   (reading t \<longrightarrow> reading (fst (drain rd t)))"
proof (induction rd t rule: drain.induct)
  case (1 rd t)
  show ?case
  proof (cases "crlf_end (incoming_message_buffer t)")
    case None
    then show ?thesis by (simp add: drain_none)
  next
    case (Some n)
    let ?h = "incomingMessageHandler rd None n (t\<lparr>reading := False\<rparr>)"
    have h: "same_tx t (fst ?h)" "io_stopped (fst ?h) = io_stopped t" "reading (fst ?h)"
      using incomingMessageHandler_same [of "t\<lparr>reading := False\<rparr>" rd None n] by (auto simp: same_tx_def)
    show ?thesis
    proof (cases "received_message_callback t")
      case True
      with 1 [OF Some True refl]
      have IH: "same_tx (fst ?h) (fst (drain rd (fst ?h))) \<and>
          io_stopped (fst (drain rd (fst ?h))) = io_stopped (fst ?h) \<and>
          (reading (fst ?h) \<longrightarrow> reading (fst (drain rd (fst ?h))))" by simp
      have "fst (drain rd t) = fst (drain rd (fst ?h))"
        using True Some by (simp add: drain.simps [of rd t] Let_def split: prod.splits)
      with IH h show ?thesis by (auto intro: same_tx_trans)
    next
      case False
      with Some show ?thesis by (simp add: drain.simps [of rd t])
    qed
  qed
qed

lemma settle_same [simp]: "same_tx t (settle t)" "reading t \<Longrightarrow> settle t = t"
  by (simp_all add: settle_def same_tx_def)

definition running :: "transport \<Rightarrow> bool" where
  "running t \<longleftrightarrow> reading t \<and> \<not> io_stopped t"

lemma tx_inv_transmitMessage:
  assumes "tx_inv wr ms t" and "\<not> io_stopped t"
  shows "tx_inv wr (ms @ [m]) (transmitMessage wr m t)"
  using assms by (auto simp: tx_inv_def transmitMessage_def start_write_def frame_of_def Let_def)

lemma tx_inv_write_done:
  assumes "tx_inv wr ms t" and "write_op t = Some s"
  shows "tx_inv wr ms (fst (outgoingMessageHandler wr None (t\<lparr>write_op := None, wire := wire t @ s\<rparr>)))"
proof -
  from assms obtain sent m q where q: "outgoing_message_queue t = m # q" and
    "ms = sent @ m # q" "wire t = concat (map (frame_of wr) sent)" "s = frame_of wr m"
    by (cases "outgoing_message_queue t") (auto simp: tx_inv_def)
  then have "ms = (sent @ [m]) @ q \<and> wire t @ s = concat (map (frame_of wr) (sent @ [m]))" by simp
  then have ex: "\<exists>sent. ms = sent @ q \<and> wire t @ s = concat (map (frame_of wr) sent)" by blast
  show ?thesis
  proof (cases q)
    case Nil
    with q ex show ?thesis by (auto simp: tx_inv_def outgoingMessageHandler_def)
  next
    case (Cons m' q')
    with q ex show ?thesis
      by (simp add: tx_inv_def outgoingMessageHandler_def start_write_def frame_of_def Let_def)
  qed
qed

lemma running_write_done:
  "running t \<Longrightarrow> running (fst (outgoingMessageHandler wr None (t\<lparr>write_op := None, wire := w\<rparr>)))"
  by (auto simp: running_def outgoingMessageHandler_def start_write_def Let_def)

lemma io_step_tx_inv:
  assumes "io_step wr rd ev t = Inr (t', cbs)" and "fault_free [Io ev]" and "running t" and "tx_inv wr ms t"
  shows "running t' \<and> tx_inv wr ms t'"
proof (cases ev)
  case (Tcp_bytes s)
  let ?t = "t\<lparr>incoming_message_buffer := incoming_message_buffer t @ s\<rparr>"
  have "t' = fst (drain rd ?t)"
    using assms(1,3) Tcp_bytes by (auto simp: running_def Let_def split: if_splits dest: arg_cong [of _ _ fst])
  moreover have "same_tx t ?t" by (simp add: same_tx_def)
  ultimately show ?thesis
    using drain_same [of ?t rd] assms(3,4) same_tx_trans tx_inv_same by (auto simp: running_def)
next
  case Write_done
  show ?thesis
  proof (cases "write_op t")
    case None
    with assms Write_done show ?thesis by simp
  next
    case (Some s)
    let ?h = "outgoingMessageHandler wr None (t\<lparr>write_op := None, wire := wire t @ s\<rparr>)"
    have r: "running (fst ?h)" using assms(3) by (rule running_write_done)
    then have "t' = fst ?h"
      using assms(1,3) Write_done Some by (auto simp: running_def split: prod.splits)
    with r tx_inv_write_done [OF assms(4) Some] show ?thesis by simp
  qed
next
  case (Udp_packet a p)
  with assms show ?thesis
    by (auto simp: running_def oobPacketHandler_def tx_inv_def split: if_splits)
next
  case (Udp_error e)
  with assms show ?thesis
    by (auto simp: running_def oobPacketHandler_def tx_inv_def settle_def split: if_splits)
qed (use assms(2) in \<open>auto simp: fault_free_def\<close>)

lemma net_path_tx_inv:
  assumes "net_path wr rd t0 ls t" and "fault_free ls" and "running t0" and "tx_inv wr [] t0"
  shows "running t \<and> tx_inv wr (submitted ls) t"
  using assms
proof (induction rule: net_path.induct)
  case here
  then show ?case by (simp add: submitted_def)
next
  case (more ls t l t')
  then have IH: "running t \<and> tx_inv wr (submitted ls) t" by (simp add: fault_free_def)
  from more.hyps(2) show ?case
  proof cases
    case (submit m)
    have "running (transmitMessage wr m t)"
      using IH by (auto simp: running_def transmitMessage_def start_write_def Let_def)
    with IH submit show ?thesis
      using tx_inv_transmitMessage by (auto simp: running_def submitted_def)
  next
    case (io ev cbs)
    then have "fault_free [Io ev]" using more.prems(1) by (simp add: fault_free_def)
    with io IH show ?thesis
      using io_step_tx_inv by (fastforce simp: submitted_def)
  qed
qed

text \<open>
  After a failed write the queue keeps its front message and no write is pending; nothing starts one
  again.
\<close>

definition tx_stuck :: "transport \<Rightarrow> bool" where
  "tx_stuck t \<longleftrightarrow> outgoing_message_queue t \<noteq> [] \<and> write_op t = None"

lemma net_step_stuck:
  assumes "net_step wr rd t l t'" and "tx_stuck t"
  shows "tx_stuck t' \<and> wire t' = wire t"
  using assms(1)
proof cases
  case (submit m)
  with assms(2) show ?thesis by (auto simp: tx_stuck_def transmitMessage_def Let_def)
next
  case (io ev cbs)
  show ?thesis
  proof (cases ev)
    case (Tcp_bytes s)
    let ?t = "t\<lparr>incoming_message_buffer := incoming_message_buffer t @ s\<rparr>"
    have "t' = t \<or> t' = fst (drain rd ?t)"
      using io(2) Tcp_bytes by (auto simp: Let_def split: if_splits dest: arg_cong [of _ _ fst])
    then show ?thesis
      using drain_same [of ?t rd] assms(2) by (auto simp: tx_stuck_def same_tx_def)
  next
    case (Tcp_error e)
    with io(2) assms(2) show ?thesis
      by (auto simp: tx_stuck_def incomingMessageHandler_def settle_def split: if_splits)
  next
    case (Udp_packet a p)
    with io(2) assms(2) show ?thesis
      by (auto simp: tx_stuck_def oobPacketHandler_def split: if_splits)
  next
    case (Udp_error e)
    with io(2) assms(2) show ?thesis
      by (auto simp: tx_stuck_def oobPacketHandler_def settle_def split: if_splits)
  qed (use io(2) assms(2) in \<open>simp_all add: tx_stuck_def\<close>)
qed

lemma net_path_stuck: "net_path wr rd t ls t' \<Longrightarrow> tx_stuck t \<Longrightarrow> tx_stuck t' \<and> wire t' = wire t"
  by (induction rule: net_path.induct) (auto dest: net_step_stuck)

section \<open>What an owner of the transport can rely on\<close>

text \<open>
  With a message callback no event makes the transport fail, the callbacks stay registered, and only
  objects are handed over.  Nothing is reported to callbacks that are not registered.
\<close>

definition same_callbacks :: "transport \<Rightarrow> transport \<Rightarrow> bool" where
  "same_callbacks t u \<longleftrightarrow>
     received_message_callback u = received_message_callback t \<and> transmit_error_callback u = transmit_error_callback t \<and>
     receive_error_callback u = receive_error_callback t \<and> received_oob_packet_callback u = received_oob_packet_callback t \<and>
     primary_open u = primary_open t \<and> oob_open u = oob_open t \<and> device_address u = device_address t"

lemma same_callbacks_refl [simp]: "same_callbacks t t"
  by (simp add: same_callbacks_def)

lemma same_callbacks_trans: "same_callbacks t u \<Longrightarrow> same_callbacks u v \<Longrightarrow> same_callbacks t v"
  by (simp add: same_callbacks_def)

definition from_reader :: "json_reader \<Rightarrow> callback \<Rightarrow> bool" where
  "from_reader rd cb = (case cb of Message d \<Rightarrow> IsObject d \<and> (\<exists>buf. fst (rd buf) = Some d) | _ \<Rightarrow> True)"

lemma reader_fst: "rd b = (Some d, n) \<Longrightarrow> \<exists>buf. fst (rd buf) = Some d"
  by (metis fst_conv)

lemma parse_netstrings_reader: "snd (parse_netstrings rd is e h) = Some d \<Longrightarrow> \<exists>buf. fst (rd buf) = Some d"
proof (induction rd "is" e h rule: parse_netstrings.induct)
  case (1 rd "is" e h)
  note IH = 1(1) [OF refl refl refl refl _ _ refl refl refl] 1(2) [OF refl refl refl refl _ _ refl refl refl]
  from 1(3) IH show ?case
    by (subst (asm) parse_netstrings.simps)
      (auto simp: Let_def split: if_splits option.splits prod.splits intro: reader_fst)
qed

lemma parse_stream_reader: "snd (parse_stream rd buf) = Some d \<Longrightarrow> \<exists>buf. fst (rd buf) = Some d"
  by (auto simp: parse_stream_def dest: parse_netstrings_reader reader_fst
      split: list.splits char.splits bool.splits prod.splits)

lemma parseIncomingMessage_object:
  "IsNull (snd (parseIncomingMessage rd buf n)) \<or>
   IsObject (snd (parseIncomingMessage rd buf n)) \<and> (\<exists>b. fst (rd b) = Some (snd (parseIncomingMessage rd buf n)))"
  using parse_stream_reader [of rd buf]
  by (auto simp: parseIncomingMessage_def IsNull_def split: prod.splits option.splits)

lemma incomingMessageHandler_owner:
  "same_callbacks t (fst (incomingMessageHandler rd e n t)) \<and> list_all (from_reader rd) (snd (incomingMessageHandler rd e n t))"
  using parseIncomingMessage_object [of rd "incoming_message_buffer t" n]
  by (auto simp: incomingMessageHandler_def same_callbacks_def from_reader_def split: option.splits prod.splits)

lemma drain_owner: "same_callbacks t (fst (drain rd t)) \<and> list_all (from_reader rd) (snd (drain rd t))"
proof (induction rd t rule: drain.induct)
  case (1 rd t)
  show ?case
  proof (cases "crlf_end (incoming_message_buffer t)")
    case None
    then show ?thesis by (simp add: drain_none)
  next
    case (Some n)
    let ?h = "incomingMessageHandler rd None n (t\<lparr>reading := False\<rparr>)"
    have h: "same_callbacks t (fst ?h)" "list_all (from_reader rd) (snd ?h)"
      using incomingMessageHandler_owner [of "t\<lparr>reading := False\<rparr>" rd None n] by (auto simp: same_callbacks_def)
    show ?thesis
    proof (cases "received_message_callback t")
      case True
      with 1 [OF Some True refl]
      have IH: "same_callbacks (fst ?h) (fst (drain rd (fst ?h))) \<and> list_all (from_reader rd) (snd (drain rd (fst ?h)))"
        by simp
      have "drain rd t = (fst (drain rd (fst ?h)), snd ?h @ snd (drain rd (fst ?h)))"
        using True Some by (subst drain.simps) (simp add: Let_def)
      with IH h show ?thesis by (auto intro: same_callbacks_trans)
    next
      case False
      with Some show ?thesis by (simp add: drain.simps [of rd t])
    qed
  qed
qed

lemma settle_owner [simp]: "same_callbacks t (settle t)"
  by (simp add: settle_def same_callbacks_def)

lemma outgoingMessageHandler_owner:
  "same_callbacks t (fst (outgoingMessageHandler wr e t)) \<and> list_all (from_reader rd) (snd (outgoingMessageHandler wr e t))"
  by (auto simp: outgoingMessageHandler_def same_callbacks_def start_write_def from_reader_def Let_def split: option.splits)

lemma oobPacketHandler_owner:
  "same_callbacks t (fst (oobPacketHandler e a p t)) \<and> list_all (from_reader rd) (snd (oobPacketHandler e a p t))"
  by (auto simp: oobPacketHandler_def same_callbacks_def from_reader_def split: option.splits prod.splits)

lemma same_callbacks_upd [simp]:
  "same_callbacks (t\<lparr>reading := b\<rparr>) u = same_callbacks t u" "same_callbacks (t\<lparr>oob_receiving := b\<rparr>) u = same_callbacks t u"
  "same_callbacks (t\<lparr>write_op := w, wire := s\<rparr>) u = same_callbacks t u"
  "same_callbacks (t\<lparr>incoming_message_buffer := s\<rparr>) u = same_callbacks t u"
  by (simp_all add: same_callbacks_def)

lemma outgoingMessageHandler_settled:
  "outgoingMessageHandler wr e (t\<lparr>write_op := w, wire := s\<rparr>) = (u, cbs) \<Longrightarrow>
    same_callbacks t (settle u) \<and> list_all (from_reader rd) cbs"
  using outgoingMessageHandler_owner [of "t\<lparr>write_op := w, wire := s\<rparr>" wr e] same_callbacks_trans [OF _ settle_owner]
  by auto

lemma io_step_owner:
  assumes "received_message_callback t"
  shows "\<exists>t' cbs. io_step wr rd ev t = Inr (t', cbs) \<and> same_callbacks t t' \<and> list_all (from_reader rd) cbs"
proof (cases ev)
  case (Tcp_bytes s)
  let ?t = "t\<lparr>incoming_message_buffer := incoming_message_buffer t @ s\<rparr>"
  show ?thesis using assms drain_owner [of ?t rd] Tcp_bytes by (cases "drain rd ?t") auto
next
  case (Tcp_error e)
  then show ?thesis
    using incomingMessageHandler_owner [of "t\<lparr>reading := False\<rparr>" rd "Some e" 0]
    by (auto split: prod.splits intro: same_callbacks_trans)
next
  case Write_done
  then show ?thesis by (auto split: prod.splits option.splits dest: outgoingMessageHandler_settled)
next
  case (Write_error e n)
  then show ?thesis by (auto split: prod.splits option.splits dest: outgoingMessageHandler_settled)
next
  case (Udp_packet a p)
  then show ?thesis using oobPacketHandler_owner [where rd = rd and t = "t\<lparr>oob_receiving := False\<rparr>" and e = None and a = a and p = p]
    by (cases "oobPacketHandler None a p (t\<lparr>oob_receiving := False\<rparr>)") auto
next
  case (Udp_error e)
  then show ?thesis using oobPacketHandler_owner [where rd = rd and t = "t\<lparr>oob_receiving := False\<rparr>" and e = "Some e" and a = "(0, 0)" and p = "[]"]
    by (auto split: prod.splits intro: same_callbacks_trans)
qed

lemma io_run_owner:
  assumes "received_message_callback t"
  shows "\<exists>t' cbs. io_run wr rd evs t = Inr (t', cbs) \<and> same_callbacks t t' \<and> list_all (from_reader rd) cbs"
  using assms
proof (induction evs arbitrary: t)
  case (Cons ev evs)
  obtain t1 cbs1 where 1: "io_step wr rd ev t = Inr (t1, cbs1)" "same_callbacks t t1" "list_all (from_reader rd) cbs1"
    using io_step_owner [OF Cons.prems] by blast
  then have "received_message_callback t1" using Cons.prems by (simp add: same_callbacks_def)
  from Cons.IH [OF this] 1 show ?case using same_callbacks_trans by fastforce
qed simp

lemma io_run_append:
  "io_run wr rd (evs @ evs') t =
     bindR (io_run wr rd evs t) (\<lambda>(t, cbs). bindR (io_run wr rd evs' t) (\<lambda>(t, cbs'). Inr (t, cbs @ cbs')))"
  by (induction evs arbitrary: t) (auto simp: bindR_def split: sum.splits prod.splits)

section \<open>A codec and a connection for the witnesses\<close>

definition wr_example :: json_writer where
  "wr_example d = ''{}''"

definition rd_example :: json_reader where
  "rd_example buf = (if take 2 buf = ''{}'' then (Some (JObject []), 2) else (None, 0))"

lemma reads_back_example: "reads_back wr_example rd_example (JObject [])"
  by (simp add: reads_back_def wr_example_def rd_example_def MESSAGE_LENGTH_MAX_def IsObject_def)

definition connected_example :: transport where
  "connected_example = fst (connect (Some None) (setReceivedMessageCallback (NetworkTransport (NetworkLocation 1 2))))"

lemma connected_example:
  "connect (Some None) (setReceivedMessageCallback (NetworkTransport (NetworkLocation 1 2))) = (connected_example, no_error)"
  "received_message_callback connected_example" "reading connected_example" "\<not> io_stopped connected_example"
  "incoming_message_buffer connected_example = []" "outgoing_message_queue connected_example = []"
  "wire connected_example = []"
  by (simp_all add: connected_example_def opens)

section \<open>Properties\<close>

text \<open>
  C2: Whatever way the TCP stream cuts the frames of a list of messages into pieces, a connected transport
  hands exactly these messages to its callback, in order and each once, and ends with an empty buffer.
\<close>

theorem stream_reassembly:
  assumes "connect (Some None) (setReceivedMessageCallback (NetworkTransport l)) = (t, no_error)"
    and "\<forall>d \<in> set ds. reads_back wr rd d"
    and "concat chunks = concat (map (frame_of wr) ds)"
  shows "io_run wr rd (map Tcp_bytes chunks) t = Inr (t, map Message ds)"
proof -
  have t: "received_message_callback t" "reading t" "\<not> io_stopped t" "incoming_message_buffer t = []"
    using assms(1) by (auto simp: opens)
  then have "t\<lparr>incoming_message_buffer := []\<rparr> = t" by (cases t) simp
  with io_run_chunks [OF assms(2) t(1-3), of chunks] t(4) assms(3) show ?thesis by simp
qed

theorem stream_reassembly_witness:
  "io_run wr_example rd_example
      (map Tcp_bytes [take 5 (frame_of wr_example (JObject [])),
        drop 5 (frame_of wr_example (JObject [])) @ frame_of wr_example (JObject [])]) connected_example =
    Inr (connected_example, [Message (JObject []), Message (JObject [])])"
  using stream_reassembly [OF connected_example(1), of "[JObject [], JObject []]" wr_example rd_example
      "[take 5 (frame_of wr_example (JObject [])), drop 5 (frame_of wr_example (JObject [])) @ frame_of wr_example (JObject [])]"]
  by (simp add: reads_back_example)

text \<open>
  C33: A frame of which two neighbouring characters of the payload arrive damaged (without a carriage
  return among them) is dropped whole: no message is delivered and nothing of it stays in the buffer.
\<close>

theorem damaged_frame_dropped:
  assumes "received_message_callback t" "reading t" "\<not> io_stopped t" "incoming_message_buffer t = []"
    and "wr d = xs @ [a, b] @ ys" "length (wr d) \<le> MESSAGE_LENGTH_MAX"
    and "(a', b') \<noteq> (a, b)" "CHR 0x0D \<notin> set (xs @ [a', b'] @ ys)"
    and "body = xs @ [a', b'] @ ys"
  shows "io_step wr rd (Tcp_bytes (frame (CalculateCRC16 (bytes_of (wr d))) (length (wr d)) body)) t = Inr (t, [])"
proof -
  let ?c = "CalculateCRC16 (bytes_of (wr d))"
  have len: "length body = length (wr d)" using assms(5,9) by simp
  have "?c \<noteq> CalculateCRC16 (bytes_of body)"
    using assms(5,7,9) CalculateCRC16_burst_inj [of "bytes_of xs" "byte_of a" "byte_of b" "bytes_of ys" "byte_of a'" "byte_of b'"]
    by (auto simp: bytes_of_def byte_of_inject)
  with parseIncomingMessage_bad_checksum [of body ?c rd "[]"] assms(6) len
  have parse: "parseIncomingMessage rd (frame ?c (length (wr d)) body) (length (frame ?c (length (wr d)) body)) = ([], JNull)"
    by simp
  let ?l = "''15:checksum=0x'' @ hex_string 4 (unat ?c) @ '',0:,'' @ dec_string (length (wr d)) @ '':'' @ body @ '',''"
  have f: "frame ?c (length (wr d)) body = ?l @ CRLF" by (simp add: frame_def)
  have "CHR 0x0D \<notin> set (hex_string 4 (unat ?c))"
    by (intro no_space_CR ballI) (use xdigits_hex_string(2) in blast)
  moreover have "CHR 0x0D \<notin> set (dec_string (length (wr d)))"
    by (intro no_space_CR ballI) (use dec_string_props in blast)
  ultimately have "CHR 0x0D \<notin> set ?l" using assms(8,9) by simp
  from crlf_end_line [OF this, of "[]"] f
  have "crlf_end (frame ?c (length (wr d)) body) = Some (length (frame ?c (length (wr d)) body))"
    by (simp add: CRLF_def)
  with parse assms(1-4) show ?thesis
    by (cases t) (simp add: drain.simps [of rd] incomingMessageHandler_def Let_def IsNull_def)
qed

theorem damaged_frame_dropped_witness:
  "io_step wr_example rd_example (Tcp_bytes (frame (CalculateCRC16 (bytes_of ''{}'')) 2 ''[}'')) connected_example =
    Inr (connected_example, [])"
  using damaged_frame_dropped [of connected_example wr_example "JObject []" "[]" "CHR ''{''" "CHR ''}''" "[]" "CHR ''[''" "CHR ''}''"
      "''[}''" rd_example] connected_example
  by (simp add: wr_example_def MESSAGE_LENGTH_MAX_def numeral_2_eq_2)

text \<open>
  C11: Over any interleaving of calls of \<open>transmitMessage\<close> and events of the I/O thread in which no read or
  write fails, the stream holds the whole frames of the first submitted messages, in the order of the
  calls: no message is lost, doubled, reordered or interleaved with another.  What is not on the stream is
  in the queue, and while the queue holds a message a write is pending, so the sender cannot stall.
\<close>

theorem sent_in_order:
  assumes "net_path wr rd t0 ls t" and "fault_free ls"
    and "connect (Some None) (NetworkTransport l) = (t0, no_error)"
  shows "\<exists>sent. submitted ls = sent @ outgoing_message_queue t \<and> wire t = concat (map (frame_of wr) sent) \<and>
    (outgoing_message_queue t = [] \<longleftrightarrow> write_op t = None)"
proof -
  have "running t0 \<and> tx_inv wr [] t0"
    using assms(3) by (auto simp: connect_def NetworkTransport_def running_def tx_inv_def)
  with net_path_tx_inv [OF assms(1,2)] show ?thesis by (auto simp: tx_inv_def split: if_splits)
qed

theorem sent_in_order_witness:
  "\<exists>t. net_path wr_example rd_example (fst (connect (Some None) (NetworkTransport (NetworkLocation 1 2))))
      [Submit (JObject []), Submit (JObject []), Io Write_done] t \<and>
    (\<exists>sent. [JObject [], JObject []] = sent @ outgoing_message_queue t \<and>
      wire t = concat (map (frame_of wr_example) sent) \<and> (outgoing_message_queue t = [] \<longleftrightarrow> write_op t = None))"
proof -
  let ?t0 = "fst (connect (Some None) (NetworkTransport (NetworkLocation 1 2)))"
  have c: "connect (Some None) (NetworkTransport (NetworkLocation 1 2)) = (?t0, no_error)"
    by (simp add: connect_def)
  let ?t2 = "transmitMessage wr_example (JObject []) (transmitMessage wr_example (JObject []) ?t0)"
  have "\<exists>t3 cbs. io_step wr_example rd_example Write_done ?t2 = Inr (t3, cbs)"
    by (auto split: option.split prod.split)
  then obtain t3 cbs where "io_step wr_example rd_example Write_done ?t2 = Inr (t3, cbs)" by blast
  then have path: "net_path wr_example rd_example ?t0 ((([] @ [Submit (JObject [])]) @ [Submit (JObject [])]) @ [Io Write_done]) t3"
    by (rule net_path.more [OF net_path.more [OF net_path.more [OF net_path.here net_step.submit] net_step.submit] net_step.io])
  have "\<exists>sent. [JObject [], JObject []] = sent @ outgoing_message_queue t3 \<and>
      wire t3 = concat (map (frame_of wr_example) sent) \<and> (outgoing_message_queue t3 = [] \<longleftrightarrow> write_op t3 = None)"
    using sent_in_order [OF path _ c] by (simp add: fault_free_def submitted_def)
  with path show ?thesis by (intro exI [of _ t3] conjI) simp_all
qed

text \<open>
  C40: After a failed write the sender is stuck for the rest of the connection: the failed message stays at
  the front of the queue, no write is pending, and nothing that is submitted or received afterwards puts
  another character on the stream.
\<close>

theorem write_error_is_final:
  assumes "io_step wr rd (Write_error e n) t = Inr (t', cbs)" and "write_op t = Some s"
    and "outgoing_message_queue t \<noteq> []" and "\<not> io_stopped t"
    and "net_path wr rd t' ls t''"
  shows "write_op t'' = None \<and> wire t'' = wire t @ take n s"
proof -
  have "tx_stuck t' \<and> wire t' = wire t @ take n s"
    using assms(1-4) by (auto simp: tx_stuck_def outgoingMessageHandler_def settle_def split: if_splits)
  with net_path_stuck [OF assms(5)] show ?thesis by (auto simp: tx_stuck_def)
qed

theorem write_error_is_final_witness:
  "\<exists>t t' t''. io_step wr_example rd_example (Write_error other_error 3) t = Inr (t', []) \<and>
    net_path wr_example rd_example t' [Submit (JObject [])] t'' \<and> write_op t'' = None \<and> wire t'' = ''15:''"
proof -
  let ?t = "transmitMessage wr_example (JObject []) connected_example"
  let ?t' = "?t\<lparr>write_op := None, wire := wire ?t @ ''15:''\<rparr>"
  have t: "write_op ?t = Some (frame_of wr_example (JObject []))" "outgoing_message_queue ?t \<noteq> []" "\<not> io_stopped ?t" "wire ?t = []"
      "reading ?t" "\<not> transmit_error_callback ?t"
    by (simp_all add: transmitMessage_def start_write_def frame_of_def Let_def connected_example_def opens)
  have s: "take 3 (frame_of wr_example (JObject [])) = ''15:''" by (simp add: frame_of_frame frame_def)
  have step: "io_step wr_example rd_example (Write_error other_error 3) ?t = Inr (?t', [])"
    using t s by (simp add: outgoingMessageHandler_def settle_def)
  have path: "net_path wr_example rd_example ?t' ([] @ [Submit (JObject [])]) (transmitMessage wr_example (JObject []) ?t')"
    by (rule net_path.more [OF net_path.here net_step.submit])
  from write_error_is_final [OF step t(1-3) path] show ?thesis
    using step path s t(4) by auto
qed

text \<open>
  C24: Whatever the device sends, well-formed or not, and however the JSON reader behaves, the handler chain that a piece of the
  stream starts comes to an end with a read pending: no line is left unhandled, and every message that was
  delivered took at least two characters of the stream.
\<close>

theorem received_bytes_settle:
  assumes "received_message_callback t" and "reading t" and "\<not> io_stopped t"
  shows "\<exists>t' cbs. io_step wr rd (Tcp_bytes s) t = Inr (t', cbs) \<and> reading t' \<and> crlf_end (incoming_message_buffer t') = None \<and>
    2 * length cbs + length (incoming_message_buffer t') \<le> length (incoming_message_buffer t) + length s"
proof -
  let ?t = "t\<lparr>incoming_message_buffer := incoming_message_buffer t @ s\<rparr>"
  obtain t' cbs where d: "drain rd ?t = (t', cbs)" by (cases "drain rd ?t")
  from drain_settles [OF _ _ d] assms have "reading t' \<and> crlf_end (incoming_message_buffer t') = None \<and>
    2 * length cbs + length (incoming_message_buffer t') \<le> length (incoming_message_buffer t) + length s" by simp
  with d assms show ?thesis by (simp add: Let_def)
qed

theorem received_bytes_settle_witness:
  "\<exists>t' cbs. io_step wr_example rd_example (Tcp_bytes (''99:junk'' @ CRLF @ ''1'')) connected_example = Inr (t', cbs) \<and>
    crlf_end (incoming_message_buffer t') = None \<and> 2 * length cbs + length (incoming_message_buffer t') \<le> 11"
proof -
  have t: "received_message_callback connected_example" "reading connected_example" "\<not> io_stopped connected_example"
    "incoming_message_buffer connected_example = []"
    by (simp_all add: connected_example_def opens)
  obtain t' cbs where "io_step wr_example rd_example (Tcp_bytes (''99:junk'' @ CRLF @ ''1'')) connected_example = Inr (t', cbs)"
    "crlf_end (incoming_message_buffer t') = None"
    "2 * length cbs + length (incoming_message_buffer t') \<le>
      length (incoming_message_buffer connected_example) + length (''99:junk'' @ CRLF @ ''1'')"
    using received_bytes_settle [OF t(1-3)] by metis
  then show ?thesis using t(4) by (intro exI [of _ t'] exI [of _ cbs]) (simp add: CRLF_def)
qed

end
