(* ===== verification/Interfaces.thy ===== *)
theory Interfaces
  imports Prelude
begin

text \<open>
  The two contracts the session is built on, each stated once as a locale: a bounded queue that gives
  up its oldest element when it is full, and a wait on a condition variable.  Further locales relate two waits that are
  carried out in step, for refinements and for a second thread; one adds the faults a wait may end with.  The last one is about
  programs: lists of calls of an interface that keeps an invariant.
\<close>

section \<open>The last elements of a list\<close>

definition lastn :: "nat \<Rightarrow> 'a list \<Rightarrow> 'a list" where
  "lastn n xs = drop (length xs - n) xs"

lemma lastn_all [simp]: "length xs \<le> n \<Longrightarrow> lastn n xs = xs"
  by (simp add: lastn_def)

lemma length_lastn: "length (lastn n xs) = min n (length xs)"
  by (simp add: lastn_def min_def)

lemma lastn_append: "n \<le> length ys \<Longrightarrow> lastn n (xs @ ys) = lastn n ys"
  by (simp add: lastn_def)

lemma lastn_absorb: "lastn n (lastn n xs @ ys) = lastn n (xs @ ys)"
proof (cases "length xs \<le> n")
  case False
  then have "lastn n xs = drop (length xs - n) xs" "length (lastn n xs) = n"
    by (simp_all add: lastn_def)
  then show ?thesis using False by (cases "length ys < n") (simp_all add: lastn_def add.commute)
qed simp

lemma lastn_snoc: "length xs = n \<Longrightarrow> 0 < n \<Longrightarrow> lastn n (xs @ [x]) = tl xs @ [x]"
  by (cases xs) (simp_all add: lastn_def)

lemma set_lastn: "set (lastn n xs) \<subseteq> set xs"
  by (simp add: lastn_def set_drop_subset)

section \<open>A queue that drops its oldest element\<close>

locale drop_oldest =
  fixes cap :: nat
    and put :: "'x \<Rightarrow> 's \<Rightarrow> 's"
    and queue :: "'s \<Rightarrow> 'x list"
  assumes cap_pos: "0 < cap"
    and put_free: "length (queue s) < cap \<Longrightarrow> queue (put x s) = queue s @ [x]"
    and put_full: "length (queue s) = cap \<Longrightarrow> queue (put x s) = tl (queue s) @ [x]"
begin

lemma put_lastn: "length (queue s) \<le> cap \<Longrightarrow> queue (put x s) = lastn cap (queue s @ [x])"
  using cap_pos put_free [of s x] put_full [of s x]
  by (cases "length (queue s) = cap") (simp_all add: lastn_snoc)

lemma put_bounded: "length (queue s) \<le> cap \<Longrightarrow> length (queue (put x s)) \<le> cap"
  by (simp add: put_lastn length_lastn)

text \<open>After any number of arrivals the queue holds the last \<open>cap\<close> of them, in order.\<close>

lemma puts_lastn: "length (queue s) \<le> cap \<Longrightarrow> queue (fold put xs s) = lastn cap (queue s @ xs)"
proof (induction xs arbitrary: s)
  case Nil
  then show ?case by simp
next
  case (Cons x xs)
  then have "queue (fold put xs (put x s)) = lastn cap (queue (put x s) @ xs)" by (simp add: put_bounded)
  also have "\<dots> = lastn cap (queue s @ x # xs)"
    using lastn_absorb [of cap "queue s @ [x]" xs] Cons.prems by (simp add: put_lastn)
  finally show ?case by simp
qed

end

section \<open>Waiting for a condition\<close>

text \<open>
  \<open>condition_variable::wait_for(lock, timeout, pred)\<close>: the predicate is evaluated before the first
  wait, after each wake-up and once more at the timeout.  An element of the list is what other
  threads do between two evaluations.
\<close>

fun wait_for :: "('s \<Rightarrow> ('s \<times> bool) res) \<Rightarrow> ('e \<Rightarrow> 's \<Rightarrow> 's res) \<Rightarrow> 'e list \<Rightarrow> 's \<Rightarrow> ('s \<times> bool) res" where
  "wait_for pred others [] s = pred s"
| "wait_for pred others (e # es) s =
     bindR (pred s) (\<lambda>r. if snd r then Inr r else bindR (others e (fst r)) (wait_for pred others es))"

fun run_others :: "('e \<Rightarrow> 's \<Rightarrow> 's res) \<Rightarrow> 'e list \<Rightarrow> 's \<Rightarrow> 's res" where
  "run_others others [] s = Inr s"
| "run_others others (e # es) s = bindR (others e s) (run_others others es)"

locale condition_wait =
  fixes pred :: "'s \<Rightarrow> ('s \<times> bool) res"
    and others :: "'e \<Rightarrow> 's \<Rightarrow> 's res"
    and inv :: "'s \<Rightarrow> bool"
    and ready :: "'s \<Rightarrow> bool"
  assumes pred_pure: "inv s \<Longrightarrow> pred s = Inr (s', b) \<Longrightarrow> s' = s \<and> b = ready s"
    and others_inv: "inv s \<Longrightarrow> others e s = Inr s' \<Longrightarrow> inv s'"
begin

text \<open>
  The wait ends in a state the others have reached after some of their steps, and in which the
  predicate has the value that is returned; it gives up only when nothing is left to happen.
\<close>

lemma wait_for_run:
  assumes "inv s" and "wait_for pred others es s = Inr (s', b)"
  shows "inv s' \<and> b = ready s' \<and> pred s' = Inr (s', b) \<and>
    (\<exists>n \<le> length es. run_others others (take n es) s = Inr s' \<and> (b \<or> n = length es))"
  using assms
proof (induction es arbitrary: s)
  case Nil
  then have p: "pred s = Inr (s', b)" by simp
  with pred_pure [OF Nil(1) p] Nil(1) show ?case by simp
next
  case (Cons e es)
  from Cons.prems(2) obtain s0 b0 where "pred s = Inr (s0, b0)" by (auto simp: outcomes)
  with pred_pure [OF Cons.prems(1) this] have p: "pred s = Inr (s, b0)" "b0 = ready s" by simp_all
  show ?case
  proof (cases b0)
    case True
    with p(1) Cons.prems(2) have "s' = s" and b by simp_all
    with p True Cons.prems(1) show ?thesis by (intro conjI exI [of _ 0]) simp_all
  next
    case False
    with p Cons.prems(2) obtain u where u: "others e s = Inr u" "wait_for pred others es u = Inr (s', b)"
      by (auto simp: outcomes)
    from Cons.IH [OF others_inv [OF Cons.prems(1) u(1)] u(2)] obtain n where
      "n \<le> length es" "run_others others (take n es) u = Inr s'" "b \<or> n = length es"
      and rest: "inv s' \<and> b = ready s' \<and> pred s' = Inr (s', b)"
      by blast
    with u(1) have "Suc n \<le> length (e # es) \<and> run_others others (take (Suc n) (e # es)) s = Inr s' \<and>
        (b \<or> Suc n = length (e # es))"
      by simp
    with rest show ?thesis by blast
  qed
qed

end

text \<open>When neither the predicate nor the others can fail, the wait returns.\<close>

locale total_wait = condition_wait +
  assumes pred_total: "inv s \<Longrightarrow> \<exists>r. pred s = Inr r"
    and others_total: "inv s \<Longrightarrow> \<exists>s'. others e s = Inr s'"
begin

lemma wait_for_returns: "inv s \<Longrightarrow> \<exists>s' b. wait_for pred others es s = Inr (s', b)"
proof (induction es arbitrary: s)
  case Nil
  then show ?case using pred_total [of s] by auto
next
  case (Cons e es)
  obtain s0 b where "pred s = Inr (s0, b)" using pred_total [OF Cons.prems] by auto
  with pred_pure [OF Cons.prems this] have "pred s = Inr (s, b)" by simp
  moreover obtain u where "others e s = Inr u" "inv u"
    using others_total [OF Cons.prems] others_inv [OF Cons.prems] by blast
  ultimately show ?case using Cons.IH [of u] by auto
qed

end

text \<open>
  Two waits on related states: when the predicates and the steps of the others keep the relation, the waits end in the same
  way in related states.
\<close>

locale related_waits =
  fixes pred :: "'s \<Rightarrow> ('s \<times> bool) res" and pred' :: "'u \<Rightarrow> ('u \<times> bool) res"
    and others :: "'e \<Rightarrow> 's \<Rightarrow> 's res" and others' :: "'f \<Rightarrow> 'u \<Rightarrow> 'u res"
    and part :: "'e \<Rightarrow> 'f" and rel :: "'s \<Rightarrow> 'u \<Rightarrow> bool"
  assumes pred_rel: "rel s u \<Longrightarrow> rel_res (rel_prod rel (=)) (pred s) (pred' u)"
    and others_rel: "rel s u \<Longrightarrow> rel_res rel (others e s) (others' (part e) u)"
begin

lemma wait_rel: "rel s u \<Longrightarrow> rel_res (rel_prod rel (=)) (wait_for pred others es s) (wait_for pred' others' (map part es) u)"
proof (induction es arbitrary: s u)
  case Nil
  then show ?case by (simp add: pred_rel)
next
  case (Cons e es)
  show ?case
    unfolding wait_for.simps list.map
  proof (rule bindR_rel [OF pred_rel [OF Cons.prems]])
    fix r :: "'s \<times> bool" and r' :: "'u \<times> bool" assume r: "rel_prod rel (=) r r'"
    show "rel_res (rel_prod rel (=)) (if snd r then Inr r else bindR (others e (fst r)) (wait_for pred others es))
      (if snd r' then Inr r' else bindR (others' (part e) (fst r')) (wait_for pred' others' (map part es)))"
      using r by (cases r; cases r') (auto intro: bindR_rel [OF others_rel Cons.IH])
  qed
qed

end

text \<open>In one direction only: what the first wait can do without a fault the second one can do.\<close>

locale simulated_wait =
  fixes pred :: "'s \<Rightarrow> ('s \<times> bool) res" and pred' :: "'u \<Rightarrow> ('u \<times> bool) res"
    and others :: "'e \<Rightarrow> 's \<Rightarrow> 's res" and others' :: "'f \<Rightarrow> 'u \<Rightarrow> 'u res"
    and part :: "'e \<Rightarrow> 'f" and rel :: "'s \<Rightarrow> 'u \<Rightarrow> bool"
  assumes pred_sim: "rel s u \<Longrightarrow> pred s = Inr (s', b) \<Longrightarrow> \<exists>u'. pred' u = Inr (u', b) \<and> rel s' u'"
    and others_sim: "rel s u \<Longrightarrow> others e s = Inr s' \<Longrightarrow> \<exists>u'. others' (part e) u = Inr u' \<and> rel s' u'"
begin

lemma wait_sim:
  "rel s u \<Longrightarrow> wait_for pred others es s = Inr (s', b) \<Longrightarrow> \<exists>u'. wait_for pred' others' (map part es) u = Inr (u', b) \<and> rel s' u'"
proof (induction es arbitrary: s u)
  case Nil
  then show ?case using pred_sim by simp
next
  case (Cons e es)
  from Cons.prems(2) obtain s1 b1 where 1: "pred s = Inr (s1, b1)" by (auto simp: outcomes)
  with pred_sim [OF Cons.prems(1)] obtain u1 where u1: "pred' u = Inr (u1, b1)" "rel s1 u1" by blast
  show ?case
  proof (cases b1)
    case True
    with 1 u1 Cons.prems(2) show ?thesis by simp
  next
    case False
    with 1 Cons.prems(2) obtain s2 where 2: "others e s1 = Inr s2" "wait_for pred others es s2 = Inr (s', b)"
      by (auto simp: outcomes)
    with others_sim [OF u1(2)] obtain u2 where "others' (part e) u1 = Inr u2" "rel s2 u2" by blast
    with Cons.IH [OF _ 2(2)] u1(1) False show ?thesis by simp
  qed
qed

end

sublocale related_waits \<subseteq> simulated_wait pred pred' others others' part rel
proof
  fix s u s' b assume "rel s u" and "pred s = Inr (s', b)"
  with pred_rel [of s u] show "\<exists>u'. pred' u = Inr (u', b) \<and> rel s' u'" by (cases "pred' u") auto
next
  fix s u e s' assume "rel s u" and "others e s = Inr s'"
  with others_rel [of s u e] show "\<exists>u'. others' (part e) u = Inr u' \<and> rel s' u'" by (cases "others' (part e) u") auto
qed

text \<open>
  In particular two waits with the same predicate, of which the others in the second do only a part of what they do in the first,
  when nothing of the rest shows in \<open>view\<close>.
\<close>

locale observed_wait =
  fixes pred :: "'s \<Rightarrow> ('s \<times> bool) res" and others :: "'e \<Rightarrow> 's \<Rightarrow> 's res" and others' :: "'f \<Rightarrow> 's \<Rightarrow> 's res"
    and part :: "'f \<Rightarrow> 'e" and inv :: "'s \<Rightarrow> bool" and view :: "'s \<Rightarrow> 'v"
  assumes pred_view: "inv s \<Longrightarrow> inv u \<Longrightarrow> view s = view u \<Longrightarrow>
      map_sum id (map_prod view id) (pred s) = map_sum id (map_prod view id) (pred u)"
    and pred_inv: "inv s \<Longrightarrow> pred s = Inr (s', b) \<Longrightarrow> inv s'"
    and others_view: "inv s \<Longrightarrow> inv u \<Longrightarrow> view s = view u \<Longrightarrow>
      \<exists>s' u'. others' f s = Inr s' \<and> others (part f) u = Inr u' \<and> inv s' \<and> inv u' \<and> view s' = view u'"
begin

definition same_view :: "'s \<Rightarrow> 's \<Rightarrow> bool" where
  "same_view s u \<longleftrightarrow> inv s \<and> inv u \<and> view s = view u"

lemma pred_same_view:
  assumes "same_view s u"
  shows "rel_res (rel_prod same_view (=)) (pred s) (pred u)"
proof -
  from assms have i: "inv s" "inv u" and v: "view s = view u" by (simp_all add: same_view_def)
  have m: "map_sum id (map_prod view id) (pred s) = map_sum id (map_prod view id) (pred u)" by (rule pred_view [OF i v])
  show ?thesis
  proof (cases "pred s")
    case (Inl e)
    with m show ?thesis by (cases "pred u") simp_all
  next
    case (Inr r)
    then obtain s1 b u1 where r: "pred s = Inr (s1, b)" "pred u = Inr (u1, b)" "view s1 = view u1"
      using m by (cases r; cases "pred u") auto
    with pred_inv [OF i(1) r(1)] pred_inv [OF i(2) r(2)] show ?thesis by (simp add: same_view_def)
  qed
qed

lemma others_same_view:
  assumes "same_view s u"
  shows "rel_res same_view (others' f s) (others (part f) u)"
proof -
  from assms have i: "inv s" "inv u" and v: "view s = view u" by (simp_all add: same_view_def)
  from others_view [OF i v, of f] obtain s1 u1 where
    "others' f s = Inr s1" "others (part f) u = Inr u1" "inv s1 \<and> inv u1 \<and> view s1 = view u1" by metis
  then show ?thesis by (simp add: same_view_def)
qed

end

sublocale observed_wait \<subseteq> related_waits pred pred others' others part same_view
  by unfold_locales (rule pred_same_view, assumption, rule others_same_view, assumption)

context observed_wait
begin

lemma wait_view:
  assumes "inv s" and "inv u" and "view s = view u"
  shows "map_sum id (map_prod view id) (wait_for pred others' fs s) =
    map_sum id (map_prod view id) (wait_for pred others (map part fs) u)"
proof -
  have "same_view s u" using assms by (simp add: same_view_def)
  from wait_rel [OF this, of fs] show ?thesis
    by (cases "wait_for pred others' fs s"; cases "wait_for pred others (map part fs) u") (auto simp: same_view_def elim!: rel_prod.cases)
qed

end

section \<open>Waits whose predicate may fail\<close>

locale faulty_wait = condition_wait +
  fixes expected :: "fault \<Rightarrow> bool"
  assumes pred_fault: "inv s \<Longrightarrow> pred s = Inl f \<Longrightarrow> expected f"
    and others_fault: "inv s \<Longrightarrow> others e s = Inl f \<Longrightarrow> expected f"
begin

lemma wait_for_fault: "inv s \<Longrightarrow> wait_for pred others es s = Inl f \<Longrightarrow> expected f"
proof (induction es arbitrary: s)
  case Nil
  then show ?case using pred_fault by simp
next
  case (Cons e es)
  show ?case
  proof (cases "pred s")
    case (Inl g)
    with Cons.prems pred_fault show ?thesis by simp
  next
    case (Inr x)
    then obtain b where p: "pred s = Inr (s, b)" using pred_pure [OF Cons.prems(1)] by (cases x) blast
    with Cons.prems(2) have "\<not> b" and r: "bindR (others e s) (wait_for pred others es) = Inl f" by (auto split: if_splits)
    show ?thesis
    proof (cases "others e s")
      case (Inl g)
      with r others_fault Cons.prems(1) show ?thesis by simp
    next
      case (Inr u)
      with r Cons.IH [of u] others_inv [OF Cons.prems(1) Inr] show ?thesis by simp
    qed
  qed
qed

end

section \<open>Programs over an interface\<close>

fun run_program :: "('c \<Rightarrow> 's \<Rightarrow> ('s \<times> 'r) res) \<Rightarrow> 'c list \<Rightarrow> 's \<Rightarrow> ('s \<times> 'r list) res" where
  "run_program step [] s = Inr (s, [])"
| "run_program step (c # cs) s = bindR (step c s) (\<lambda>(s, r). bindR (run_program step cs s) (\<lambda>(s, rs). Inr (s, r # rs)))"

text \<open>\<open>rule\<close> holds for every call at the state it is made in.\<close>

fun along :: "('c \<Rightarrow> 's \<Rightarrow> ('s \<times> 'r) res) \<Rightarrow> ('c \<Rightarrow> 's \<Rightarrow> bool) \<Rightarrow> 'c list \<Rightarrow> 's \<Rightarrow> bool" where
  "along step rule [] s \<longleftrightarrow> True"
| "along step rule (c # cs) s \<longleftrightarrow> rule c s \<and> (case step c s of Inl e \<Rightarrow> True | Inr (s', r) \<Rightarrow> along step rule cs s')"

locale sound_steps =
  fixes step :: "'c \<Rightarrow> 's \<Rightarrow> ('s \<times> 'r) res" and rule :: "'c \<Rightarrow> 's \<Rightarrow> bool" and inv :: "'s \<Rightarrow> bool"
    and fits :: "'c \<Rightarrow> 'r \<Rightarrow> bool" and expected :: "fault \<Rightarrow> bool"
  assumes step_preserves: "inv s \<Longrightarrow> rule c s \<Longrightarrow> step c s = Inr (s', r) \<Longrightarrow> inv s' \<and> fits c r"
    and step_fault: "inv s \<Longrightarrow> rule c s \<Longrightarrow> step c s = Inl e \<Longrightarrow> expected e"
begin

lemma run_program_sound:
  assumes "inv s" and "along step rule cs s"
  shows "case run_program step cs s of Inl e \<Rightarrow> expected e | Inr (s', rs) \<Rightarrow> inv s' \<and> list_all2 fits cs rs"
  using assms
proof (induction cs arbitrary: s)
  case (Cons c cs)
  show ?case
  proof (cases "step c s")
    case (Inl e)
    with Cons.prems step_fault show ?thesis by simp
  next
    case (Inr x)
    obtain s' r where x: "x = (s', r)" by (cases x)
    with Inr Cons.prems step_preserves have "inv s'" "fits c r" "along step rule cs s'" by auto
    with Cons.IH [of s'] Inr x show ?thesis by (auto split: sum.splits)
  qed
qed simp

end

text \<open>A resource of which every call uses at most \<open>k\<close>: a short program never runs out of it.\<close>

locale budgeted_steps =
  fixes step :: "'c \<Rightarrow> 's \<Rightarrow> ('s \<times> 'r) res" and rule :: "'c \<Rightarrow> 's \<Rightarrow> bool" and inv :: "'s \<Rightarrow> bool"
    and used :: "'s \<Rightarrow> int" and k :: nat
  assumes step_use: "inv s \<Longrightarrow> rule c s \<Longrightarrow> step c s = Inr (s', r) \<Longrightarrow> inv s' \<and> used s' \<le> used s + int k"
begin

lemma along_budget:
  assumes "inv s" and "used s + int (k * length cs) < limit" and "along step (\<lambda>c s. rule c s \<and> extra c s) cs s"
  shows "along step (\<lambda>c s. (rule c s \<and> extra c s) \<and> used s + int k < limit) cs s"
  using assms
proof (induction cs arbitrary: s)
  case (Cons c cs)
  have bound: "used s + int k + int (k * length cs) < limit" using Cons.prems(2) by (simp add: algebra_simps)
  have "used s + int k \<le> used s + int k + int (k * length cs)" unfolding le_add_same_cancel1 by (rule of_nat_0_le_iff)
  with bound have now: "used s + int k < limit" by (rule order.strict_trans1 [rotated])
  show ?case
  proof (cases "step c s")
    case (Inr x)
    obtain s' r where x: "x = (s', r)" by (cases x)
    with Inr Cons.prems(1,3) step_use [of s c s' r] have "inv s'" "used s' \<le> used s + int k" by auto
    then have "used s' + int (k * length cs) < limit" using bound by linarith
    with Cons.IH [of s'] \<open>inv s'\<close> Cons.prems(3) Inr x now show ?thesis by simp
  qed (use Cons.prems(3) now in simp)
qed simp

end

end
