(* ===== verification/Session.thy ===== *)
theory Session
  imports Net_Transport Interfaces
begin

text \<open>
  \<open>Session\<close> of src/session.cpp: JSON-RPC requests and their responses over a transport, and the two
  queues of scan data.  The I/O thread runs the transport's handlers, which call \<open>onMessageReceived\<close>
  and \<open>onOobPacketReceived\<close>.  A call that waits takes the I/O events that may happen meanwhile, a
  list for each interval between two evaluations of its condition (\<open>wait_for\<close>).  The members of the
  class keep their names, with a prime for the final underscore.
\<close>

section \<open>State\<close>

record session =
  timeout' :: int
  transport' :: "transport option"
  id' :: int
  response_queue :: "json list"
  scan_block_queue_primary :: "json list"
  scan_block_queue_oob :: "byte list list"

definition DEFAULT_TIMEOUT :: int where
  "DEFAULT_TIMEOUT = 3000"

definition SCAN_BLOCK_BUFFERING_COUNT :: nat where
  "SCAN_BLOCK_BUFFERING_COUNT = 32"

definition Session :: session where [opens]:
  "Session = \<lparr>timeout' = DEFAULT_TIMEOUT, transport' = None, id' = - 1, response_queue = [],
     scan_block_queue_primary = [], scan_block_queue_oob = []\<rparr>"

definition setTimeout :: "int \<Rightarrow> session \<Rightarrow> session" where
  "setTimeout timeout s = s\<lparr>timeout' := timeout\<rparr>"

section \<open>Opening and closing\<close>

text \<open>
  The new transport replaces the old one; destroying a transport whose thread has not been joined
  ends the process.  A location that is not a \<open>NetworkLocation\<close> gives a null transport.
\<close>

definition open_session :: "location \<Rightarrow> asio_error option option \<Rightarrow> session \<Rightarrow> (session \<times> error_t) res" where [opens]:
  "open_session l outcome s =
     (if (case transport' s of Some t \<Rightarrow> primary_open t | None \<Rightarrow> False) then Inl Terminate
      else case Transport_create l of
        None \<Rightarrow> Inl Null_deref
      | Some t \<Rightarrow>
          let t = setReceivedOobPacketCallback (setReceivedMessageCallback t);
              r = connect outcome t
          in Inr (s\<lparr>transport' := (if snd r \<noteq> no_error then None else Some (fst r))\<rparr>, snd r))"

definition close_session :: "asio_error option \<Rightarrow> session \<Rightarrow> session res" where
  "close_session shutdown_result s =
     bindR (case transport' s of
         None \<Rightarrow> Inr ()
       | Some t \<Rightarrow> if isConnected t then bindR (disconnect shutdown_result t) (\<lambda>_. Inr ()) else Inr ())
       (\<lambda>_. Inr (s\<lparr>transport' := None, response_queue := [], scan_block_queue_primary := [],
               scan_block_queue_oob := []\<rparr>))"

definition isOpened :: "session \<Rightarrow> bool" where
  "isOpened s = (case transport' s of Some t \<Rightarrow> isConnected t | None \<Rightarrow> False)"

section \<open>The callbacks of the I/O thread\<close>

text \<open>\<open>message.HasMember(name) && message[name] == text\<close>\<close>

definition member_is :: "json \<Rightarrow> string \<Rightarrow> string \<Rightarrow> bool res" where
  "member_is message name s =
     andR (HasMember message name) (bindR (member message name) (\<lambda>v. Inr (eq_string v s)))"

definition onMessageReceived :: "json \<Rightarrow> session \<Rightarrow> session res" where
  "onMessageReceived message s =
     bindR (member_is message ''jsonrpc'' ''2.0'') (\<lambda>version.
       if \<not> version then Inr s
       else bindR (andR (orR (HasMember message ''result'') (HasMember message ''error'')) (HasMember message ''id''))
         (\<lambda>response.
            if response then
              bindR (member message ''id'') (\<lambda>i.
                Inr (if eq_int i (id' s) then s\<lparr>response_queue := [message]\<rparr> else s))
            else bindR (andR (andR (member_is message ''method'' ''notification/laserScan'')
                          (HasMember message ''params''))
                        (bindR (HasMember message ''id'') (\<lambda>b. Inr (\<not> b)))) (\<lambda>notification.
              Inr (if notification then
                     let q = scan_block_queue_primary s;
                         q = (if length q = SCAN_BLOCK_BUFFERING_COUNT then tl q else q)
                     in s\<lparr>scan_block_queue_primary := q @ [message]\<rparr>
                   else s))))"

definition onOobPacketReceived :: "byte list \<Rightarrow> session \<Rightarrow> session" where
  "onOobPacketReceived oob_packet s =
     (let q = scan_block_queue_oob s;
          q = (if length q = SCAN_BLOCK_BUFFERING_COUNT then tl q else q)
      in s\<lparr>scan_block_queue_oob := q @ [oob_packet]\<rparr>)"

text \<open>The session registers no callback for errors; the transport reports none then.\<close>

fun deliver :: "callback \<Rightarrow> session \<Rightarrow> session res" where
  "deliver (Message message) s = onMessageReceived message s"
| "deliver (Oob_data packet) s = Inr (onOobPacketReceived packet s)"
| "deliver (Transmit_error e) s = Inr s"
| "deliver (Receive_error e) s = Inr s"

fun deliver_all :: "callback list \<Rightarrow> session \<Rightarrow> session res" where
  "deliver_all [] s = Inr s"
| "deliver_all (cb # cbs) s = bindR (deliver cb s) (deliver_all cbs)"

definition session_io :: "json_writer \<Rightarrow> json_reader \<Rightarrow> io_event list \<Rightarrow> session \<Rightarrow> session res" where
  "session_io wr rd evs s =
     (case transport' s of
        None \<Rightarrow> Inr s
      | Some t \<Rightarrow> bindR (io_run wr rd evs t) (\<lambda>(t, cbs). deliver_all cbs (s\<lparr>transport' := Some t\<rparr>)))"

section \<open>Requests\<close>

definition createEmptyRequestObject :: json where
  "createEmptyRequestObject = JObject [(''jsonrpc'', JString ''2.0''), (''method'', JNull)]"

text \<open>The request gets the next identifier and goes to the transport.\<close>

definition send_request :: "json_writer \<Rightarrow> json \<Rightarrow> session \<Rightarrow> session res" where
  "send_request wr request s =
     (if id' s = 2 ^ 31 - 1 then Inl Signed_overflow
      else
        let s = s\<lparr>id' := id' s + 1\<rparr> in
        bindR (AddMember request ''id'' (JInt (id' s))) (\<lambda>request.
          case transport' s of
            None \<Rightarrow> Inl Null_deref
          | Some t \<Rightarrow> Inr (s\<lparr>transport' := Some (transmitMessage wr request t)\<rparr>)))"

definition executeCommand :: "json_writer \<Rightarrow> json \<Rightarrow> session \<Rightarrow> session res" where
  "executeCommand wr request s = send_request wr request s"

text \<open>
  \<open>std::remove_if\<close> on the queue, whose result the code drops: the kept elements move to the front,
  a moved document is left null, and the queue keeps its length.
\<close>

definition remove_if_in_place :: "('a \<Rightarrow> bool) \<Rightarrow> 'a \<Rightarrow> 'a list \<Rightarrow> 'a list" where
  "remove_if_in_place P moved xs =
     (let kept = filter (\<lambda>x. \<not> P x) xs
      in kept @ map (\<lambda>x. if P x then x else moved) (drop (length kept) xs))"

definition is_stale :: "int \<Rightarrow> json \<Rightarrow> bool res" where
  "is_stale i document = bindR (member document ''id'') (\<lambda>v. bindR (GetInt v) (\<lambda>n. Inr (n < i)))"

definition response_ready :: "session \<Rightarrow> (session \<times> bool) res" where
  "response_ready s =
     bindR (mapR (is_stale (id' s)) (response_queue s)) (\<lambda>_.
       let q = remove_if_in_place (\<lambda>d. is_stale (id' s) d = Inr True) JNull (response_queue s);
           s = s\<lparr>response_queue := q\<rparr>
       in case q of
            [] \<Rightarrow> Inr (s, False)
          | d # _ \<Rightarrow> bindR (member d ''id'') (\<lambda>v. Inr (s, eq_int v (id' s))))"

definition error_of_code :: "int \<Rightarrow> error_t" where
  "error_of_code error_code =
     (if error_code = - 1 \<or> error_code = - 2 \<or> error_code = - 32700 \<or> error_code = - 32600 then protocol_error
      else if error_code = - 32601 then not_supported
      else if error_code = - 32602 then invalid_params
      else if error_code = - 32603 then device_error
      else unknown)"

definition error_of_response :: "json \<Rightarrow> error_t res" where
  "error_of_response message =
     bindR (member message ''error'') (\<lambda>e.
       bindR (andR (andR (Inr (IsObject e)) (HasMember e ''code''))
           (bindR (member e ''code'') (\<lambda>c. Inr (IsInt c)))) (\<lambda>coded.
         if coded then bindR (member e ''code'') (\<lambda>c. bindR (GetInt c) (\<lambda>n. Inr (error_of_code n)))
         else Inr unknown))"

text \<open>
  The value of \<open>executeCommand(request, response)\<close>: the state, the code and, when \<open>response\<close> is
  assigned, its new value.
\<close>

definition executeCommand_among ::
  "('e \<Rightarrow> session \<Rightarrow> session res) \<Rightarrow> json_writer \<Rightarrow> 'e list \<Rightarrow> json \<Rightarrow> session \<Rightarrow> (session \<times> error_t \<times> json option) res" where
  "executeCommand_among others wr es request s =
     bindR (send_request wr request s) (\<lambda>s.
     bindR (wait_for response_ready others es s) (\<lambda>(s, wait_result).
       if wait_result then
         let message = hd (response_queue s) in
         bindR (HasMember message ''result'') (\<lambda>ok.
           if ok then Inr (s\<lparr>response_queue := tl (response_queue s)\<rparr>, no_error, Some message)
           else bindR (error_of_response message) (\<lambda>e. Inr (s, e, None)))
       else Inr (s, timed_out, None)))"

text \<open>What happens during the wait are events of the I/O thread; theory \<open>Session_Threads\<close> adds other callers.\<close>

definition executeCommand_response ::
  "json_writer \<Rightarrow> json_reader \<Rightarrow> io_event list list \<Rightarrow> json \<Rightarrow> session \<Rightarrow> (session \<times> error_t \<times> json option) res" where
  "executeCommand_response wr rd = executeCommand_among (session_io wr rd) wr"

section \<open>Scan data\<close>

definition enableOobTransport :: "location \<Rightarrow> asio_error option \<Rightarrow> session \<Rightarrow> (session \<times> error_t) res" where
  "enableOobTransport l bind_result s =
     (case transport' s of
        None \<Rightarrow> Inl Null_deref
      | Some t \<Rightarrow> bindR (enableOob l bind_result t) (\<lambda>(t, e). Inr (s\<lparr>transport' := Some t\<rparr>, e)))"

text \<open>
  The value of \<open>pollForScanBlock\<close>: the state, the code, and what is assigned to \<open>notification\<close> or
  \<open>oob_data\<close>.  \<open>front_block\<close> is the part behind the wait.
\<close>

datatype scan_data = No_data | Notification json | Oob_block "byte list"

definition front_block :: "session \<Rightarrow> session \<times> scan_data" where
  "front_block s =
     (case scan_block_queue_primary s of
        n # q \<Rightarrow> (s\<lparr>scan_block_queue_primary := q\<rparr>, Notification n)
      | [] \<Rightarrow> (case scan_block_queue_oob s of
          d # q \<Rightarrow> (s\<lparr>scan_block_queue_oob := q\<rparr>, Oob_block d)
        | [] \<Rightarrow> (s, No_data)))"

definition block_ready :: "session \<Rightarrow> (session \<times> bool) res" where
  "block_ready s = Inr (s, 0 < length (scan_block_queue_primary s) \<or> 0 < length (scan_block_queue_oob s))"

definition pollForScanBlock ::
  "json_writer \<Rightarrow> json_reader \<Rightarrow> io_event list list \<Rightarrow> session \<Rightarrow> (session \<times> error_t \<times> scan_data) res" where
  "pollForScanBlock wr rd evss s =
     bindR (wait_for block_ready (session_io wr rd) evss s) (\<lambda>(s, wait_result).
       if wait_result then (case front_block s of (s, block) \<Rightarrow> Inr (s, no_error, block))
       else Inr (s, timed_out, No_data))"

section \<open>What the callbacks do\<close>

definition has :: "json \<Rightarrow> string \<Rightarrow> bool" where
  "has d name = (case d of JObject ms \<Rightarrow> map_of ms name \<noteq> None | _ \<Rightarrow> False)"

definition the_member :: "json \<Rightarrow> string \<Rightarrow> json" where
  "the_member d name = (case d of JObject ms \<Rightarrow> (case map_of ms name of Some v \<Rightarrow> v | None \<Rightarrow> JNull) | _ \<Rightarrow> JNull)"

text \<open>A JSON-RPC 2.0 response to the request with identifier \<open>i\<close>, and a notification with scan data.\<close>

definition answers :: "int \<Rightarrow> json \<Rightarrow> bool" where
  "answers i d \<longleftrightarrow> the_member d ''jsonrpc'' = JString ''2.0'' \<and> (has d ''result'' \<or> has d ''error'') \<and>
     has d ''id'' \<and> eq_int (the_member d ''id'') i"

definition laser_scan :: "json \<Rightarrow> bool" where
  "laser_scan d \<longleftrightarrow> the_member d ''jsonrpc'' = JString ''2.0'' \<and>
     the_member d ''method'' = JString ''notification/laserScan'' \<and> has d ''params'' \<and> \<not> has d ''id''"

lemma HasMember_has: "IsObject d \<Longrightarrow> HasMember d name = Inr (has d name)"
  by (auto simp: IsObject_iff has_def)

lemma member_the: "has d name \<Longrightarrow> member d name = Inr (the_member d name)"
  by (auto simp: has_def the_member_def split: json.splits option.splits)

lemma not_has_member: "\<not> has d name \<Longrightarrow> the_member d name = JNull"
  by (auto simp: has_def the_member_def split: json.splits option.splits)

lemma member_is_the: "IsObject d \<Longrightarrow> member_is d name s = Inr (the_member d name = JString s)"
  by (cases "has d name")
    (auto simp: member_is_def HasMember_has member_the not_has_member eq_string_def split: json.splits)

definition put_notification :: "json \<Rightarrow> session \<Rightarrow> session" where
  "put_notification d s =
     s\<lparr>scan_block_queue_primary :=
        (if length (scan_block_queue_primary s) = SCAN_BLOCK_BUFFERING_COUNT then tl (scan_block_queue_primary s)
         else scan_block_queue_primary s) @ [d]\<rparr>"

lemma onMessageReceived_eq:
  "IsObject d \<Longrightarrow> onMessageReceived d s =
     Inr (if answers (id' s) d then s\<lparr>response_queue := [d]\<rparr>
          else if laser_scan d then put_notification d s else s)"
  by (auto simp: onMessageReceived_def member_is_the HasMember_has member_the answers_def laser_scan_def
      put_notification_def Let_def)

interpretation primary: drop_oldest SCAN_BLOCK_BUFFERING_COUNT put_notification scan_block_queue_primary
  by unfold_locales (simp_all add: SCAN_BLOCK_BUFFERING_COUNT_def put_notification_def)

interpretation oob: drop_oldest SCAN_BLOCK_BUFFERING_COUNT onOobPacketReceived scan_block_queue_oob
  by unfold_locales (simp_all add: SCAN_BLOCK_BUFFERING_COUNT_def onOobPacketReceived_def Let_def)

fun messages :: "callback list \<Rightarrow> json list" where
  "messages [] = []"
| "messages (Message d # cbs) = d # messages cbs"
| "messages (_ # cbs) = messages cbs"

fun packets :: "callback list \<Rightarrow> byte list list" where
  "packets [] = []"
| "packets (Oob_data d # cbs) = d # packets cbs"
| "packets (_ # cbs) = packets cbs"

lemma messages_append [simp]: "messages (xs @ ys) = messages xs @ messages ys"
  by (induction xs rule: messages.induct) simp_all

lemma packets_append [simp]: "packets (xs @ ys) = packets xs @ packets ys"
  by (induction xs rule: packets.induct) simp_all

lemma messages_map_Message [simp]: "messages (map Message ds) = ds"
  by (induction ds) simp_all

lemma packets_map_Message [simp]: "packets (map Message ds) = []"
  by (induction ds) simp_all

lemma messages_from_reader:
  "list_all (from_reader rd) cbs \<Longrightarrow> \<forall>d \<in> set (messages cbs). IsObject d \<and> (\<exists>buf. fst (rd buf) = Some d)"
  by (induction cbs rule: messages.induct) (auto simp: from_reader_def)

text \<open>
  What is left of the response queue after some messages: the last one that answers the current
  request takes the place of what was there.
\<close>

definition latest :: "int \<Rightarrow> json list \<Rightarrow> json list \<Rightarrow> json list" where
  "latest i old ds = (if filter (answers i) ds = [] then old else [last (filter (answers i) ds)])"

definition scan_bounded :: "session \<Rightarrow> bool" where
  "scan_bounded s \<longleftrightarrow> length (scan_block_queue_primary s) \<le> SCAN_BLOCK_BUFFERING_COUNT \<and>
     length (scan_block_queue_oob s) \<le> SCAN_BLOCK_BUFFERING_COUNT"

lemma laser_scan_no_answer: "laser_scan d \<Longrightarrow> \<not> answers i d"
  by (simp add: laser_scan_def answers_def)

lemma deliver_all_eq:
  assumes "\<forall>d \<in> set (messages cbs). IsObject d" and "scan_bounded s"
  shows "deliver_all cbs s = Inr (s\<lparr>
      response_queue := latest (id' s) (response_queue s) (messages cbs),
      scan_block_queue_primary := lastn SCAN_BLOCK_BUFFERING_COUNT (scan_block_queue_primary s @ filter laser_scan (messages cbs)),
      scan_block_queue_oob := lastn SCAN_BLOCK_BUFFERING_COUNT (scan_block_queue_oob s @ packets cbs)\<rparr>)"
  using assms
proof (induction cbs arbitrary: s)
  case Nil
  then show ?case by (cases s) (simp add: latest_def scan_bounded_def)
next
  case (Cons cb cbs)
  show ?case
  proof (cases cb)
    case (Message d)
    then have d: "IsObject d" using Cons.prems(1) by simp
    let ?u = "if answers (id' s) d then s\<lparr>response_queue := [d]\<rparr>
          else if laser_scan d then put_notification d s else s"
    have "scan_bounded ?u"
      using Cons.prems(2) primary.put_bounded [of s d] by (auto simp: scan_bounded_def put_notification_def)
    moreover have "scan_block_queue_primary (put_notification d s) =
        lastn SCAN_BLOCK_BUFFERING_COUNT (scan_block_queue_primary s @ [d])"
      using Cons.prems(2) by (intro primary.put_lastn) (simp add: scan_bounded_def)
    moreover have "put_notification d s = s\<lparr>scan_block_queue_primary := scan_block_queue_primary (put_notification d s)\<rparr>"
      by (simp add: put_notification_def)
    ultimately show ?thesis
      using Message Cons d lastn_absorb [of SCAN_BLOCK_BUFFERING_COUNT "scan_block_queue_primary s @ [d]"]
      by (cases s) (auto simp: onMessageReceived_eq latest_def laser_scan_no_answer)
  next
    case (Oob_data p)
    have "scan_bounded (onOobPacketReceived p s)"
      using Cons.prems(2) oob.put_bounded [of s p] by (simp add: scan_bounded_def onOobPacketReceived_def Let_def)
    moreover have "scan_block_queue_oob (onOobPacketReceived p s) =
        lastn SCAN_BLOCK_BUFFERING_COUNT (scan_block_queue_oob s @ [p])"
      using Cons.prems(2) by (intro oob.put_lastn) (simp add: scan_bounded_def)
    moreover have "onOobPacketReceived p s = s\<lparr>scan_block_queue_oob := scan_block_queue_oob (onOobPacketReceived p s)\<rparr>"
      by (simp add: onOobPacketReceived_def Let_def)
    ultimately show ?thesis
      using Oob_data Cons lastn_absorb [of SCAN_BLOCK_BUFFERING_COUNT "scan_block_queue_oob s @ [p]"]
      by (cases s) auto
  qed (use Cons in simp_all)
qed

section \<open>The invariant of a session\<close>

text \<open>
  At most one response is kept; it answers a request that has been sent (or has the identifier from
  before the first request).  The scan queues are bounded and an open transport has its callbacks.
\<close>

definition session_ok :: "session \<Rightarrow> bool" where
  "session_ok s \<longleftrightarrow> scan_bounded s \<and> - 1 \<le> id' s \<and> id' s < 2 ^ 31 \<and>
     (response_queue s = [] \<or> (\<exists>d i. response_queue s = [d] \<and> IsObject d \<and> - 1 \<le> i \<and> i \<le> id' s \<and> answers i d)) \<and>
     (case transport' s of None \<Rightarrow> True | Some t \<Rightarrow> received_message_callback t \<and> primary_open t)"

lemma session_ok_latest:
  assumes "session_ok s" and "\<forall>d \<in> set ds. IsObject d"
  shows "latest (id' s) (response_queue s) ds = [] \<or>
    (\<exists>d i. latest (id' s) (response_queue s) ds = [d] \<and> IsObject d \<and> - 1 \<le> i \<and> i \<le> id' s \<and> answers i d)"
proof (cases "filter (answers (id' s)) ds = []")
  case False
  then have "last (filter (answers (id' s)) ds) \<in> set (filter (answers (id' s)) ds)" by (rule last_in_set)
  with False assms show ?thesis by (auto simp: latest_def session_ok_def)
qed (use assms(1) in \<open>auto simp: latest_def session_ok_def\<close>)

text \<open>The state after the events \<open>evs\<close>, of which the transport reports \<open>cbs\<close>.\<close>

definition after_io :: "transport \<Rightarrow> callback list \<Rightarrow> session \<Rightarrow> session" where
  "after_io t cbs s = s\<lparr>transport' := Some t,
     response_queue := latest (id' s) (response_queue s) (messages cbs),
     scan_block_queue_primary := lastn SCAN_BLOCK_BUFFERING_COUNT (scan_block_queue_primary s @ filter laser_scan (messages cbs)),
     scan_block_queue_oob := lastn SCAN_BLOCK_BUFFERING_COUNT (scan_block_queue_oob s @ packets cbs)\<rparr>"

lemma session_io_after:
  assumes "session_ok s" and "transport' s = Some t"
  obtains t' cbs where "io_run wr rd evs t = Inr (t', cbs)" "same_callbacks t t'" "list_all (from_reader rd) cbs"
    "session_io wr rd evs s = Inr (after_io t' cbs s)" "session_ok (after_io t' cbs s)"
proof -
  have "received_message_callback t" using assms by (simp add: session_ok_def)
  from io_run_owner [OF this, of wr rd evs] obtain t' cbs where
    t': "io_run wr rd evs t = Inr (t', cbs)" "same_callbacks t t'" "list_all (from_reader rd) cbs" by blast
  have "scan_bounded (s\<lparr>transport' := Some t'\<rparr>)" using assms(1) by (simp add: session_ok_def scan_bounded_def)
  from deliver_all_eq [OF _ this] messages_from_reader [OF t'(3)] have "session_io wr rd evs s = Inr (after_io t' cbs s)"
    using t'(1) assms(2) by (simp add: session_io_def after_io_def)
  moreover have "session_ok (after_io t' cbs s)"
    using session_ok_latest [OF assms(1), of "messages cbs"] messages_from_reader [OF t'(3)] assms t'(2)
    by (auto simp: session_ok_def after_io_def scan_bounded_def length_lastn same_callbacks_def)
  ultimately show thesis using that t' by blast
qed

lemma after_io_simps [simp]:
  "transport' (after_io t cbs s) = Some t" "id' (after_io t cbs s) = id' s" "timeout' (after_io t cbs s) = timeout' s"
  by (simp_all add: after_io_def)

lemma session_io_ok:
  assumes "session_ok s" and "session_io wr rd evs s = Inr s'"
  shows "session_ok s'"
proof (cases "transport' s")
  case None
  with assms show ?thesis by (simp add: session_io_def)
next
  case (Some t)
  from session_io_after [OF assms(1) Some, of wr rd evs] assms(2) show ?thesis by auto
qed

lemma session_io_total: "session_ok s \<Longrightarrow> \<exists>s'. session_io wr rd evs s = Inr s'"
  by (cases "transport' s") (auto simp: session_io_def [of wr rd evs s] elim: session_io_after [of s _ wr rd evs])

lemma latest_latest: "latest i (latest i old xs) ys = latest i old (xs @ ys)"
  by (auto simp: latest_def)

lemma after_io_twice: "after_io t' cbs' (after_io t cbs s) = after_io t' (cbs @ cbs') s"
  by (simp add: after_io_def latest_latest lastn_absorb)

lemma session_io_append:
  assumes "session_ok s"
  shows "session_io wr rd (evs @ evs') s = bindR (session_io wr rd evs s) (session_io wr rd evs')"
proof (cases "transport' s")
  case None
  then show ?thesis by (simp add: session_io_def)
next
  case (Some t)
  from session_io_after [OF assms Some, of wr rd evs] obtain t1 cbs1 where
    1: "io_run wr rd evs t = Inr (t1, cbs1)" "session_io wr rd evs s = Inr (after_io t1 cbs1 s)"
      "session_ok (after_io t1 cbs1 s)" by blast
  from session_io_after [OF 1(3), of t1 wr rd evs'] obtain t2 cbs2 where
    2: "io_run wr rd evs' t1 = Inr (t2, cbs2)"
      "session_io wr rd evs' (after_io t1 cbs1 s) = Inr (after_io t2 cbs2 (after_io t1 cbs1 s))"
    by (metis after_io_simps(1))
  from session_io_after [OF assms Some, of wr rd "evs @ evs'"] obtain t3 cbs3 where
    "io_run wr rd (evs @ evs') t = Inr (t3, cbs3)" "session_io wr rd (evs @ evs') s = Inr (after_io t3 cbs3 s)" by blast
  with 1 2 show ?thesis by (simp add: io_run_append after_io_twice)
qed

lemma run_others_session_io:
  "session_ok s \<Longrightarrow> run_others (session_io wr rd) evss s = session_io wr rd (concat evss) s"
proof (induction evss arbitrary: s)
  case Nil
  then show ?case
    by (cases s, cases "transport' s") (simp_all add: session_io_def)
next
  case (Cons evs evss)
  obtain s1 where "session_io wr rd evs s = Inr s1" "session_ok s1"
    using session_io_total [OF Cons.prems] session_io_ok [OF Cons.prems] by blast
  with Cons show ?case by (simp add: session_io_append)
qed

section \<open>The two waits\<close>

definition response_waiting :: "session \<Rightarrow> bool" where
  "response_waiting s \<longleftrightarrow> (\<exists>d. response_queue s = [d] \<and> eq_int (the_member d ''id'') (id' s))"

lemma remove_if_in_place_single: "remove_if_in_place P m [x] = [x]"
  by (simp add: remove_if_in_place_def)

lemma response_ready_pure:
  assumes "session_ok s" and "response_ready s = Inr (s', b)"
  shows "s' = s \<and> b = response_waiting s"
proof (cases "response_queue s")
  case Nil
  then have "s\<lparr>response_queue := []\<rparr> = s" by (cases s) simp
  with Nil assms(2) show ?thesis
    by (simp add: response_ready_def remove_if_in_place_def response_waiting_def)
next
  case (Cons d q)
  with assms(1) have "q = []" and d: "has d ''id''" by (auto simp: session_ok_def answers_def)
  then have "response_queue s = [d]" and "s\<lparr>response_queue := [d]\<rparr> = s" using Cons by (cases s; simp)+
  with assms(2) d show ?thesis
    by (auto simp: response_ready_def remove_if_in_place_single response_waiting_def member_the bindR_Inr_iff Let_def)
qed

interpretation command_wait: condition_wait response_ready "session_io wr rd" session_ok response_waiting
  for wr rd
  by unfold_locales (simp_all add: response_ready_pure session_io_ok)

definition block_waiting :: "session \<Rightarrow> bool" where
  "block_waiting s \<longleftrightarrow> scan_block_queue_primary s \<noteq> [] \<or> scan_block_queue_oob s \<noteq> []"

interpretation block_wait: total_wait block_ready "session_io wr rd" session_ok block_waiting
  for wr rd
  by unfold_locales (auto simp: block_ready_def block_waiting_def session_io_ok session_io_total)

section \<open>Commands\<close>

lemma transmitMessage_owner: "same_callbacks t (transmitMessage wr m t)"
  by (simp add: transmitMessage_def start_write_def same_callbacks_def Let_def)

definition with_id :: "json \<Rightarrow> int \<Rightarrow> json" where
  "with_id d i = (case d of JObject ms \<Rightarrow> JObject (ms @ [(''id'', JInt i)]) | _ \<Rightarrow> d)"

definition sent :: "json_writer \<Rightarrow> json \<Rightarrow> session \<Rightarrow> transport \<Rightarrow> session" where
  "sent wr request s t =
     s\<lparr>id' := id' s + 1, transport' := Some (transmitMessage wr (with_id request (id' s + 1)) t)\<rparr>"

lemma sent_simps [simp]:
  "id' (sent wr r s t) = id' s + 1" "response_queue (sent wr r s t) = response_queue s"
  "transport' (sent wr r s t) = Some (transmitMessage wr (with_id r (id' s + 1)) t)"
  by (simp_all add: sent_def)

lemma send_request_eq:
  assumes "IsObject request" and "transport' s = Some t" and "id' s \<noteq> 2 ^ 31 - 1"
  shows "send_request wr request s = Inr (sent wr request s t)"
  using assms by (auto simp: send_request_def sent_def with_id_def IsObject_iff)

lemma send_request_Inr:
  assumes "send_request wr request s = Inr s'"
  obtains t where "IsObject request" "transport' s = Some t" "id' s \<noteq> 2 ^ 31 - 1" "s' = sent wr request s t"
proof -
  from assms have "id' s \<noteq> 2 ^ 31 - 1" by (auto simp: send_request_def)
  moreover from assms this obtain t where "IsObject request" "transport' s = Some t"
    by (auto simp: send_request_def bindR_Inr_iff AddMember_Inr_iff IsObject_iff split: option.splits)
  ultimately show thesis using that send_request_eq assms by auto
qed

lemma session_ok_sent:
  assumes "session_ok s" and "transport' s = Some t" and "id' s \<noteq> 2 ^ 31 - 1"
  shows "session_ok (sent wr request s t)"
proof -
  have "received_message_callback (transmitMessage wr (with_id request (id' s + 1)) t) \<and>
      primary_open (transmitMessage wr (with_id request (id' s + 1)) t)"
    using assms transmitMessage_owner [of t wr] by (auto simp: session_ok_def same_callbacks_def)
  with assms show ?thesis by (fastforce simp: session_ok_def sent_def scan_bounded_def)
qed

lemma old_response:
  assumes "session_ok s" and "id' s \<noteq> 2 ^ 31 - 1" and "response_queue s = [d]"
  shows "\<not> eq_int (the_member d ''id'') (id' s + 1)"
proof
  assume new: "eq_int (the_member d ''id'') (id' s + 1)"
  from assms obtain i where i: "- 1 \<le> i" "i \<le> id' s" "eq_int (the_member d ''id'') i"
    by (auto simp: session_ok_def answers_def)
  from eq_int_unique [OF this(3) new] i(1,2) assms(1,2) show False by (simp add: session_ok_def)
qed

lemma response_ready_int:
  assumes "response_ready s = Inr (s', True)" and "response_queue s = [d]" and "- 1 \<le> id' s" "id' s < 2 ^ 31"
  shows "has d ''id'' \<and> the_member d ''id'' = JInt (id' s)"
proof -
  from assms(1,2) obtain a where m: "member d ''id'' = Inr (JInt a)" "- (2 ^ 31) \<le> a" "a < 2 ^ 31" and "eq_int (JInt a) (id' s)"
    by (auto simp: response_ready_def remove_if_in_place_single bindR_Inr_iff is_stale_def GetInt_Inr_iff Let_def)
  then have "a = id' s" using assms(3,4) eq_int_JInt by simp
  with m(1) show ?thesis by (auto simp: member_Inr_iff has_def the_member_def)
qed

text \<open>
  What a command with a response returns, from the messages \<open>ds\<close> that came while it waited: the code,
  the response and the queue that is left.
\<close>

definition command_result :: "int \<Rightarrow> json list \<Rightarrow> json list \<Rightarrow> error_t \<Rightarrow> json option \<Rightarrow> json list \<Rightarrow> bool" where
  "command_result i old ds e r q \<longleftrightarrow>
     (let replies = filter (answers i) ds; d = last replies in
      if replies = [] then e = timed_out \<and> r = None \<and> q = old
      else the_member d ''id'' = JInt i \<and>
        (if has d ''result'' then e = no_error \<and> r = Some d \<and> q = []
         else error_of_response d = Inr e \<and> r = None \<and> q = [d]))"

lemma executeCommand_run:
  assumes ok: "session_ok s" and run: "executeCommand_response wr rd evss request s = Inr (s', e, r)"
  obtains t n t' cbs where "IsObject request" "transport' s = Some t" "n \<le> length evss"
    "io_run wr rd (concat (take n evss)) (transmitMessage wr (with_id request (id' s + 1)) t) = Inr (t', cbs)"
    "s' = (after_io t' cbs (sent wr request s t))\<lparr>response_queue := response_queue s'\<rparr>"
    "command_result (id' s + 1) (response_queue s) (messages cbs) e r (response_queue s')"
    "filter (answers (id' s + 1)) (messages cbs) = [] \<Longrightarrow> n = length evss"
    "session_ok (after_io t' cbs (sent wr request s t))" "list_all (from_reader rd) cbs"
proof -
  from run obtain s1 s2 b where send: "send_request wr request s = Inr s1"
    and wait: "wait_for response_ready (session_io wr rd) evss s1 = Inr (s2, b)"
    and rest: "(if b then
         let message = hd (response_queue s2) in
         bindR (HasMember message ''result'') (\<lambda>ok.
           if ok then Inr (s2\<lparr>response_queue := tl (response_queue s2)\<rparr>, no_error, Some message)
           else bindR (error_of_response message) (\<lambda>e. Inr (s2, e, None)))
       else Inr (s2, timed_out, None)) = Inr (s', e, r)"
    by (auto simp: executeCommand_response_def executeCommand_among_def bindR_Inr_iff)
  from send obtain t where req: "IsObject request" and t: "transport' s = Some t" and max: "id' s \<noteq> 2 ^ 31 - 1"
    and s1: "s1 = sent wr request s t" by (rule send_request_Inr)
  have ok1: "session_ok s1" unfolding s1 using ok t max by (rule session_ok_sent)
  from command_wait.wait_for_run [OF ok1 wait] obtain n where
    n: "n \<le> length evss" "session_io wr rd (concat (take n evss)) s1 = Inr s2" "b \<or> n = length evss"
    and ready: "response_ready s2 = Inr (s2, b)" "b = response_waiting s2"
    by (auto simp: run_others_session_io [OF ok1])
  have t1: "transport' s1 = Some (transmitMessage wr (with_id request (id' s + 1)) t)" by (simp add: s1)
  from session_io_after [OF ok1 t1, of wr rd "concat (take n evss)"] obtain t' cbs where
    io: "io_run wr rd (concat (take n evss)) (transmitMessage wr (with_id request (id' s + 1)) t) = Inr (t', cbs)"
    and s2': "session_io wr rd (concat (take n evss)) s1 = Inr (after_io t' cbs s1)"
    and ok2': "session_ok (after_io t' cbs s1)" and wt: "list_all (from_reader rd) cbs"
    by blast
  from s2' n(2) have s2: "s2 = after_io t' cbs s1" by simp
  with ok2' have ok2: "session_ok s2" by simp
  let ?i = "id' s + 1"
  have q: "response_queue s2 = latest ?i (response_queue s) (messages cbs)" and i2: "id' s2 = ?i"
    by (simp_all add: s2 s1 after_io_def)
  have noreply: "\<not> b" if "filter (answers ?i) (messages cbs) = []"
    using that q i2 ready(2) old_response [OF ok max] by (auto simp: response_waiting_def latest_def)
  have result: "command_result ?i (response_queue s) (messages cbs) e r (response_queue s') \<and>
      s' = s2\<lparr>response_queue := response_queue s'\<rparr> \<and> (filter (answers ?i) (messages cbs) = [] \<longrightarrow> n = length evss)"
  proof (cases "filter (answers ?i) (messages cbs) = []")
    case True
    with noreply rest n(3) q show ?thesis by (cases s2) (auto simp: command_result_def latest_def)
  next
    case False
    define d where "d = last (filter (answers ?i) (messages cbs))"
    have d: "answers ?i d" "IsObject d"
      using last_in_set [OF False] messages_from_reader [OF wt] by (auto simp: d_def)
    have q': "response_queue s2 = [d]" using q False by (simp add: latest_def d_def)
    with d i2 ready(2) have b by (simp add: response_waiting_def answers_def)
    with response_ready_int [OF _ q'] ready(1) ok2 i2 have "the_member d ''id'' = JInt ?i"
      by (auto simp: session_ok_def)
    with rest \<open>b\<close> q' d False show ?thesis
      by (cases s2) (auto simp: command_result_def HasMember_has d_def bindR_Inr_iff Let_def split: list.split if_splits)
  qed
  show thesis
    by (rule that [OF req t n(1) io _ _ _ _ wt]) (use result ok2 s2 s1 in auto)
qed

section \<open>The life of a session\<close>

inductive session_step :: "json_writer \<Rightarrow> json_reader \<Rightarrow> session \<Rightarrow> session \<Rightarrow> bool" for wr rd where
  step_open: "open_session l outcome s = Inr (s', e) \<Longrightarrow> session_step wr rd s s'"
| step_close: "close_session shutdown_result s = Inr s' \<Longrightarrow> session_step wr rd s s'"
| step_timeout: "session_step wr rd s (setTimeout ms s)"
| step_request: "executeCommand wr request s = Inr s' \<Longrightarrow> session_step wr rd s s'"
| step_command: "executeCommand_response wr rd evss request s = Inr (s', e, r) \<Longrightarrow> session_step wr rd s s'"
| step_enable_oob: "enableOobTransport l bind_result s = Inr (s', e) \<Longrightarrow> session_step wr rd s s'"
| step_poll: "pollForScanBlock wr rd evss s = Inr (s', e, block) \<Longrightarrow> session_step wr rd s s'"
| step_io: "session_io wr rd evs s = Inr s' \<Longrightarrow> session_step wr rd s s'"

inductive session_path :: "json_writer \<Rightarrow> json_reader \<Rightarrow> session \<Rightarrow> session \<Rightarrow> bool" for wr rd s0 where
  path_start: "session_path wr rd s0 s0"
| path_step: "session_path wr rd s0 s \<Longrightarrow> session_step wr rd s s' \<Longrightarrow> session_path wr rd s0 s'"

abbreviation session_reach :: "json_writer \<Rightarrow> json_reader \<Rightarrow> session \<Rightarrow> bool" where
  "session_reach wr rd \<equiv> session_path wr rd Session"

lemma session_ok_Session: "session_ok Session"
  by (simp add: session_ok_def Session_def scan_bounded_def)

lemma connect_owner:
  "same_callbacks (t\<lparr>primary_open := primary_open (fst (connect outcome t))\<rparr>) (fst (connect outcome t))"
  "snd (connect outcome t) = no_error \<Longrightarrow> primary_open (fst (connect outcome t))"
  by (auto simp: connect_def same_callbacks_def Let_def split: option.splits if_splits)

lemma open_session_ok:
  assumes "session_ok s" and "open_session l outcome s = Inr (s', e)"
  shows "session_ok s' \<and> id' s' = id' s"
proof -
  from assms(2) obtain t where t: "Transport_create l = Some t"
    by (auto simp: open_session_def split: if_splits option.splits)
  let ?t = "setReceivedOobPacketCallback (setReceivedMessageCallback t)"
  from assms(2) t have "s' = s\<lparr>transport' := (if snd (connect outcome ?t) \<noteq> no_error then None else Some (fst (connect outcome ?t)))\<rparr>"
    by (auto simp: open_session_def Let_def split: if_splits option.splits)
  with assms(1) connect_owner [of outcome ?t] show ?thesis
    by (auto simp: session_ok_def scan_bounded_def same_callbacks_def setReceivedOobPacketCallback_def setReceivedMessageCallback_def)
qed

lemma enableOobTransport_ok:
  assumes "session_ok s" and "enableOobTransport l bind_result s = Inr (s', e)"
  shows "session_ok s' \<and> id' s' = id' s"
proof -
  from assms(2) obtain t t' where "transport' s = Some t" "enableOob l bind_result t = Inr (t', e)" "s' = s\<lparr>transport' := Some t'\<rparr>"
    by (auto simp: enableOobTransport_def bindR_Inr_iff split: option.splits)
  moreover from this have "received_message_callback t' = received_message_callback t" "primary_open t' = primary_open t"
    by (auto simp: enableOob_def split: if_splits location.splits option.splits)
  ultimately show ?thesis using assms(1) by (simp add: session_ok_def scan_bounded_def)
qed

lemma front_block_ok: "session_ok s \<Longrightarrow> session_ok (fst (front_block s)) \<and> id' (fst (front_block s)) = id' s"
  by (auto simp: front_block_def session_ok_def scan_bounded_def split: list.splits)

lemma session_io_id:
  assumes "session_ok s" and "session_io wr rd evs s = Inr s'"
  shows "id' s' = id' s"
proof (cases "transport' s")
  case None
  with assms(2) show ?thesis by (simp add: session_io_def)
next
  case (Some t)
  from session_io_after [OF assms(1) Some, of wr rd evs] obtain t' cbs where
    "session_io wr rd evs s = Inr (after_io t' cbs s)" by blast
  with assms(2) have "s' = after_io t' cbs s" by simp
  then show ?thesis by simp
qed

lemma pollForScanBlock_run:
  assumes ok: "session_ok s" and run: "pollForScanBlock wr rd evss s = Inr (s', e, block)"
  obtains n u where "n \<le> length evss" "session_io wr rd (concat (take n evss)) s = Inr u" "session_ok u" "id' u = id' s"
    "block_waiting u \<or> n = length evss"
    "(s', e, block) = (if block_waiting u then (fst (front_block u), no_error, snd (front_block u)) else (u, timed_out, No_data))"
proof -
  from run [unfolded pollForScanBlock_def bindR_Inr_iff] obtain x where
    x: "wait_for block_ready (session_io wr rd) evss s = Inr x"
      "(case x of (s, wait_result) \<Rightarrow> if wait_result then (case front_block s of (s, block) \<Rightarrow> Inr (s, no_error, block))
         else Inr (s, timed_out, No_data)) = (Inr (s', e, block) :: (session \<times> error_t \<times> scan_data) res)"
    by blast
  obtain u b where ub: "x = (u, b)" by (cases x)
  have wait: "wait_for block_ready (session_io wr rd) evss s = Inr (u, b)" using x(1) ub by simp
  from block_wait.wait_for_run [OF ok wait] obtain n where
    "n \<le> length evss" "session_io wr rd (concat (take n evss)) s = Inr u" "b \<or> n = length evss" "session_ok u" "b = block_waiting u"
    by (auto simp: run_others_session_io [OF ok])
  note n = this
  have "(s', e, block) = (if b then (fst (front_block u), no_error, snd (front_block u)) else (u, timed_out, No_data))"
    using x(2) ub by (cases "front_block u") (simp split: if_splits)
  with n session_io_id [OF ok n(2)] show thesis by (intro that [of n u]) simp_all
qed

lemma executeCommand_ok:
  assumes ok: "session_ok s" and run: "executeCommand_response wr rd evss request s = Inr (s', e, r)"
  shows "session_ok s' \<and> id' s' = id' s + 1"
proof -
  from run obtain s1 s2 b where send: "send_request wr request s = Inr s1"
    and wait: "wait_for response_ready (session_io wr rd) evss s1 = Inr (s2, b)"
    and s': "s' = s2 \<or> s' = s2\<lparr>response_queue := tl (response_queue s2)\<rparr>"
    by (auto simp: executeCommand_response_def executeCommand_among_def bindR_Inr_iff Let_def split: if_splits)
  from send ok have "session_ok s1" "id' s1 = id' s + 1" by (auto elim!: send_request_Inr intro: session_ok_sent)
  moreover from this command_wait.wait_for_run [OF _ wait] have "session_ok s2" "id' s2 = id' s1"
    by (auto simp: run_others_session_io session_io_id)
  moreover have "response_queue s2 = [] \<or> tl (response_queue s2) = []" if "session_ok s2"
    using that by (auto simp: session_ok_def)
  ultimately show ?thesis using s' by (auto simp: session_ok_def scan_bounded_def)
qed

lemma session_step_ok: "session_step wr rd s s' \<Longrightarrow> session_ok s \<Longrightarrow> session_ok s' \<and> id' s \<le> id' s'"
proof (induction rule: session_step.induct)
  case (step_open l outcome s s' e)
  then show ?case using open_session_ok [of s] by simp
next
  case (step_close shutdown_result s s')
  then show ?case by (auto simp: close_session_def session_ok_def scan_bounded_def bindR_Inr_iff)
next
  case (step_timeout s ms)
  then show ?case by (simp add: setTimeout_def session_ok_def scan_bounded_def)
next
  case (step_request request s s')
  then show ?case by (auto simp: executeCommand_def elim!: send_request_Inr intro: session_ok_sent)
next
  case (step_command evss request s s' e r)
  then show ?case using executeCommand_ok [of s] by fastforce
next
  case (step_enable_oob l bind_result s s' e)
  then show ?case using enableOobTransport_ok [of s] by simp
next
  case (step_poll evss s s' e block)
  obtain u where "session_ok u" "id' u = id' s" and
    u: "(s', e, block) = (if block_waiting u then (fst (front_block u), no_error, snd (front_block u)) else (u, timed_out, No_data))"
    by (rule pollForScanBlock_run [OF step_poll(2,1)]) blast
  then show ?case using front_block_ok [of u] by (cases "block_waiting u") simp_all
next
  case (step_io evs s s')
  then show ?case using session_io_ok [of s] session_io_id [of s] by simp
qed

lemma session_path_ok: "session_path wr rd s0 s \<Longrightarrow> session_ok s0 \<Longrightarrow> session_ok s \<and> id' s0 \<le> id' s"
  by (induction rule: session_path.induct) (auto dest: session_step_ok)

lemma session_reach_ok: "session_reach wr rd s \<Longrightarrow> session_ok s"
  using session_path_ok session_ok_Session by blast

section \<open>Commands always return\<close>

text \<open>
  The only number a response may carry as its identifier for the code to survive the comparison in
  \<open>executeCommand\<close> is one that fits an \<open>int\<close>.
\<close>

definition int_ids :: "json_reader \<Rightarrow> bool" where
  "int_ids rd \<longleftrightarrow> (\<forall>buf d i. fst (rd buf) = Some d \<longrightarrow> eq_int (the_member d ''id'') i \<longrightarrow> IsInt (the_member d ''id''))"

definition kept_int :: "session \<Rightarrow> bool" where
  "kept_int s \<longleftrightarrow> (\<forall>d \<in> set (response_queue s). has d ''id'' \<and> IsInt (the_member d ''id''))"

lemma is_stale_total: "has d ''id'' \<Longrightarrow> IsInt (the_member d ''id'') \<Longrightarrow> \<exists>b. is_stale i d = Inr b"
  by (auto simp: is_stale_def member_the GetInt_def IsInt_def split: json.splits)

lemma response_ready_total:
  assumes "session_ok s" and "kept_int s"
  shows "\<exists>r. response_ready s = Inr r"
proof (cases "response_queue s")
  case Nil
  then show ?thesis by (intro exI) (simp add: response_ready_def remove_if_in_place_def)
next
  case (Cons d q)
  with assms(1) have "response_queue s = [d]" by (auto simp: session_ok_def)
  moreover from this assms(2) have "has d ''id''" "\<exists>b. is_stale (id' s) d = Inr b"
    using is_stale_total by (auto simp: kept_int_def)
  ultimately show ?thesis
    by (auto simp: response_ready_def remove_if_in_place_single member_the Let_def)
qed

lemma kept_int_io:
  assumes "int_ids rd" and "session_ok s" and "kept_int s" and "session_io wr rd evs s = Inr s'"
  shows "kept_int s'"
proof (cases "transport' s")
  case None
  with assms show ?thesis by (simp add: session_io_def)
next
  case (Some t)
  from session_io_after [OF assms(2) Some, of wr rd evs] obtain t' cbs where
    wt: "list_all (from_reader rd) cbs" and "session_io wr rd evs s = Inr (after_io t' cbs s)" by blast
  with assms(4) have "s' = after_io t' cbs s" by simp
  then have q: "response_queue s' = latest (id' s) (response_queue s) (messages cbs)" by (simp add: after_io_def)
  show ?thesis
  proof (cases "filter (answers (id' s)) (messages cbs) = []")
    case True
    with q assms(3) show ?thesis by (simp add: kept_int_def latest_def)
  next
    case False
    define d where "d = last (filter (answers (id' s)) (messages cbs))"
    have "d \<in> set (messages cbs)" "answers (id' s) d" using last_in_set [OF False] by (auto simp: d_def)
    with messages_from_reader [OF wt] assms(1) have "has d ''id'' \<and> IsInt (the_member d ''id'')"
      by (auto simp: int_ids_def answers_def)
    moreover have "response_queue s' = [d]" using q False by (simp add: latest_def d_def)
    ultimately show ?thesis by (simp add: kept_int_def)
  qed
qed

interpretation command_returns: total_wait response_ready "session_io wr rd"
    "\<lambda>s. int_ids rd \<and> session_ok s \<and> kept_int s" response_waiting
  for wr rd
  by unfold_locales
    (use response_ready_pure session_io_ok kept_int_io response_ready_total session_io_total in blast)+

lemma error_of_response_eq:
  assumes "has d ''error''"
  shows "error_of_response d = Inr
    (case the_member (the_member d ''error'') ''code'' of
       JInt c \<Rightarrow> if - (2 ^ 31) \<le> c \<and> c < 2 ^ 31 then error_of_code c else unknown
     | _ \<Rightarrow> unknown)"
proof (cases "IsObject (the_member d ''error'')")
  case True
  then show ?thesis
    using assms
    by (cases "has (the_member d ''error'') ''code''")
      (auto simp: error_of_response_def member_the HasMember_has not_has_member IsInt_def split: json.split)
next
  case False
  then have "the_member (the_member d ''error'') ''code'' = JNull"
    by (auto simp: the_member_def [of "the_member d ''error''"] IsObject_def split: json.splits)
  with False assms show ?thesis by (simp add: error_of_response_def member_the)
qed

lemma error_of_response_no_error: "error_of_response d = Inr e \<Longrightarrow> e \<noteq> no_error"
  by (cases "has d ''error''")
    (auto simp: error_of_response_eq error_of_code_def not_has_member error_of_response_def member_Inr_iff bindR_Inr_iff
      has_def split: json.splits if_splits)

lemma executeCommand_returns:
  assumes "int_ids rd" "session_ok s" "kept_int s" "IsObject request" "transport' s = Some t" "id' s \<noteq> 2 ^ 31 - 1"
  shows "\<exists>s' e r. executeCommand_response wr rd evss request s = Inr (s', e, r)"
proof -
  let ?s1 = "sent wr request s t"
  have ok1: "int_ids rd \<and> session_ok ?s1 \<and> kept_int ?s1"
    using assms session_ok_sent by (simp add: kept_int_def)
  from command_returns.wait_for_returns [OF ok1] obtain s2 b where
    wait: "wait_for response_ready (session_io wr rd) evss ?s1 = Inr (s2, b)" by blast
  with command_returns.wait_for_run [OF ok1 wait] have ok2: "session_ok s2" "b = response_waiting s2" by blast+
  have send: "send_request wr request s = Inr ?s1" by (rule send_request_eq [OF assms(4-6)])
  show ?thesis
  proof (cases b)
    case False
    with send wait show ?thesis by (simp add: executeCommand_response_def executeCommand_among_def)
  next
    case True
    with ok2 obtain d where d: "response_queue s2 = [d]" "IsObject d" "has d ''result'' \<or> has d ''error''"
      by (auto simp: response_waiting_def session_ok_def answers_def)
    with send wait True show ?thesis
      by (auto simp: executeCommand_response_def executeCommand_among_def HasMember_has error_of_response_eq)
  qed
qed

lemma executeCommand_kept:
  assumes "int_ids rd" "session_ok s" "kept_int s" and run: "executeCommand_response wr rd evss request s = Inr (s', e, r)"
  shows "kept_int s'"
proof -
  from run obtain s1 s2 b where send: "send_request wr request s = Inr s1"
    and wait: "wait_for response_ready (session_io wr rd) evss s1 = Inr (s2, b)"
    and s': "s' = s2 \<or> s' = s2\<lparr>response_queue := tl (response_queue s2)\<rparr>"
    by (auto simp: executeCommand_response_def executeCommand_among_def bindR_Inr_iff Let_def split: if_splits)
  from send assms(1-3) have "int_ids rd \<and> session_ok s1 \<and> kept_int s1"
    by (auto elim!: send_request_Inr intro: session_ok_sent simp: kept_int_def)
  from command_returns.wait_for_run [OF this wait] have "kept_int s2" by blast
  with s' show ?thesis by (cases "response_queue s2") (auto simp: kept_int_def)
qed

lemma front_block_queue [simp]: "response_queue (fst (front_block s)) = response_queue s"
  by (simp add: front_block_def split: list.split)

lemma session_step_kept:
  "session_step wr rd s s' \<Longrightarrow> int_ids rd \<Longrightarrow> session_ok s \<Longrightarrow> kept_int s \<Longrightarrow> kept_int s'"
proof (induction rule: session_step.induct)
  case (step_open l outcome s s' e)
  then have "response_queue s' = response_queue s"
    by (auto simp: open_session_def Let_def split: if_splits option.splits)
  with step_open show ?case by (simp add: kept_int_def)
next
  case (step_request request s s')
  then show ?case by (auto simp: executeCommand_def kept_int_def elim!: send_request_Inr)
next
  case (step_enable_oob l bind_result s s' e)
  then have "response_queue s' = response_queue s"
    by (auto simp: enableOobTransport_def bindR_Inr_iff split: option.splits)
  with step_enable_oob show ?case by (simp add: kept_int_def)
next
  case (step_poll evss s s' e block)
  obtain n u where "session_io wr rd (concat (take n evss)) s = Inr u" and
    u: "(s', e, block) = (if block_waiting u then (fst (front_block u), no_error, snd (front_block u)) else (u, timed_out, No_data))"
    by (rule pollForScanBlock_run [OF step_poll(3,1)]) blast
  with step_poll have "kept_int u" using kept_int_io by blast
  with u show ?case by (cases "block_waiting u") (simp_all add: kept_int_def)
qed (auto simp: close_session_def setTimeout_def kept_int_def bindR_Inr_iff dest: executeCommand_kept kept_int_io)

lemma session_reach_kept: "session_reach wr rd s \<Longrightarrow> int_ids rd \<Longrightarrow> kept_int s"
proof (induction rule: session_path.induct)
  case path_start
  then show ?case by (simp add: kept_int_def Session_def)
next
  case (path_step s s')
  then show ?case using session_step_kept session_reach_ok by blast
qed

section \<open>Faults of a command\<close>

lemma response_ready_fault:
  assumes "session_ok s" and "response_ready s = Inl f"
  shows "f = Assertion"
proof (cases "response_queue s")
  case Nil
  with assms(2) show ?thesis by (simp add: response_ready_def remove_if_in_place_def)
next
  case (Cons d q)
  with assms(1) have "response_queue s = [d]" "has d ''id''" by (auto simp: session_ok_def answers_def)
  with assms(2) show ?thesis
    by (auto simp: response_ready_def remove_if_in_place_single member_the is_stale_def bindR_Inl_iff GetInt_def Let_def
        split: json.splits if_splits)
qed

interpretation command_faults: faulty_wait response_ready "session_io wr rd" session_ok response_waiting "\<lambda>f. f = Assertion"
  for wr rd
proof
  fix s f assume "session_ok s" "response_ready s = Inl f"
  then show "f = Assertion" by (rule response_ready_fault)
next
  fix s e f assume "session_ok s" "session_io wr rd e s = Inl f"
  with session_io_total [of s wr rd e] show "f = Assertion" by simp
qed

lemma executeCommand_fault:
  assumes ok: "session_ok s" and "isOpened s" "id' s \<noteq> 2 ^ 31 - 1" "IsObject request"
    and run: "executeCommand_response wr rd evss request s = Inl f"
  shows "f = Assertion"
proof -
  obtain t where t: "transport' s = Some t" using assms(2) by (auto simp: isOpened_def split: option.splits)
  have send: "send_request wr request s = Inr (sent wr request s t)" using assms(4) t assms(3) by (rule send_request_eq)
  have ok1: "session_ok (sent wr request s t)" using ok t assms(3) by (rule session_ok_sent)
  show ?thesis
  proof (cases "wait_for response_ready (session_io wr rd) evss (sent wr request s t)")
    case (Inl g)
    with command_faults.wait_for_fault [OF ok1 Inl] run send show ?thesis
      by (simp add: executeCommand_response_def executeCommand_among_def)
  next
    case (Inr x)
    obtain s2 b where x: "x = (s2, b)" by (cases x)
    with command_wait.wait_for_run [OF ok1] Inr have "session_ok s2" "b = response_waiting s2" by blast+
    with Inr x run send show ?thesis
      by (auto simp: executeCommand_response_def executeCommand_among_def response_waiting_def session_ok_def answers_def
          HasMember_has error_of_response_eq split: if_splits)
  qed
qed

section \<open>A session for the witnesses\<close>

text \<open>The peer of the example sends one line with a bare object, which the reader takes for the document.\<close>

definition reply_example :: "int \<Rightarrow> json" where
  "reply_example i = JObject [(''jsonrpc'', JString ''2.0''), (''id'', JInt i), (''result'', JNull)]"

definition scan_example :: json where
  "scan_example = JObject [(''jsonrpc'', JString ''2.0''), (''method'', JString ''notification/laserScan''), (''params'', JNull)]"

definition rd_doc :: "json \<Rightarrow> json_reader" where
  "rd_doc d buf = (if take 2 buf = ''{}'' then (Some d, 2) else (None, 0))"

definition line_example :: io_event where
  "line_example = Tcp_bytes (''{}'' @ CRLF)"

definition opened_example :: session where [opens]:
  "opened_example = (case open_session (NetworkLocation 1 2) (Some None) Session of Inr (s, e) \<Rightarrow> s)"

definition opened_transport :: transport where
  "opened_transport = the (transport' opened_example)"

lemma opened_example:
  "open_session (NetworkLocation 1 2) (Some None) Session = Inr (opened_example, no_error)"
  "transport' opened_example = Some opened_transport" "id' opened_example = - 1"
  "received_message_callback opened_transport" "reading opened_transport" "\<not> io_stopped opened_transport"
  "incoming_message_buffer opened_transport = []" "outgoing_message_queue opened_transport = []"
  by (simp_all add: opens opened_transport_def)

lemma opened_idle:
  "outgoing_message_queue opened_transport = []" "outgoing_message_buffers opened_transport = ([], [], [])"
  "\<not> io_stopped opened_transport" "reading opened_transport" "response_queue opened_example = []" "wire opened_transport = []"
  "scan_block_queue_primary opened_example = []" "scan_block_queue_oob opened_example = []"
  "received_oob_packet_callback opened_transport"
  by (simp_all add: opens opened_transport_def)

lemma opened_reach: "session_reach wr rd opened_example"
  by (rule path_step [OF path_start step_open [OF opened_example(1)]])

lemma line_example_run:
  assumes "received_message_callback t" "reading t" "\<not> io_stopped t" "incoming_message_buffer t = []" "IsObject d"
  shows "io_run wr (rd_doc d) [line_example] t = Inr (t, [Message d])"
proof -
  have "parseIncomingMessage (rd_doc d) (''{}'' @ CRLF) 4 = ([], d)"
    using assms(5) by (simp add: parseIncomingMessage_def parse_stream_def rd_doc_def CRLF_def istream_of_def)
  moreover have "\<not> IsNull d" using assms(5) by (auto simp: IsNull_def IsObject_def split: json.splits)
  ultimately show ?thesis
    using assms by (cases t) (simp add: line_example_def drain.simps [of "rd_doc d"] incomingMessageHandler_def CRLF_def Let_def
        numeral_eq_Suc)
qed

text \<open>A reply to the next request makes the command succeed.\<close>

lemma answers_reply [simp]: "answers i (reply_example j) \<longleftrightarrow> eq_int (JInt j) i"
  by (simp add: answers_def reply_example_def the_member_def has_def)

lemma reply_example_simps [simp]:
  "IsObject (reply_example i)" "has (reply_example i) ''id''" "the_member (reply_example i) ''id'' = JInt i"
  "has (reply_example i) ''result''" "member (reply_example i) ''id'' = Inr (JInt i)"
  "the_member (reply_example i) ''result'' = JNull"
  by (simp_all add: reply_example_def IsObject_def has_def the_member_def)

lemma transmitMessage_idle [simp]:
  "incoming_message_buffer (transmitMessage wr m t) = incoming_message_buffer t"
  "reading (transmitMessage wr m t) = reading t" "io_stopped (transmitMessage wr m t) = io_stopped t"
  by (simp_all add: transmitMessage_def start_write_def Let_def)

lemma command_reply_doc:
  assumes "IsObject request" and "transport' s = Some t" and "response_queue s = []" and "- 1 \<le> id' s" "id' s < 2 ^ 31 - 1"
    and "received_message_callback t" "reading t" "\<not> io_stopped t" "incoming_message_buffer t = []"
    and r: "IsObject r" "answers (id' s + 1) r" "the_member r ''id'' = JInt (id' s + 1)" "has r ''result''"
  shows "executeCommand_response wr (rd_doc r) [[line_example]] request s = Inr (sent wr request s t, no_error, Some r)"
proof -
  let ?s1 = "sent wr request s t"
  let ?t1 = "transmitMessage wr (with_id request (id' s + 1)) t"
  have send: "send_request wr request s = Inr ?s1" using assms(1,2,5) by (intro send_request_eq) simp_all
  have q: "?s1\<lparr>response_queue := []\<rparr> = ?s1" using assms(3) by (cases s) (simp add: sent_def)
  then have r1: "response_ready ?s1 = Inr (?s1, False)"
    using assms(3) by (simp add: response_ready_def remove_if_in_place_def)
  have "received_message_callback ?t1" using assms(6) transmitMessage_owner [of t wr] by (simp add: same_callbacks_def)
  then have "io_run wr (rd_doc r) [line_example] ?t1 = Inr (?t1, [Message r])"
    using assms(7-9) r(1) by (intro line_example_run) simp_all
  moreover have "?s1\<lparr>transport' := Some ?t1\<rparr> = ?s1" by (simp add: sent_def)
  ultimately have io: "session_io wr (rd_doc r) [line_example] ?s1 = Inr (?s1\<lparr>response_queue := [r]\<rparr>)"
    using r(1,2) by (simp add: session_io_def onMessageReceived_eq)
  have "member r ''id'' = Inr (JInt (id' s + 1))" using r(2,3) by (simp add: answers_def member_the)
  then have r2: "response_ready (?s1\<lparr>response_queue := [r]\<rparr>) = Inr (?s1\<lparr>response_queue := [r]\<rparr>, True)"
    using assms(4,5) by (simp add: response_ready_def remove_if_in_place_single is_stale_def eq_int_def)
  show ?thesis
    using q r(1,4) by (simp add: executeCommand_response_def executeCommand_among_def send r1 io r2 HasMember_has)
qed

lemma command_reply:
  assumes "IsObject request" and "transport' s = Some t" and "response_queue s = []" and "- 1 \<le> id' s" "id' s < 2 ^ 31 - 1"
    and "received_message_callback t" "reading t" "\<not> io_stopped t" "incoming_message_buffer t = []"
  shows "executeCommand_response wr (rd_doc (reply_example (id' s + 1))) [[line_example]] request s =
    Inr (sent wr request s t, no_error, Some (reply_example (id' s + 1)))"
  by (rule command_reply_doc [OF assms]) (simp_all add: answers_def eq_int_def, simp add: reply_example_def the_member_def)

lemma command_example:
  "executeCommand_response wr_example (rd_doc (reply_example 0)) [[line_example]] createEmptyRequestObject opened_example =
    Inr (sent wr_example createEmptyRequestObject opened_example opened_transport, no_error, Some (reply_example 0))"
  using command_reply [of createEmptyRequestObject opened_example opened_transport wr_example] opened_example
  by (simp add: createEmptyRequestObject_def IsObject_def opened_idle)

section \<open>Properties\<close>

text \<open>
  C1: \<open>executeCommand\<close> with a response, in any reachable session and whatever happens on the connection
  meanwhile: when no message that came during the wait answers the new request, the code is \<open>timed_out\<close>, and
  only after everything that could happen has happened; otherwise the last one that answers it decides,
  it carries exactly the identifier of the request, and the code is \<open>no_error\<close> with that message
  as response if it has a \<open>result\<close>, and the error its \<open>error\<close> object stands for, without a response, if not.
\<close>

theorem command_outcome:
  assumes "session_reach wr rd s" and "executeCommand_response wr rd evss request s = Inr (s', e, r)"
  shows "\<exists>t n t' cbs. transport' s = Some t \<and> n \<le> length evss \<and>
    io_run wr rd (concat (take n evss)) (transmitMessage wr (with_id request (id' s + 1)) t) = Inr (t', cbs) \<and>
    (let replies = filter (answers (id' s + 1)) (messages cbs); d = last replies in
     if replies = [] then n = length evss \<and> e = timed_out \<and> r = None
     else the_member d ''id'' = JInt (id' s + 1) \<and>
       (if has d ''result'' then e = no_error \<and> r = Some d else error_of_response d = Inr e \<and> r = None))"
proof -
  from assms(1) have ok: "session_ok s" by (rule session_reach_ok)
  obtain t n t' cbs where "transport' s = Some t" "n \<le> length evss"
    "io_run wr rd (concat (take n evss)) (transmitMessage wr (with_id request (id' s + 1)) t) = Inr (t', cbs)"
    and c: "command_result (id' s + 1) (response_queue s) (messages cbs) e r (response_queue s')"
    and n: "filter (answers (id' s + 1)) (messages cbs) = [] \<Longrightarrow> n = length evss"
    by (rule executeCommand_run [OF ok assms(2)]) (rule that; assumption)
  moreover from c n have "let replies = filter (answers (id' s + 1)) (messages cbs); d = last replies in
     if replies = [] then n = length evss \<and> e = timed_out \<and> r = None
     else the_member d ''id'' = JInt (id' s + 1) \<and>
       (if has d ''result'' then e = no_error \<and> r = Some d else error_of_response d = Inr e \<and> r = None)"
    by (auto simp: command_result_def Let_def split: if_splits)
  ultimately show ?thesis by blast
qed

theorem command_outcome_witness:
  "\<exists>n t' cbs. n \<le> 1 \<and> io_run wr_example (rd_doc (reply_example 0)) (concat (take n [[line_example]]))
      (transmitMessage wr_example (with_id createEmptyRequestObject 0) opened_transport) = Inr (t', cbs) \<and>
    filter (answers 0) (messages cbs) \<noteq> [] \<and> last (filter (answers 0) (messages cbs)) = reply_example 0"
  using command_outcome [OF opened_reach command_example] by (auto simp: opened_example Let_def split: if_splits)

text \<open>
  C10: A response is never taken for the answer to another request: a command that is executed after a request
  was sent, even after the session was closed and opened again in between, returns only a
  response with its own identifier, which is larger than the earlier one, and which no response to the earlier
  request can carry.
\<close>

theorem no_stale_response:
  assumes "session_reach wr rd s0" and "send_request wr earlier s0 = Inr s1" and "session_path wr rd s1 s2"
    and "executeCommand_response wr rd evss request s2 = Inr (s3, no_error, Some d)"
  shows "the_member d ''id'' = JInt (id' s3) \<and> id' s1 < id' s3 \<and> \<not> answers (id' s1) d"
proof -
  have ok1: "session_ok s1"
    using assms(2) session_reach_ok [OF assms(1)] by (auto elim!: send_request_Inr intro: session_ok_sent)
  with assms(3) have ok2: "session_ok s2" and "id' s1 \<le> id' s2" using session_path_ok by blast+
  with executeCommand_ok [OF ok2 assms(4)] have i: "id' s3 = id' s2 + 1" "id' s1 < id' s3" "session_ok s3" by simp_all
  obtain cbs where
    c: "command_result (id' s2 + 1) (response_queue s2) (messages cbs) no_error (Some d) (response_queue s3)"
    by (rule executeCommand_run [OF ok2 assms(4)]) (rule that; assumption)
  then have d: "the_member d ''id'' = JInt (id' s3)" using i(1) by (auto simp: command_result_def Let_def split: if_splits)
  have "\<not> answers (id' s1) d"
    using d i(2,3) ok1 eq_int_JInt [of "id' s3" "id' s1"] by (auto simp: answers_def session_ok_def)
  with d i(2) show ?thesis by simp
qed

theorem no_stale_response_witness:
  "the_member (reply_example 1) ''id'' = JInt 1 \<and> \<not> answers 0 (reply_example 1)"
proof -
  let ?s1 = "sent wr_example createEmptyRequestObject opened_example opened_transport"
  have o: "IsObject createEmptyRequestObject" by (simp add: createEmptyRequestObject_def IsObject_def)
  have send: "send_request wr_example createEmptyRequestObject opened_example = Inr ?s1"
    using opened_example by (intro send_request_eq o) simp_all
  have "received_message_callback (transmitMessage wr_example (with_id createEmptyRequestObject 0) opened_transport)"
    using opened_example(4) transmitMessage_owner [of opened_transport wr_example] by (simp add: same_callbacks_def)
  then have "executeCommand_response wr_example (rd_doc (reply_example 1)) [[line_example]] createEmptyRequestObject ?s1 =
      Inr (sent wr_example createEmptyRequestObject ?s1 (transmitMessage wr_example (with_id createEmptyRequestObject 0) opened_transport),
        no_error, Some (reply_example 1))"
    using command_reply [OF o, of ?s1 _ wr_example] opened_example by (simp add: opened_idle)
  from no_stale_response [OF opened_reach send path_start this] opened_example(3) show ?thesis by simp
qed



text \<open>
  C16: \<open>pollForScanBlock\<close> always returns.  The two queues hold the last 32 notifications and packets of those
  that were left and those that came meanwhile, in the order they came; the oldest notification is taken, or
  the oldest packet when there is no notification, and the code is \<open>timed_out\<close> only when nothing has come
  by the end of the wait.
\<close>

theorem poll_outcome:
  assumes "session_reach wr rd s" and "transport' s = Some t"
  shows "\<exists>n t' cbs s'. n \<le> length evss \<and> io_run wr rd (concat (take n evss)) t = Inr (t', cbs) \<and>
    (let ns = lastn 32 (scan_block_queue_primary s @ filter laser_scan (messages cbs));
         ps = lastn 32 (scan_block_queue_oob s @ packets cbs)
     in pollForScanBlock wr rd evss s = Inr (s',
          if ns \<noteq> [] \<or> ps \<noteq> [] then no_error else timed_out,
          if ns \<noteq> [] then Notification (hd ns) else if ps \<noteq> [] then Oob_block (hd ps) else No_data) \<and>
        scan_block_queue_primary s' = tl ns \<and>
        scan_block_queue_oob s' = (if ns = [] then tl ps else ps) \<and>
        (ns \<noteq> [] \<or> ps \<noteq> [] \<or> n = length evss))"
proof -
  have ok: "session_ok s" using assms(1) by (rule session_reach_ok)
  from block_wait.wait_for_returns [OF ok] obtain u b where
    "wait_for block_ready (session_io wr rd) evss s = Inr (u, b)" by blast
  then have "\<exists>s' e block. pollForScanBlock wr rd evss s = Inr (s', e, block)"
    by (cases b; cases "front_block u") (simp_all add: pollForScanBlock_def)
  then obtain s' e block where run: "pollForScanBlock wr rd evss s = Inr (s', e, block)" by blast
  obtain n u where n: "n \<le> length evss" "session_io wr rd (concat (take n evss)) s = Inr u" "block_waiting u \<or> n = length evss"
    and res: "(s', e, block) = (if block_waiting u then (fst (front_block u), no_error, snd (front_block u)) else (u, timed_out, No_data))"
    by (rule pollForScanBlock_run [OF ok run]) blast
  from session_io_after [OF ok assms(2), of wr rd "concat (take n evss)"] obtain t' cbs where
    io: "io_run wr rd (concat (take n evss)) t = Inr (t', cbs)" "session_io wr rd (concat (take n evss)) s = Inr (after_io t' cbs s)"
    by blast
  with n(2) have u: "u = after_io t' cbs s" by simp
  show ?thesis
    by (rule exI [of _ n], rule exI [of _ t'], rule exI [of _ cbs], rule exI [of _ s'], intro conjI, rule n(1), rule io(1),
        unfold run Let_def)
      (use res n(3) u in \<open>auto simp: block_waiting_def front_block_def after_io_def SCAN_BLOCK_BUFFERING_COUNT_def
        split: list.splits if_splits\<close>)
qed

theorem poll_outcome_witness:
  "\<exists>s'. pollForScanBlock wr_example (rd_doc scan_example) [[line_example]] opened_example = Inr (s', no_error, Notification scan_example)"
proof -
  have o: "IsObject scan_example" "laser_scan scan_example"
    by (simp_all add: scan_example_def IsObject_def laser_scan_def has_def the_member_def)
  have run: "io_run wr_example (rd_doc scan_example) [line_example] opened_transport = Inr (opened_transport, [Message scan_example])"
    using opened_example o by (intro line_example_run) simp_all
  obtain n t' cbs s' where n: "n \<le> 1" "io_run wr_example (rd_doc scan_example) (concat (take n [[line_example]])) opened_transport = Inr (t', cbs)"
    and r: "let ns = lastn 32 (filter laser_scan (messages cbs)); ps = lastn 32 (packets cbs)
     in pollForScanBlock wr_example (rd_doc scan_example) [[line_example]] opened_example = Inr (s',
          if ns \<noteq> [] \<or> ps \<noteq> [] then no_error else timed_out,
          if ns \<noteq> [] then Notification (hd ns) else if ps \<noteq> [] then Oob_block (hd ps) else No_data) \<and>
        (ns \<noteq> [] \<or> ps \<noteq> [] \<or> n = 1)"
    using poll_outcome [OF opened_reach opened_example(2), where wr = wr_example and rd = "rd_doc scan_example" and evss = "[[line_example]]"] opened_idle(7,8)
    by (auto simp: Let_def)
  have "n = 0 \<or> n = 1" using n(1) by arith
  then have "cbs = [Message scan_example]" using n(2) r run by (auto simp: Let_def)
  with r o show ?thesis by (simp add: Let_def)
qed

text \<open>
  C31: Opening a session.  An open session cannot be opened again: the transport that is replaced still has
  its thread, and destroying it ends the process.  Otherwise the outcome of the connection is mapped to the code,
  and the session is open exactly when the code is \<open>no_error\<close>, with an empty transport for the
  given address in host order; a failed attempt leaves the session closed, so that it can be repeated.
\<close>

theorem open_outcome:
  assumes "session_reach wr rd s"
  shows "if isOpened s then open_session (NetworkLocation a p) outcome s = Inl Terminate
    else \<exists>s' e. open_session (NetworkLocation a p) outcome s = Inr (s', e) \<and>
      e = (case outcome of Some None \<Rightarrow> no_error | Some (Some err_connection_refused) \<Rightarrow> connection_refused
        | Some (Some operation_aborted) \<Rightarrow> timed_out | None \<Rightarrow> timed_out | _ \<Rightarrow> unknown) \<and>
      (isOpened s' \<longleftrightarrow> e = no_error) \<and>
      (case transport' s' of None \<Rightarrow> e \<noteq> no_error
       | Some t \<Rightarrow> device_address t = (ntohl a, ntohs p) \<and> reading t \<and> outgoing_message_queue t = [])"
proof -
  have ok: "session_ok s" using assms by (rule session_reach_ok)
  show ?thesis
  proof (cases "transport' s")
    case None
    then show ?thesis
      by (auto simp: isOpened_def isConnected_def opens split: option.splits asio_error.splits)
  next
    case (Some t)
    with ok show ?thesis by (simp add: session_ok_def isOpened_def isConnected_def open_session_def)
  qed
qed

theorem open_outcome_witness:
  "open_session (NetworkLocation 1 2) (Some None) opened_example = Inl Terminate"
  using open_outcome [OF opened_reach, of 1 2 "Some None"] opened_example session_reach_ok [OF opened_reach]
  by (simp add: isOpened_def isConnected_def session_ok_def)

text \<open>
  Closing a session (when the socket can be shut down) always works, leaves it closed with all queues empty and
  keeps the counter of the identifiers, so that opening it again cannot end the process and no identifier
  is used twice.
\<close>

lemma close_outcome:
  assumes "session_reach wr rd s"
  shows "\<exists>s'. close_session None s = Inr s' \<and> \<not> isOpened s' \<and> id' s' = id' s \<and> response_queue s' = [] \<and>
    scan_block_queue_primary s' = [] \<and> scan_block_queue_oob s' = [] \<and>
    open_session (NetworkLocation a p) outcome s' \<noteq> Inl Terminate"
  using assms
  by (cases "transport' s")
    (auto simp: close_session_def disconnect_def isOpened_def open_session_def Transport_create_def Let_def)

lemma close_outcome_example:
  "\<exists>s'. close_session None opened_example = Inr s' \<and> \<not> isOpened s' \<and> id' s' = - 1"
  using close_outcome [OF opened_reach] opened_example(3) by metis

text \<open>
  The code of an error response: the two LDCP codes and the parse and invalid-request codes of JSON-RPC are
  protocol errors, the other three JSON-RPC codes have codes of their own, anything else is \<open>unknown\<close>.
\<close>

lemma error_code_table:
  assumes "has d ''error''"
  shows "error_of_response d = Inr
    (case the_member (the_member d ''error'') ''code'' of
       JInt c \<Rightarrow>
         if c \<in> {- 1, - 2, - 32700, - 32600} then protocol_error
         else if c = - 32601 then not_supported
         else if c = - 32602 then invalid_params
         else if c = - 32603 then device_error else unknown
     | _ \<Rightarrow> unknown)"
  using assms by (auto simp: error_of_response_eq error_of_code_def split: json.split)

lemma error_code_table_example:
  "error_of_response (JObject [(''error'', JObject [(''code'', JInt (- 32601))])]) = Inr not_supported"
  using error_code_table [of "JObject [(''error'', JObject [(''code'', JInt (- 32601))])]"]
  by (simp add: has_def the_member_def)

text \<open>
  A response whose \<open>id\<close> is the number of the request written as a double (\<open>0.0\<close>) passes the comparison of
  \<open>onMessageReceived\<close>, and the next evaluation of the condition in \<open>executeCommand\<close> fails its assertion.
\<close>

lemma double_id_aborts:
  "bindR (onMessageReceived (JObject [(''jsonrpc'', JString ''2.0''), (''id'', JDouble 0), (''result'', JNull)])
     (Session\<lparr>id' := 0\<rparr>)) response_ready = Inl Assertion"
  by (simp add: onMessageReceived_eq IsObject_def answers_def the_member_def has_def eq_int_def response_ready_def
      is_stale_def GetInt_def Session_def)

text \<open>
  A command on a session that is not open (never opened, closed, or after a failed attempt) dereferences a null
  transport.
\<close>

lemma closed_command_null:
  assumes "session_reach wr rd s" and "\<not> isOpened s" and "IsObject request" and "id' s < 2 ^ 31 - 1"
  shows "executeCommand_response wr rd evss request s = Inl Null_deref \<and> executeCommand wr request s = Inl Null_deref"
proof -
  have "transport' s = None"
    using session_reach_ok [OF assms(1)] assms(2) by (auto simp: session_ok_def isOpened_def isConnected_def split: option.splits)
  then have "send_request wr request s = Inl Null_deref"
    using assms(3,4) by (auto simp: send_request_def IsObject_iff)
  then show ?thesis by (simp add: executeCommand_response_def executeCommand_among_def executeCommand_def)
qed

lemma closed_command_null_example:
  "executeCommand_response wr_example rd_example [] createEmptyRequestObject Session = Inl Null_deref"
  using closed_command_null [OF path_start, of createEmptyRequestObject wr_example rd_example "[]"]
  by (simp add: isOpened_def Session_def createEmptyRequestObject_def IsObject_def)

end
