(* ===== verification/Device_Base.thy ===== *)
theory Device_Base
  imports Session
begin

text \<open>
  \<open>DeviceBase\<close> of src/device_base.cpp, and the scheme all commands of the SDK share: a request object,
  a call of \<open>Session::executeCommand\<close>, the value of \<open>result\<close>.  The call is an argument (\<open>exec\<close>) of
  the commands, as a different schedule of I/O events may accompany each of them; its contract is the
  locale \<open>command_channel\<close>.
\<close>

section \<open>State\<close>

record device =
  location' :: "location option"
  session' :: "session option"

definition DeviceBase :: "location \<Rightarrow> device" where
  "DeviceBase l = \<lparr>location' = keep_network l, session' = Some Session\<rparr>"

text \<open>The constructor from a \<open>DeviceInfo\<close> takes the location out of it.\<close>

definition DeviceBase_info :: "device_info \<Rightarrow> device res" where
  "DeviceBase_info i = bindR (DeviceInfo_location i) (\<lambda>l. Inr (DeviceBase l))"

text \<open>The move constructor: the new object and what is left of the old one.\<close>

definition DeviceBase_move :: "device \<Rightarrow> device \<times> device" where
  "DeviceBase_move other = (\<lparr>location' = location' other, session' = session' other\<rparr>, other\<lparr>location' := None, session' := None\<rparr>)"

definition DeviceBase_destroy :: "asio_error option \<Rightarrow> device \<Rightarrow> unit res" where
  "DeviceBase_destroy shutdown_result d =
     (case session' d of
        None \<Rightarrow> Inr ()
      | Some s \<Rightarrow> if isOpened s then bindR (close_session shutdown_result s) (\<lambda>_. Inr ()) else Inr ())"

text \<open>Uses of \<open>session_\<close>; after a move the pointer is null.\<close>

definition on_session :: "(session \<Rightarrow> (session \<times> 'a) res) \<Rightarrow> device \<Rightarrow> (device \<times> 'a) res" where
  "on_session f d =
     (case session' d of
        None \<Rightarrow> Inl Null_deref
      | Some s \<Rightarrow> bindR (f s) (\<lambda>(s, x). Inr (d\<lparr>session' := Some s\<rparr>, x)))"

definition get_location :: "device \<Rightarrow> location res" where
  "get_location d = (case location' d of None \<Rightarrow> Inl Null_deref | Some l \<Rightarrow> Inr l)"

definition device_setTimeout :: "int \<Rightarrow> device \<Rightarrow> (device \<times> unit) res" where
  "device_setTimeout timeout d = on_session (\<lambda>s. Inr (setTimeout timeout s, ())) d"

definition base_open :: "asio_error option option \<Rightarrow> device \<Rightarrow> (device \<times> error_t) res" where
  "base_open outcome d =
     on_session (\<lambda>s. case location' d of None \<Rightarrow> Inl Null_deref | Some l \<Rightarrow> open_session l outcome s) d"

definition device_isOpened :: "device \<Rightarrow> bool res" where
  "device_isOpened d = (case session' d of None \<Rightarrow> Inl Null_deref | Some s \<Rightarrow> Inr (isOpened s))"

definition device_close :: "asio_error option \<Rightarrow> device \<Rightarrow> (device \<times> unit) res" where
  "device_close shutdown_result d = on_session (\<lambda>s. bindR (close_session shutdown_result s) (\<lambda>s. Inr (s, ()))) d"

section \<open>Requests\<close>

definition request_method :: "string \<Rightarrow> json res" where
  "request_method m = SetMember createEmptyRequestObject ''method'' (JString m)"

definition request_entry :: "string \<Rightarrow> string \<Rightarrow> json res" where
  "request_entry m entry =
     bindR (request_method m) (\<lambda>r. AddMember r ''params'' (JObject [(''entry'', JString entry)]))"

definition request_value :: "string \<Rightarrow> string \<Rightarrow> json \<Rightarrow> json res" where
  "request_value m entry v =
     bindR (request_method m) (\<lambda>r. AddMember r ''params'' (JObject [(''entry'', JString entry), (''value'', v)]))"

section \<open>Commands\<close>

type_synonym exec = "json \<Rightarrow> session \<Rightarrow> (session \<times> error_t \<times> json option) res"

text \<open>A response that is not assigned stays the null document it was declared as.\<close>

definition execute :: "exec \<Rightarrow> json res \<Rightarrow> device \<Rightarrow> (device \<times> error_t \<times> json) res" where
  "execute exec request d =
     (case session' d of
        None \<Rightarrow> Inl Null_deref
      | Some s \<Rightarrow> bindR request (\<lambda>r. bindR (exec r s) (\<lambda>(s, result, response).
          Inr (d\<lparr>session' := Some s\<rparr>, result, (case response of Some x \<Rightarrow> x | None \<Rightarrow> JNull)))))"

definition perform :: "exec \<Rightarrow> json res \<Rightarrow> device \<Rightarrow> (device \<times> error_t) res" where
  "perform exec request d = bindR (execute exec request d) (\<lambda>(d, result, response). Inr (d, result))"

text \<open>A command with a value: \<open>decode\<close> is what the code does with \<open>response["result"]\<close>.\<close>

definition query :: "exec \<Rightarrow> json res \<Rightarrow> (json \<Rightarrow> 'a res) \<Rightarrow> device \<Rightarrow> (device \<times> error_t \<times> 'a option) res" where
  "query exec request decode d =
     bindR (execute exec request d) (\<lambda>(d, result, response).
       if result = no_error then
         bindR (member response ''result'') (\<lambda>v. bindR (decode v) (\<lambda>x. Inr (d, result, Some x)))
       else Inr (d, result, None))"

text \<open>A command without a response.\<close>

definition post :: "json_writer \<Rightarrow> json res \<Rightarrow> device \<Rightarrow> (device \<times> unit) res" where
  "post wr request d = on_session (\<lambda>s. bindR request (\<lambda>r. bindR (executeCommand wr r s) (\<lambda>s. Inr (s, ())))) d"

text \<open>A \<open>std::string\<close> assigned from \<open>GetString()\<close> ends at the first NUL.\<close>

definition decode_string :: "json \<Rightarrow> string res" where
  "decode_string v = bindR (GetString v) (\<lambda>s. Inr (c_str s))"

definition queryOperationMode :: "exec \<Rightarrow> device \<Rightarrow> (device \<times> error_t \<times> string option) res" where
  "queryOperationMode exec d = query exec (request_entry ''device/queryInfo'' ''mode'') decode_string d"

definition reboot :: "json_writer \<Rightarrow> device \<Rightarrow> (device \<times> unit) res" where
  "reboot wr d = post wr (request_method ''device/reboot'') d"

section \<open>The contract of a command\<close>

locale command_channel =
  fixes exec :: exec and inv :: "session \<Rightarrow> bool"
  assumes exec_inv: "inv s \<Longrightarrow> exec r s = Inr (s', e, resp) \<Longrightarrow> inv s'"
    and exec_code: "inv s \<Longrightarrow> exec r s = Inr (s', e, resp) \<Longrightarrow> resp = None \<longleftrightarrow> e \<noteq> no_error"
    and exec_result: "inv s \<Longrightarrow> exec r s = Inr (s', e, Some d) \<Longrightarrow> has d ''result''"
begin

lemma execute_outcome:
  assumes "session' d = Some s" and "inv s" and "execute exec request d = Inr (d', e, response)"
  shows "\<exists>s'. d' = d\<lparr>session' := Some s'\<rparr> \<and> inv s' \<and> (e = no_error \<longrightarrow> has response ''result'') \<and>
    (e \<noteq> no_error \<longrightarrow> response = JNull)"
proof -
  from assms(1,3) obtain r s' resp where x: "exec r s = Inr (s', e, resp)" and "d' = d\<lparr>session' := Some s'\<rparr>"
    "response = (case resp of Some x \<Rightarrow> x | None \<Rightarrow> JNull)"
    by (auto simp: execute_def bindR_Inr_iff)
  with exec_inv [OF assms(2) x] exec_code [OF assms(2) x] show ?thesis
    by (cases resp) (auto dest: exec_result [OF assms(2)])
qed

text \<open>
  A query keeps the location and the invariant, and gives a value exactly with \<open>no_error\<close>: what the
  code makes of the \<open>result\<close> of the response, which it always finds.
\<close>

lemma query_outcome:
  assumes "session' d = Some s" and "inv s" and "query exec request decode d = Inr (d', e, v)"
  shows "\<exists>s'. d' = d\<lparr>session' := Some s'\<rparr> \<and> inv s' \<and>
    (if e = no_error then \<exists>response x. execute exec request d = Inr (d', e, response) \<and>
       decode (the_member response ''result'') = Inr x \<and> v = Some x else v = None)"
proof -
  from assms(3) obtain response where x: "execute exec request d = Inr (d', e, response)"
    and v: "if e = no_error then \<exists>x. bindR (member response ''result'') decode = Inr x \<and> v = Some x else v = None"
    by (auto simp: query_def bindR_Inr_iff split: if_splits)
  from execute_outcome [OF assms(1,2) x] v show ?thesis
    using x by (cases "e = no_error") (auto simp: member_the)
qed

text \<open>The only ways a query can fault.\<close>

lemma query_fault:
  assumes "session' d = Some s" and "inv s" and "query exec request decode d = Inl e"
  shows "execute exec request d = Inl e \<or>
    (\<exists>d' response. execute exec request d = Inr (d', no_error, response) \<and> decode (the_member response ''result'') = Inl e)"
proof -
  from assms(3) have "execute exec request d = Inl e \<or>
    (\<exists>d' response. execute exec request d = Inr (d', no_error, response) \<and> bindR (member response ''result'') decode = Inl e)"
    by (auto simp: query_def bindR_Inl_iff split: if_splits)
  then show ?thesis
  proof (elim disjE exE conjE)
    fix d' response
    assume x: "execute exec request d = Inr (d', no_error, response)" and "bindR (member response ''result'') decode = Inl e"
    moreover have "member response ''result'' = Inr (the_member response ''result'')"
      using execute_outcome [OF assms(1,2) x] by (auto intro: member_the)
    ultimately have "decode (the_member response ''result'') = Inl e" by simp
    with x show ?thesis by blast
  qed simp
qed

end

lemma executeCommand_channel:
  assumes "session_ok s" and "executeCommand_response wr rd evss r s = Inr (s', e, resp)"
  shows "session_ok s' \<and> (resp = None \<longleftrightarrow> e \<noteq> no_error) \<and> (\<forall>d. resp = Some d \<longrightarrow> has d ''result'')"
proof -
  obtain cbs where c: "command_result (id' s + 1) (response_queue s) (messages cbs) e resp (response_queue s')"
    by (rule executeCommand_run [OF assms]) (rule that; assumption)
  have "error_of_response d = Inr e \<Longrightarrow> e \<noteq> no_error" for d by (rule error_of_response_no_error)
  with c have "(resp = None \<longleftrightarrow> e \<noteq> no_error) \<and> (\<forall>d. resp = Some d \<longrightarrow> has d ''result'')"
    by (auto simp: command_result_def Let_def split: if_splits)
  with executeCommand_ok [OF assms] show ?thesis by blast
qed

interpretation session_channel: command_channel "executeCommand_response wr rd evss" session_ok for wr rd evss
  by unfold_locales (use executeCommand_channel in blast)+

end
