(* ===== verification/Base64.thy ===== *)
theory Base64
  imports Prelude
begin

text \<open>
  The Base64 routines of include/ldcp/utility.h: \<open>Utility::CalculateBase64EncodedLength\<close>,
  \<open>Base64Encode\<close>, \<open>CalculateBase64DecodedLength\<close> and \<open>Base64Decode\<close>.  Lengths are naturals or
  integers: the code's \<open>int\<close> arithmetic is exact for texts below 2^29 characters.  The decoder
  writes into a buffer of the caller, so its model takes the buffer and a write past its end is
  the fault \<open>Out_of_bounds\<close>.
\<close>

unbundle bit_operations_syntax

section \<open>The encoder\<close>

definition CalculateBase64EncodedLength :: "nat \<Rightarrow> nat" where
  "CalculateBase64EncodedLength src_len = (src_len + 2) div 3 * 4"

definition basis_64 :: string where
  "basis_64 = ''ABCDEFGHIJKLMNOPQRSTUVWXYZabcdefghijklmnopqrstuvwxyz0123456789+/''"

definition b64_digit :: "byte \<Rightarrow> char" where
  "b64_digit i = basis_64 ! unat i"

fun Base64Encode :: "byte list \<Rightarrow> string" where
  "Base64Encode (a # b # c # rest) =
     b64_digit (drop_bit 2 a AND 0x3F)
     # b64_digit (push_bit 4 (a AND 0x3) OR drop_bit 4 (b AND 0xF0))
     # b64_digit (push_bit 2 (b AND 0xF) OR drop_bit 6 (c AND 0xC0))
     # b64_digit (c AND 0x3F)
     # Base64Encode rest"
| "Base64Encode [a, b] =
     [b64_digit (drop_bit 2 a AND 0x3F),
      b64_digit (push_bit 4 (a AND 0x3) OR drop_bit 4 (b AND 0xF0)),
      b64_digit (push_bit 2 (b AND 0xF)),
      CHR ''='']"
| "Base64Encode [a] =
     [b64_digit (drop_bit 2 a AND 0x3F), b64_digit (push_bit 4 (a AND 0x3)), CHR ''='', CHR ''='']"
| "Base64Encode [] = []"

section \<open>The decoder\<close>

text \<open>
  The loop of \<open>CalculateBase64DecodedLength\<close> walks back from the last character; nothing stops it
  at the start of the text, so a text with no character other than the padding is read out of
  bounds.
\<close>

definition CalculateBase64DecodedLength :: "string \<Rightarrow> int res" where
  "CalculateBase64DecodedLength src =
     (let padding_length = length (takeWhile (\<lambda>c. c = CHR ''='') (rev src))
      in if padding_length = length src then Inl Out_of_bounds
         else Inr (int (length src * 3 div 4) - int padding_length))"

definition base64_lut :: "nat list" where
  "base64_lut =
    [64, 64, 64, 64, 64, 64, 64, 64, 64, 64, 64, 64, 64, 64, 64, 64,
     64, 64, 64, 64, 64, 64, 64, 64, 64, 64, 64, 64, 64, 64, 64, 64,
     64, 64, 64, 64, 64, 64, 64, 64, 64, 64, 64, 62, 64, 64, 64, 63,
     52, 53, 54, 55, 56, 57, 58, 59, 60, 61, 64, 64, 64, 64, 64, 64,
     64,  0,  1,  2,  3,  4,  5,  6,  7,  8,  9, 10, 11, 12, 13, 14,
     15, 16, 17, 18, 19, 20, 21, 22, 23, 24, 25, 64, 64, 64, 64, 64,
     64, 26, 27, 28, 29, 30, 31, 32, 33, 34, 35, 36, 37, 38, 39, 40,
     41, 42, 43, 44, 45, 46, 47, 48, 49, 50, 51, 64, 64, 64, 64, 64,
     64, 64, 64, 64, 64, 64, 64, 64, 64, 64, 64, 64, 64, 64, 64, 64,
     64, 64, 64, 64, 64, 64, 64, 64, 64, 64, 64, 64, 64, 64, 64, 64,
     64, 64, 64, 64, 64, 64, 64, 64, 64, 64, 64, 64, 64, 64, 64, 64,
     64, 64, 64, 64, 64, 64, 64, 64, 64, 64, 64, 64, 64, 64, 64, 64,
     64, 64, 64, 64, 64, 64, 64, 64, 64, 64, 64, 64, 64, 64, 64, 64,
     64, 64, 64, 64, 64, 64, 64, 64, 64, 64, 64, 64, 64, 64, 64, 64,
     64, 64, 64, 64, 64, 64, 64, 64, 64, 64, 64, 64, 64, 64, 64, 64,
     64, 64, 64, 64, 64, 64, 64, 64, 64, 64, 64, 64, 64, 64, 64, 64]"

text \<open>
  \<open>lut[c]\<close> with \<open>char c\<close>: the character is signed on the platforms the library is built for, so
  the index of a character above 127 is negative and outside the table.
\<close>

definition lut_at :: "char \<Rightarrow> 32 word res" where
  "lut_at c = (let i = (of_char c :: nat) in
     if i < 128 then Inr (word_of_nat (base64_lut ! i)) else Inl Out_of_bounds)"

fun b64_decode_loop :: "string \<Rightarrow> 32 word \<Rightarrow> nat \<Rightarrow> byte list \<Rightarrow> nat \<Rightarrow>
    (32 word \<times> nat \<times> byte list \<times> nat) res" where
  "b64_decode_loop [] value count dest bytes_written = Inr (value, count, dest, bytes_written)"
| "b64_decode_loop (c # cs) value count dest bytes_written =
     (if c = CHR ''='' then Inr (value, count, dest, bytes_written)
      else bindR (lut_at c) (\<lambda>l.
        let value = push_bit 6 value OR l; count = Suc count in
        if count = 4 then
          bindR (writeR dest bytes_written
              [ucast (drop_bit 16 value AND 0xFF), ucast (drop_bit 8 value AND 0xFF), ucast (value AND 0xFF)])
            (\<lambda>dest. b64_decode_loop cs 0 0 dest (bytes_written + 3))
        else b64_decode_loop cs value count dest bytes_written))"

definition b64_decode_tail :: "32 word \<times> nat \<times> byte list \<times> nat \<Rightarrow> (byte list \<times> nat) res" where
  "b64_decode_tail s = (case s of (value, count, dest, bytes_written) \<Rightarrow>
     if count = 3 then
       bindR (writeR dest bytes_written
           [ucast (drop_bit 10 value AND 0xFF), ucast (drop_bit 2 value AND 0xFF)])
         (\<lambda>dest. Inr (dest, bytes_written + 2))
     else if count = 2 then
       bindR (writeR dest bytes_written [ucast (drop_bit 4 value AND 0xFF)])
         (\<lambda>dest. Inr (dest, bytes_written + 1))
     else Inr (dest, bytes_written))"

definition Base64Decode :: "string \<Rightarrow> byte list \<Rightarrow> (byte list \<times> nat) res" where
  "Base64Decode src dest = bindR (b64_decode_loop src 0 0 dest 0) b64_decode_tail"

section \<open>What the decoder computes\<close>

text \<open>
  The reference: the characters before the first padding character, four at a time.  \<open>b64_size\<close> is
  the number of bytes the decoder writes for a payload of \<open>n\<close> characters.
\<close>

definition b64_value :: "char \<Rightarrow> 32 word" where
  "b64_value c = word_of_nat (base64_lut ! of_char c)"

definition b64_payload :: "string \<Rightarrow> string" where
  "b64_payload src = takeWhile (\<lambda>c. c \<noteq> CHR ''='') src"

fun b64_bytes :: "string \<Rightarrow> byte list" where
  "b64_bytes (a # b # c # d # cs) =
     (let value = push_bit 6 (push_bit 6 (push_bit 6 (b64_value a) OR b64_value b) OR b64_value c) OR b64_value d
      in [ucast (drop_bit 16 value AND 0xFF), ucast (drop_bit 8 value AND 0xFF), ucast (value AND 0xFF)]
         @ b64_bytes cs)"
| "b64_bytes [a, b, c] =
     (let value = push_bit 6 (push_bit 6 (b64_value a) OR b64_value b) OR b64_value c
      in [ucast (drop_bit 10 value AND 0xFF), ucast (drop_bit 2 value AND 0xFF)])"
| "b64_bytes [a, b] =
     (let value = push_bit 6 (b64_value a) OR b64_value b in [ucast (drop_bit 4 value AND 0xFF)])"
| "b64_bytes [a] = []"
| "b64_bytes [] = []"

definition b64_size :: "nat \<Rightarrow> nat" where
  "b64_size n = n div 4 * 3 + (if n mod 4 = 3 then 2 else if n mod 4 = 2 then 1 else 0)"

definition ascii :: "char \<Rightarrow> bool" where
  "ascii c \<longleftrightarrow> (of_char c :: nat) < 128"

lemma lut_at_eq: "lut_at c = (if ascii c then Inr (b64_value c) else Inl Out_of_bounds)"
  by (simp add: lut_at_def ascii_def b64_value_def)

lemma b64_size_add4: "b64_size (n + 4) = b64_size n + 3"
proof -
  have "(n + 4) div 4 = n div 4 + 1" and "(n + 4) mod 4 = n mod 4" by simp_all
  then show ?thesis by (simp add: b64_size_def del: div_add_self2)
qed

lemma length_b64_bytes: "length (b64_bytes cs) = b64_size (length cs)"
proof (induction cs rule: b64_bytes.induct)
  case (1 a b c d cs)
  have "length (a # b # c # d # cs) = length cs + 4" by simp
  then show ?case using 1 by (simp only: b64_size_add4) (simp add: Let_def)
qed (simp_all add: b64_size_def Let_def)

text \<open>Four characters of the payload are one turn of three stores.\<close>

definition payload_char :: "char \<Rightarrow> bool" where
  "payload_char c \<longleftrightarrow> c \<noteq> CHR ''='' \<and> ascii c"

lemma b64_decode_loop_good:
  "payload_char c \<Longrightarrow> n \<noteq> 3 \<Longrightarrow>
     b64_decode_loop (c # cs) v n dest w = b64_decode_loop cs (push_bit 6 v OR b64_value c) (Suc n) dest w"
  by (simp add: payload_char_def lut_at_eq)

lemma b64_decode_loop_fourth:
  "payload_char c \<Longrightarrow> b64_decode_loop (c # cs) v 3 dest w =
     (let value = push_bit 6 v OR b64_value c in
      bindR (writeR dest w
          [ucast (drop_bit 16 value AND 0xFF), ucast (drop_bit 8 value AND 0xFF), ucast (value AND 0xFF)])
        (\<lambda>dest. b64_decode_loop cs 0 0 dest (w + 3)))"
  by (simp add: payload_char_def lut_at_eq Let_def)

lemma b64_decode_loop_stop:
  "rest = [] \<or> hd rest = CHR ''='' \<Longrightarrow> b64_decode_loop rest v n dest w = Inr (v, n, dest, w)"
  by (cases rest) auto

lemma b64_decode_run:
  assumes rest: "rest = [] \<or> hd rest = CHR ''=''" and "\<forall>c \<in> set cs. payload_char c"
  shows "bindR (b64_decode_loop (cs @ rest) 0 0 dest w) b64_decode_tail =
    bindR (writeR dest w (b64_bytes cs)) (\<lambda>d. Inr (d, w + length (b64_bytes cs)))"
  using assms(2)
proof (induction cs arbitrary: dest w rule: b64_bytes.induct)
  case (1 a b c d cs)
  define val where "val = push_bit 6 (push_bit 6 (push_bit 6 (b64_value a) OR b64_value b) OR b64_value c) OR b64_value d"
  define three :: "byte list" where
    "three = [ucast (drop_bit 16 val AND 0xFF), ucast (drop_bit 8 val AND 0xFF), ucast (val AND 0xFF)]"
  have loop: "b64_decode_loop ((a # b # c # d # cs) @ rest) 0 0 dest w =
      bindR (writeR dest w three) (\<lambda>dest. b64_decode_loop (cs @ rest) 0 0 dest (w + 3))"
    using 1(2)
    by (simp add: b64_decode_loop_good b64_decode_loop_fourth Let_def three_def val_def
        numeral_3_eq_3 [symmetric] del: b64_decode_loop.simps)
  have bytes: "b64_bytes (a # b # c # d # cs) = three @ b64_bytes cs"
    by (simp add: three_def val_def Let_def)
  have len: "length three = 3" by (simp add: three_def)
  have IH: "bindR (b64_decode_loop (cs @ rest) 0 0 d (w + 3)) b64_decode_tail =
      bindR (writeR d (w + 3) (b64_bytes cs)) (\<lambda>d. Inr (d, w + 3 + length (b64_bytes cs)))" for d
    using 1 by simp
  show ?case
    by (simp only: loop bytes bindR_assoc IH writeR_append length_append len add.assoc)
next
  case (2 a b c)
  then show ?case using rest
    by (simp add: b64_decode_loop_good b64_decode_loop_stop b64_decode_tail_def Let_def
        del: b64_decode_loop.simps)
next
  case (3 a b)
  then show ?case using rest
    by (simp add: b64_decode_loop_good b64_decode_loop_stop b64_decode_tail_def Let_def
        del: b64_decode_loop.simps)
next
  case (4 a)
  then show ?case using rest
    by (simp add: b64_decode_loop_good b64_decode_loop_stop b64_decode_tail_def
        del: b64_decode_loop.simps)
next
  case 5
  then show ?case using rest by (simp add: b64_decode_loop_stop b64_decode_tail_def)
qed

lemma b64_decode_loop_fault:
  "b64_decode_loop cs v n dest w = Inl e \<Longrightarrow> e = Out_of_bounds"
  by (induction cs v n dest w rule: b64_decode_loop.induct)
    (auto simp: lut_at_eq Let_def bindR_Inl_iff dest: writeR_fault split: if_splits)

lemma b64_decode_loop_ascii:
  "b64_decode_loop cs v n dest w = Inr s \<Longrightarrow> \<forall>c \<in> set (b64_payload cs). ascii c"
proof (induction cs arbitrary: v n dest w)
  case Nil
  then show ?case by (simp add: b64_payload_def)
next
  case (Cons c cs)
  show ?case
  proof (cases "c = CHR ''=''")
    case True
    then show ?thesis by (simp add: b64_payload_def)
  next
    case False
    with Cons.prems have "ascii c" by (simp add: lut_at_eq split: if_splits)
    have "\<exists>v' n' dest' w'. b64_decode_loop cs v' n' dest' w' = Inr s"
      using Cons.prems False by (auto simp: Let_def bindR_Inr_iff split: if_splits)
    then have "\<forall>c \<in> set (b64_payload cs). ascii c" using Cons.IH by blast
    with \<open>ascii c\<close> False show ?thesis by (simp add: b64_payload_def)
  qed
qed

lemma b64_payload_rest: "\<exists>rest. src = b64_payload src @ rest \<and> (rest = [] \<or> hd rest = CHR ''='')"
proof (intro exI conjI)
  show "src = b64_payload src @ dropWhile (\<lambda>c. c \<noteq> CHR ''='') src"
    by (simp add: b64_payload_def)
  show "dropWhile (\<lambda>c. c \<noteq> CHR ''='') src = [] \<or> hd (dropWhile (\<lambda>c. c \<noteq> CHR ''='') src) = CHR ''=''"
    by (cases "dropWhile (\<lambda>c. c \<noteq> CHR ''='') src") (auto dest: dropWhile_eq_Cons_conv [THEN iffD1])
qed

text \<open>The decoder, on every text and every buffer.\<close>

lemma Base64Decode_eq:
  "Base64Decode src dest =
     (if (\<forall>c \<in> set (b64_payload src). ascii c) \<and> b64_size (length (b64_payload src)) \<le> length dest
      then Inr (b64_bytes (b64_payload src) @ drop (b64_size (length (b64_payload src))) dest,
                b64_size (length (b64_payload src)))
      else Inl Out_of_bounds)"
proof (cases "\<forall>c \<in> set (b64_payload src). ascii c")
  case True
  obtain rest where rest: "src = b64_payload src @ rest" "rest = [] \<or> hd rest = CHR ''=''"
    using b64_payload_rest by blast
  have "\<forall>c \<in> set (b64_payload src). payload_char c"
    using True by (auto simp: payload_char_def b64_payload_def dest: set_takeWhileD)
  from b64_decode_run [OF rest(2) this, of dest 0] rest(1)
  have "Base64Decode src dest = bindR (writeR dest 0 (b64_bytes (b64_payload src)))
      (\<lambda>d. Inr (d, length (b64_bytes (b64_payload src))))"
    by (simp add: Base64Decode_def)
  moreover have "b64_bytes (b64_payload src) = [] \<longleftrightarrow> b64_size (length (b64_payload src)) = 0"
    by (metis length_b64_bytes length_0_conv)
  ultimately show ?thesis
    using True by (auto simp: writeR_eq length_b64_bytes)
next
  case False
  then have "\<nexists>s. b64_decode_loop src 0 0 dest 0 = Inr s"
    using b64_decode_loop_ascii by blast
  then obtain e where "b64_decode_loop src 0 0 dest 0 = Inl e"
    by (cases "b64_decode_loop src 0 0 dest 0") auto
  moreover from this have "e = Out_of_bounds" by (rule b64_decode_loop_fault)
  ultimately show ?thesis using False by (auto simp: Base64Decode_def)
qed

lemma CalculateBase64DecodedLength_eq:
  assumes "src \<noteq> []" and "last src \<noteq> CHR ''=''"
  shows "CalculateBase64DecodedLength (src @ replicate p CHR ''='') =
    Inr (int ((length src + p) * 3 div 4) - int p)"
proof -
  obtain xs x where src: "src = xs @ [x]" "x \<noteq> CHR ''=''"
    using assms by (cases src rule: rev_cases) auto
  have "takeWhile (\<lambda>c. c = CHR ''='') (rev (src @ replicate p CHR ''='')) = replicate p CHR ''=''"
    using src by (simp add: takeWhile_append)
  then show ?thesis
    using assms(1) by (simp add: CalculateBase64DecodedLength_def)
qed

section \<open>Decoding what was encoded\<close>

lemma basis_64_lut:
  "map (\<lambda>c. base64_lut ! of_char c) basis_64 = [0..<64]"
  "\<forall>c \<in> set basis_64. c \<noteq> CHR ''='' \<and> (of_char c :: nat) < 128"
  by code_simp+

lemma length_basis_64 [simp]: "length basis_64 = 64"
  by (simp add: basis_64_def)

lemma b64_digit_value:
  assumes "i < 64"
  shows "b64_value (b64_digit i) = ucast i" and "payload_char (b64_digit i)"
proof -
  have i: "unat i < 64" using assms by (simp add: word_less_nat_alt)
  have "base64_lut ! of_char (basis_64 ! unat i) = map (\<lambda>c. base64_lut ! of_char c) basis_64 ! unat i"
    using i by simp
  also have "\<dots> = unat i" using i by (simp only: basis_64_lut(1)) simp
  finally show "b64_value (b64_digit i) = ucast i"
    by (simp add: b64_value_def b64_digit_def word_eq_iff_unsigned)
  show "payload_char (b64_digit i)"
    using basis_64_lut(2) i by (simp add: payload_char_def ascii_def b64_digit_def)
qed

lemma less_64_if_masked: "i AND 63 = i \<Longrightarrow> i < (64 :: byte)"
proof -
  assume "i AND 63 = i"
  moreover have "i AND 63 \<le> 63" by (rule word_and_le1)
  ultimately show ?thesis by (simp add: word_le_nat_alt word_less_nat_alt)
qed

lemma sextets_masked:
  "(drop_bit 2 a AND 0x3F) AND 63 = drop_bit 2 (a :: byte) AND 0x3F"
  "(push_bit 4 (a AND 0x3) OR drop_bit 4 (b AND 0xF0)) AND 63 = push_bit 4 (a AND 0x3) OR drop_bit 4 (b AND 0xF0 :: byte)"
  "(push_bit 2 (b AND 0xF) OR drop_bit 6 (c AND 0xC0)) AND 63 = push_bit 2 (b AND 0xF) OR drop_bit 6 (c AND 0xC0 :: byte)"
  "(c AND 0x3F) AND 63 = (c AND 0x3F :: byte)"
  "push_bit 4 (a AND 0x3) AND 63 = push_bit 4 (a AND 0x3 :: byte)"
  "push_bit 2 (b AND 0xF) AND 63 = push_bit 2 (b AND 0xF :: byte)"
  by (rule byte_eqI; simp add: bit_simps)+

lemma sextets_value:
  fixes a b c :: byte
  defines "val \<equiv> push_bit 6 (push_bit 6 (push_bit 6 (ucast (drop_bit 2 a AND 0x3F))
      OR ucast (push_bit 4 (a AND 0x3) OR drop_bit 4 (b AND 0xF0)))
      OR ucast (push_bit 2 (b AND 0xF) OR drop_bit 6 (c AND 0xC0)))
      OR ucast (c AND 0x3F) :: 32 word"
  shows "ucast (drop_bit 16 val AND 0xFF) = a" and "ucast (drop_bit 8 val AND 0xFF) = b"
    and "ucast (val AND 0xFF) = c"
  unfolding val_def by (rule byte_eqI; simp add: bit_simps)+

lemma sextets_value_2:
  fixes a b :: byte
  defines "val \<equiv> push_bit 6 (push_bit 6 (ucast (drop_bit 2 a AND 0x3F))
      OR ucast (push_bit 4 (a AND 0x3) OR drop_bit 4 (b AND 0xF0)))
      OR ucast (push_bit 2 (b AND 0xF)) :: 32 word"
  shows "ucast (drop_bit 10 val AND 0xFF) = a" and "ucast (drop_bit 2 val AND 0xFF) = b"
  unfolding val_def by (rule byte_eqI; simp add: bit_simps)+

lemma sextets_value_1:
  fixes a :: byte
  defines "val \<equiv> push_bit 6 (ucast (drop_bit 2 a AND 0x3F)) OR ucast (push_bit 4 (a AND 0x3)) :: 32 word"
  shows "ucast (drop_bit 4 val AND 0xFF) = a"
  unfolding val_def by (rule byte_eqI; simp add: bit_simps)

lemmas sextets_less = sextets_masked [THEN less_64_if_masked]

lemmas sextets_digits [simp] = sextets_less [THEN b64_digit_value(1)] sextets_less [THEN b64_digit_value(2)]

lemma Base64Encode_shape:
  "Base64Encode bs = b64_payload (Base64Encode bs) @ replicate (if length bs mod 3 = 0 then 0 else 3 - length bs mod 3) CHR ''=''
   \<and> (\<forall>c \<in> set (b64_payload (Base64Encode bs)). payload_char c)
   \<and> b64_bytes (b64_payload (Base64Encode bs)) = bs"
proof (induction bs rule: Base64Encode.induct)
  case (1 a b c rest)
  define p q r s where pqrs: "p = b64_digit (drop_bit 2 a AND 0x3F)"
    "q = b64_digit (push_bit 4 (a AND 0x3) OR drop_bit 4 (b AND 0xF0))"
    "r = b64_digit (push_bit 2 (b AND 0xF) OR drop_bit 6 (c AND 0xC0))"
    "s = b64_digit (c AND 0x3F)"
  have enc: "Base64Encode (a # b # c # rest) = p # q # r # s # Base64Encode rest"
    by (simp only: Base64Encode.simps pqrs)
  have good: "payload_char p" "payload_char q" "payload_char r" "payload_char s"
    unfolding pqrs by (rule sextets_digits)+
  then have pay: "b64_payload (p # q # r # s # Base64Encode rest) = p # q # r # s # b64_payload (Base64Encode rest)"
    by (simp add: b64_payload_def payload_char_def)
  have "b64_bytes (p # q # r # s # b64_payload (Base64Encode rest)) = a # b # c # b64_bytes (b64_payload (Base64Encode rest))"
    by (simp only: b64_bytes.simps Let_def pqrs sextets_digits sextets_value append.simps)
  moreover have "length (a # b # c # rest) mod 3 = length rest mod 3"
    by (simp add: numeral_3_eq_3 [symmetric])
  ultimately show ?case using 1 good by (simp only: enc pay) simp
next
  case (2 a b)
  define p q r where pqr: "p = b64_digit (drop_bit 2 a AND 0x3F)"
    "q = b64_digit (push_bit 4 (a AND 0x3) OR drop_bit 4 (b AND 0xF0))"
    "r = b64_digit (push_bit 2 (b AND 0xF))"
  have enc: "Base64Encode [a, b] = [p, q, r, CHR ''='']"
    by (simp only: Base64Encode.simps pqr)
  have good: "payload_char p" "payload_char q" "payload_char r"
    unfolding pqr by (rule sextets_digits)+
  have "b64_bytes [p, q, r] = [a, b]"
    by (simp only: b64_bytes.simps Let_def pqr sextets_digits sextets_value_2)
  then show ?case using good by (simp only: enc) (simp add: b64_payload_def payload_char_def)
next
  case (3 a)
  define p q where pq: "p = b64_digit (drop_bit 2 a AND 0x3F)" "q = b64_digit (push_bit 4 (a AND 0x3))"
  have enc: "Base64Encode [a] = [p, q, CHR ''='', CHR ''='']"
    by (simp only: Base64Encode.simps pq)
  have good: "payload_char p" "payload_char q"
    unfolding pq by (rule sextets_digits)+
  have "b64_bytes [p, q] = [a]"
    by (simp only: b64_bytes.simps Let_def pq sextets_digits sextets_value_1)
  then show ?case using good by (simp only: enc) (simp add: b64_payload_def payload_char_def numeral_2_eq_2)
next
  case 4
  show ?case by (simp add: b64_payload_def)
qed

lemma length_Base64Encode: "length (Base64Encode bs) = CalculateBase64EncodedLength (length bs)"
proof (induction bs rule: Base64Encode.induct)
  case (1 a b c rest)
  have "length (a # b # c # rest) + 2 = (length rest + 2) + 3" by simp
  then have "CalculateBase64EncodedLength (length (a # b # c # rest)) = CalculateBase64EncodedLength (length rest) + 4"
    by (simp only: CalculateBase64EncodedLength_def div_add_self2) simp
  then show ?case using 1 by simp
qed (simp_all add: CalculateBase64EncodedLength_def)

lemma Base64Decode_Base64Encode:
  assumes "length bs \<le> length dest"
  shows "Base64Decode (Base64Encode bs) dest = Inr (bs @ drop (length bs) dest, length bs)"
proof -
  have "b64_bytes (b64_payload (Base64Encode bs)) = bs" 
    and "\<forall>c \<in> set (b64_payload (Base64Encode bs)). ascii c"
    using Base64Encode_shape [of bs] by (auto simp: payload_char_def)
  moreover from this(1) have "b64_size (length (b64_payload (Base64Encode bs))) = length bs"
    by (metis length_b64_bytes)
  ultimately show ?thesis using assms by (simp add: Base64Decode_eq)
qed

lemma DecodedLength_Base64Encode:
  assumes "bs \<noteq> []"
  shows "CalculateBase64DecodedLength (Base64Encode bs) = Inr (int (length bs))"
proof -
  let ?pay = "b64_payload (Base64Encode bs)"
  let ?p = "if length bs mod 3 = 0 then 0 else 3 - length bs mod 3"
  have shape: "Base64Encode bs = ?pay @ replicate ?p CHR ''=''" 
    and good: "\<forall>c \<in> set ?pay. payload_char c" and bytes: "b64_bytes ?pay = bs"
    using Base64Encode_shape [of bs] by auto
  from bytes assms have ne: "?pay \<noteq> []" by auto
  with good have last: "last ?pay \<noteq> CHR ''=''" by (auto simp: payload_char_def)
  have len: "length ?pay + ?p = (length bs + 2) div 3 * 4"
    using arg_cong [OF shape, of length] by (simp add: length_Base64Encode CalculateBase64EncodedLength_def)
  have "CalculateBase64DecodedLength (?pay @ replicate ?p CHR ''='') =
      Inr (int ((length ?pay + ?p) * 3 div 4) - int ?p)"
    by (rule CalculateBase64DecodedLength_eq [OF ne last])
  also have "int ((length ?pay + ?p) * 3 div 4) - int ?p = int (length bs)"
    unfolding len by (simp split: if_splits) arith
  finally show ?thesis using shape by simp
qed

text \<open>
  The length the caller reserves against the length the decoder writes: equal for a text of whole
  groups of four with at most two padding characters.
\<close>

lemma b64_size_padded:
  assumes "n > 0" "p \<le> 2" and "(n + p) mod 4 = 0"
  shows "int ((n + p) * 3 div 4) - int p = int (b64_size n)"
proof -
  from assms(3) obtain k where k: "n + p = 4 * k" by (auto simp: mod_eq_0_iff_dvd)
  with assms(1) have "k > 0" by (cases k) auto
  then obtain j where j: "k = Suc j" by (cases k) auto
  from assms(2) consider "p = 0" | "p = 1" | "p = 2" by linarith
  then show ?thesis
  proof cases
    case 1
    with k show ?thesis by (simp add: b64_size_def)
  next
    case 2
    with k j have "n = 4 * j + 3" by simp
    then show ?thesis using k j 2 by (simp add: b64_size_def)
  next
    case 3
    with k j have n: "n = 4 * j + 2" by simp
    then have "n div 4 = j" "n mod 4 = 2" by presburger+
    then show ?thesis using k j 3 n by (simp add: b64_size_def)
  qed
qed

lemma DecodedLength_padded:
  assumes "pay \<noteq> []" and "\<forall>c \<in> set pay. payload_char c" and "p \<le> 2" and "(length pay + p) mod 4 = 0"
  shows "CalculateBase64DecodedLength (pay @ replicate p CHR ''='') = Inr (int (b64_size (length pay)))"
proof -
  have "last pay \<noteq> CHR ''=''" using assms(1,2) by (auto simp: payload_char_def)
  from CalculateBase64DecodedLength_eq [OF assms(1) this, of p]
  have "CalculateBase64DecodedLength (pay @ replicate p CHR ''='') =
    Inr (int ((length pay + p) * 3 div 4) - int p)" .
  moreover have "int ((length pay + p) * 3 div 4) - int p = int (b64_size (length pay))"
    using assms(1,3,4) by (intro b64_size_padded) simp_all
  ultimately show ?thesis by simp
qed

section \<open>Properties\<close>

text \<open>
  C26: Encoding and decoding are inverse: the encoded text has the length \<open>CalculateBase64EncodedLength\<close>
  announces, and decoding it into any buffer that is large enough gives the bytes back at its front, leaves
  the rest of the buffer and returns their number.
\<close>

theorem Base64_round_trip:
  "length (Base64Encode bs) = CalculateBase64EncodedLength (length bs) \<and>
   Base64Decode (Base64Encode bs) dest =
     (if length bs \<le> length dest then Inr (bs @ drop (length bs) dest, length bs) else Inl Out_of_bounds)"
proof -
  have "b64_bytes (b64_payload (Base64Encode bs)) = bs" and "\<forall>c \<in> set (b64_payload (Base64Encode bs)). ascii c"
    using Base64Encode_shape [of bs] by (auto simp: payload_char_def)
  moreover from this(1) have "b64_size (length (b64_payload (Base64Encode bs))) = length bs"
    by (metis length_b64_bytes)
  ultimately show ?thesis by (simp add: length_Base64Encode Base64Decode_eq)
qed

text \<open>
  C39: For a text of Base64 characters with the right padding (none, one or two signs, a multiple of four
  characters in all) the length \<open>CalculateBase64DecodedLength\<close> announces is what \<open>Base64Decode\<close> writes:
  a buffer of that length is filled exactly and never overrun.
\<close>

theorem Base64_declared_length_exact:
  assumes "pay \<noteq> []" and "\<forall>c \<in> set pay. payload_char c" and "p \<le> 2" and "(length pay + p) mod 4 = 0"
  shows "\<exists>n. CalculateBase64DecodedLength (pay @ replicate p CHR ''='') = Inr (int n) \<and>
    (\<forall>dest. length dest = n \<longrightarrow> Base64Decode (pay @ replicate p CHR ''='') dest = Inr (b64_bytes pay, n))"
proof -
  have "b64_payload (pay @ replicate p CHR ''='') = pay"
    using assms(2) by (auto simp: b64_payload_def payload_char_def takeWhile_append2 takeWhile_eq_Nil_iff)
  moreover have "\<forall>c \<in> set pay. ascii c" using assms(2) by (auto simp: payload_char_def)
  ultimately show ?thesis using DecodedLength_padded [OF assms] by (auto simp: Base64Decode_eq)
qed

theorem Base64_declared_length_exact_witness:
  "\<exists>n. CalculateBase64DecodedLength ''TWE='' = Inr (int n) \<and>
    (\<forall>dest. length dest = n \<longrightarrow> Base64Decode ''TWE='' dest = Inr (b64_bytes ''TWE'', n))"
  using Base64_declared_length_exact [of "''TWE''" 1] by (simp add: payload_char_def base64_lut_def lut_at_def ascii_def)

text \<open>
  Without the right padding the announced length can be too small: for the text \<open>ABC==\<close> it is one byte,
  and decoding into a buffer of one byte writes past its end.
\<close>

lemma Base64_bad_padding_overflows:
  "CalculateBase64DecodedLength ''ABC=='' = Inr 1 \<and> Base64Decode ''ABC=='' [x] = Inl Out_of_bounds"
  by (simp add: CalculateBase64DecodedLength_def Base64Decode_eq b64_payload_def b64_size_def ascii_def)

end
