(* ===== verification/Scan.thy ===== *)
theory Scan
  imports Session Base64
begin

text \<open>
  Scan data, from src/device.cpp and include/ldcp/data_types.h: \<open>Device::readScanBlock\<close>, which
  decodes a notification or an out-of-band packet into a \<open>ScanBlock\<close>, and \<open>Device::readScanFrame\<close>,
  which puts blocks together to a \<open>ScanFrame\<close>.  The plain members of a fresh \<open>ScanBlock\<close> or \<open>ScanFrame\<close>
  have no value (\<open>None\<close>); reading one is the fault \<open>Indeterminate\<close>.
\<close>

unbundle bit_operations_syntax

section \<open>Blocks and frames\<close>

record block_data =
  ranges :: "int list"
  intensities :: "int list"

definition empty_data :: block_data where
  "empty_data = \<lparr>ranges = [], intensities = []\<rparr>"

record scan_block =
  sb_block_index :: "int option"
  sb_block_count :: "int option"
  sb_block_length :: "int option"
  sb_timestamp :: "32 word option"
  sb_angular_fov :: "angular_fov_t option"
  sb_layers :: "block_data list"

definition ScanBlock :: scan_block where
  "ScanBlock = \<lparr>sb_block_index = None, sb_block_count = None, sb_block_length = None, sb_timestamp = None,
     sb_angular_fov = None, sb_layers = []\<rparr>"

record scan_frame =
  sf_timestamp :: "32 word option"
  sf_angular_fov :: "angular_fov_t option"
  sf_layers :: "block_data list"

definition initialised :: "'a option \<Rightarrow> 'a res" where
  "initialised v = (case v of Some x \<Rightarrow> Inr x | None \<Rightarrow> Inl Indeterminate)"

text \<open>\<open>std::vector::resize\<close>\<close>

definition vector_resize :: "nat \<Rightarrow> 'a \<Rightarrow> 'a list \<Rightarrow> 'a list" where
  "vector_resize n x xs = take n xs @ replicate (n - length xs) x"

lemma length_vector_resize [simp]: "length (vector_resize n x xs) = n"
  by (simp add: vector_resize_def min_def)

section \<open>Decoding a notification\<close>

text \<open>
  \<open>decode_buffer\<close> grows to the announced length of the text; a negative length becomes a huge size,
  which \<open>resize\<close> refuses with an exception.
\<close>

definition grow_buffer :: "int \<Rightarrow> byte list \<Rightarrow> byte list res" where
  "grow_buffer byte_count decode_buffer =
     (if byte_count < 0 then Inl (Uncaught ''length_error'')
      else if length decode_buffer < nat byte_count then Inr (vector_resize (nat byte_count) 0 decode_buffer)
      else Inr decode_buffer)"

definition decode_text :: "json \<Rightarrow> byte list \<Rightarrow> (nat \<times> byte list) res" where
  "decode_text v decode_buffer =
     bindR (GetString v) (\<lambda>text.
     bindR (CalculateBase64DecodedLength text) (\<lambda>byte_count.
     bindR (grow_buffer byte_count decode_buffer) (\<lambda>decode_buffer.
     bindR (Base64Decode text decode_buffer) (\<lambda>(decode_buffer, _). Inr (nat byte_count, decode_buffer)))))"

definition range_at :: "byte list \<Rightarrow> nat \<Rightarrow> int" where
  "range_at buffer j = uint (le16 (buffer ! (2 * j)) (buffer ! (2 * j + 1)))"

text \<open>One layer: its old data, the block length so far and the new ones.\<close>

definition decode_layer :: "json \<Rightarrow> block_data \<times> int option \<Rightarrow> (block_data \<times> int option) res" where
  "decode_layer layer old =
     (case old of (data, len) \<Rightarrow>
        if IsNull layer then Inr old
        else bindR (member layer ''ranges'') (\<lambda>rs.
          bindR (if IsNull rs then Inr ([], data, len)
                 else bindR (decode_text rs []) (\<lambda>(byte_count, buffer).
                        let n = byte_count div 2
                        in Inr (buffer, data\<lparr>ranges := map (range_at buffer) [0..<n]\<rparr>, Some (int n)))) (\<lambda>(buffer, data, len).
          bindR (member layer ''intensities'') (\<lambda>ws.
            if IsNull ws then Inr (data, len)
            else bindR (decode_text ws buffer) (\<lambda>(byte_count, buffer).
              Inr (data\<lparr>intensities := map (\<lambda>j. uint (buffer ! j)) [0..<byte_count]\<rparr>, len))))))"

text \<open>All layers, in order; the block length is that of the last layer with ranges.\<close>

fun decode_layers :: "json \<Rightarrow> nat \<Rightarrow> block_data list \<Rightarrow> int option \<Rightarrow> (block_data list \<times> int option) res" where
  "decode_layers layers i [] len = Inr ([], len)"
| "decode_layers layers i (data # rest) len =
     bindR (ArrayAt layers i) (\<lambda>layer.
     bindR (decode_layer layer (data, len)) (\<lambda>(data, len).
     bindR (decode_layers layers (Suc i) rest len) (\<lambda>(rest, len). Inr (data # rest, len))))"

definition decode_notification :: "json \<Rightarrow> scan_block \<Rightarrow> scan_block res" where
  "decode_notification notification b =
     bindR (member notification ''params'') (\<lambda>params.
     bindR (member params ''block'') (\<lambda>v. bindR (GetInt v) (\<lambda>index.
     bindR (member params ''timestamp'') (\<lambda>v. bindR (GetInt64 v) (\<lambda>time.
     bindR (member params ''layers'') (\<lambda>layers. bindR (ArraySize layers) (\<lambda>n.
     bindR (decode_layers layers 0 (vector_resize n empty_data (sb_layers b)) (sb_block_length b)) (\<lambda>(data, len).
       Inr \<lparr>sb_block_index = Some index, sb_block_count = Some 8, sb_block_length = len,
            sb_timestamp = Some (word_of_int time), sb_angular_fov = Some ANGULAR_FOV_270DEG, sb_layers = data\<rparr>))))))))"

section \<open>Decoding an out-of-band packet\<close>

definition payload16 :: "byte list \<Rightarrow> nat \<Rightarrow> int res" where
  "payload16 d pos = bindR (loadR d pos) (\<lambda>lo. bindR (loadR d (pos + 1)) (\<lambda>hi. Inr (uint (le16 lo hi))))"

definition payload8 :: "byte list \<Rightarrow> nat \<Rightarrow> int res" where
  "payload8 d pos = bindR (loadR d pos) (\<lambda>b. Inr (uint b))"

definition INTENSITY_WIDTH_8BIT :: nat where
  "INTENSITY_WIDTH_8BIT = 0"

definition oob_sample :: "byte list \<Rightarrow> nat \<Rightarrow> nat \<Rightarrow> (int \<times> int) res" where
  "oob_sample d len i =
     (let intensities_at = sizeof_OobPacketHeader + 2 * len in
      bindR (payload16 d (sizeof_OobPacketHeader + 2 * i)) (\<lambda>r.
      bindR (if intensity_width (header_of d) = INTENSITY_WIDTH_8BIT then payload8 d (intensities_at + i)
             else payload16 d (intensities_at + 2 * i)) (\<lambda>w. Inr (r, w))))"

definition decode_oob :: "byte list \<Rightarrow> scan_block \<Rightarrow> scan_block res" where
  "decode_oob d b =
     (if length d < sizeof_OobPacketHeader then Inl Out_of_bounds
      else
        let h = header_of d; len = unat (OobPacketHeader.block_length h) in
        bindR (mapR (oob_sample d len) [0..<len]) (\<lambda>samples.
          Inr \<lparr>sb_block_index = Some (uint (OobPacketHeader.block_index h)),
            sb_block_count = Some (if OobPacketHeader.block_count h \<noteq> 0 then uint (OobPacketHeader.block_count h) else 8),
            sb_block_length = Some (int len), sb_timestamp = Some (OobPacketHeader.timestamp h),
            sb_angular_fov = Some (if flag_angular_fov h = 0 then ANGULAR_FOV_270DEG else ANGULAR_FOV_360DEG),
            sb_layers = [\<lparr>ranges = map fst samples, intensities = map snd samples\<rparr>]\<rparr>))"

section \<open>Reading a block\<close>

text \<open>
  The function works on the caller's block, which an error leaves as it is, and so do an empty packet
  and a null notification.
\<close>

definition decode_block :: "scan_data \<Rightarrow> scan_block \<Rightarrow> scan_block res" where
  "decode_block data b =
     (case data of
        Notification n \<Rightarrow> if IsNull n then Inr b else decode_notification n b
      | Oob_block d \<Rightarrow> if 0 < length d then decode_oob d b else Inr b
      | No_data \<Rightarrow> Inr b)"

definition read_block ::
  "json_writer \<Rightarrow> json_reader \<Rightarrow> io_event list list \<Rightarrow> session \<Rightarrow> scan_block \<Rightarrow> (session \<times> scan_block \<times> error_t) res" where
  "read_block wr rd evss s b =
     bindR (pollForScanBlock wr rd evss s) (\<lambda>(s, result, data).
       bindR (if result = no_error then decode_block data b else Inr b) (\<lambda>b. Inr (s, b, result)))"

section \<open>Putting a frame together\<close>

record assembly =
  expected_block_index :: int
  asm_block_count :: int
  asm_block_length :: int
  frame :: scan_frame

definition INT_MAX :: int where
  "INT_MAX = 2 ^ 31 - 1"

definition start_assembly :: "scan_frame \<Rightarrow> assembly" where
  "start_assembly f = \<lparr>expected_block_index = 0, asm_block_count = INT_MAX, asm_block_length = 0, frame = f\<rparr>"

text \<open>\<open>operator[]\<close> of a vector with an \<open>int\<close>, reading and writing.\<close>

definition vector_at :: "'a list \<Rightarrow> int \<Rightarrow> 'a res" where
  "vector_at xs i = (if 0 \<le> i \<and> i < int (length xs) then Inr (xs ! nat i) else Inl Out_of_bounds)"

definition vector_set :: "'a list \<Rightarrow> int \<Rightarrow> 'a \<Rightarrow> 'a list res" where
  "vector_set xs i x = (if 0 \<le> i \<and> i < int (length xs) then Inr (xs[nat i := x]) else Inl Out_of_bounds)"

text \<open>The first block of a frame sets its parameters.\<close>

definition begin_frame :: "scan_block \<Rightarrow> assembly \<Rightarrow> assembly res" where
  "begin_frame b a =
     bindR (initialised (sb_block_count b)) (\<lambda>cnt.
     bindR (initialised (sb_block_length b)) (\<lambda>len.
     bindR (initialised (sb_timestamp b)) (\<lambda>time.
     bindR (initialised (sb_angular_fov b)) (\<lambda>fov.
       let n = nat (cnt * len);
           layers = vector_resize 1 empty_data (sf_layers (frame a));
           data = hd layers
       in Inr (a\<lparr>asm_block_count := cnt, asm_block_length := len,
            frame := \<lparr>sf_timestamp = Some time, sf_angular_fov = Some fov,
              sf_layers = [\<lparr>ranges = vector_resize n 0 (ranges data), intensities = vector_resize n 0 (intensities data)\<rparr>]\<rparr>\<rparr>)))))"

text \<open>The copy of one block into the frame; \<open>pos\<close> is the place of its first sample.\<close>

fun copy_samples :: "block_data list \<Rightarrow> int \<Rightarrow> int list \<Rightarrow> block_data \<Rightarrow> block_data res" where
  "copy_samples layers pos [] data = Inr data"
| "copy_samples layers pos (i # js) data =
     bindR (vector_at layers 0) (\<lambda>layer.
     bindR (vector_at (ranges layer) i) (\<lambda>r. bindR (vector_set (ranges data) (pos + i) r) (\<lambda>rs.
     bindR (vector_at (intensities layer) i) (\<lambda>w. bindR (vector_set (intensities data) (pos + i) w) (\<lambda>ws.
       copy_samples layers pos js \<lparr>ranges = rs, intensities = ws\<rparr>)))))"

definition add_block :: "scan_block \<Rightarrow> assembly \<Rightarrow> assembly res" where
  "add_block b a =
     bindR (initialised (sb_block_index b)) (\<lambda>index.
       if index \<noteq> expected_block_index a then Inr (a\<lparr>expected_block_index := 0\<rparr>)
       else bindR (if expected_block_index a = 0 then begin_frame b a else Inr a) (\<lambda>a.
         bindR (copy_samples (sb_layers b) (expected_block_index a * asm_block_length a) (map int [0..<nat (asm_block_length a)])
             (hd (sf_layers (frame a)))) (\<lambda>data.
           Inr (a\<lparr>expected_block_index := expected_block_index a + 1,
             frame := (frame a)\<lparr>sf_layers := data # tl (sf_layers (frame a))\<rparr>\<rparr>))))"

text \<open>
  The loop of \<open>readScanFrame\<close>, over the traffic during each call of \<open>readScanBlock\<close>.  When the list is
  used up the call is still waiting: \<open>Unfinished\<close>.
\<close>

datatype frame_result = Frame_result error_t | Unfinished

fun frame_loop ::
  "json_writer \<Rightarrow> json_reader \<Rightarrow> io_event list list list \<Rightarrow> session \<Rightarrow> scan_block \<Rightarrow> assembly \<Rightarrow>
    (session \<times> assembly \<times> frame_result) res" where
  "frame_loop wr rd [] s b a =
     (if expected_block_index a < asm_block_count a then Inr (s, a, Unfinished) else Inr (s, a, Frame_result no_error))"
| "frame_loop wr rd (evss # rest) s b a =
     (if expected_block_index a < asm_block_count a then
        bindR (read_block wr rd evss s b) (\<lambda>(s, b, result).
          if result \<noteq> no_error then Inr (s, a, Frame_result result)
          else bindR (add_block b a) (\<lambda>a. frame_loop wr rd rest s b a))
      else Inr (s, a, Frame_result no_error))"

definition read_frame ::
  "json_writer \<Rightarrow> json_reader \<Rightarrow> io_event list list list \<Rightarrow> session \<Rightarrow> scan_frame \<Rightarrow>
    (session \<times> scan_frame \<times> frame_result) res" where
  "read_frame wr rd evsss s f =
     bindR (frame_loop wr rd evsss s ScanBlock (start_assembly f)) (\<lambda>(s, a, r). Inr (s, frame a, r))"

section \<open>Decoded texts\<close>

lemma initialised_Inr_iff: "initialised v = Inr x \<longleftrightarrow> v = Some x"
  by (simp add: initialised_def split: option.split)

lemma initialised_Some [simp]: "initialised (Some x) = Inr x"
  by (simp add: initialised_def)

lemma decode_text_encoded:
  assumes "bs \<noteq> []"
  shows "decode_text (JString (Base64Encode bs)) buffer = Inr (length bs, bs @ drop (length bs) buffer)"
  using assms DecodedLength_Base64Encode [OF assms]
  by (auto simp: decode_text_def grow_buffer_def vector_resize_def Base64Decode_Base64Encode)

definition u16_bytes :: "16 word \<Rightarrow> byte list" where
  "u16_bytes r = [ucast r, ucast (drop_bit 8 r)]"

lemma le16_u16_bytes: "le16 (ucast r) (ucast (drop_bit 8 r)) = r"
proof -
  have "le16 (ucast r) (ucast (drop_bit 8 r)) = push_bit 8 (ucast (ucast (drop_bit 8 r) :: byte)) OR ucast (ucast r :: byte)"
    unfolding le16_def by (rule disjunctive_add) (auto simp: bit_simps)
  also have "\<dots> = r" by (rule bit_word_eqI) (auto simp: bit_simps)
  finally show ?thesis .
qed

lemma length_u16s [simp]: "length (concat (map u16_bytes rs)) = 2 * length rs"
  by (induction rs) (simp_all add: u16_bytes_def)

lemma range_at_u16s: "j < length rs \<Longrightarrow> range_at (concat (map u16_bytes rs) @ rest) j = uint (rs ! j)"
proof (induction rs arbitrary: j)
  case (Cons r rs)
  then show ?case by (cases j) (auto simp: range_at_def u16_bytes_def le16_u16_bytes)
qed simp

text \<open>A layer as the device sends it: little-endian ranges and one-byte intensities, in Base64.\<close>

definition layer_json :: "16 word list \<times> byte list \<Rightarrow> json" where
  "layer_json l = JObject [(''ranges'', JString (Base64Encode (concat (map u16_bytes (fst l))))),
     (''intensities'', JString (Base64Encode (snd l)))]"

definition layer_data :: "16 word list \<times> byte list \<Rightarrow> block_data" where
  "layer_data l = \<lparr>ranges = map uint (fst l), intensities = map uint (snd l)\<rparr>"

lemma decode_layer_json:
  assumes "fst l \<noteq> []" and "snd l \<noteq> []"
  shows "decode_layer (layer_json l) old = Inr (layer_data l, Some (int (length (fst l))))"
proof -
  have "concat (map u16_bytes (fst l)) \<noteq> []" using assms(1) by (cases "fst l") (simp_all add: u16_bytes_def)
  moreover have "map (range_at (concat (map u16_bytes (fst l)))) [0..<length (fst l)] = map uint (fst l)"
    using range_at_u16s [of _ "fst l" "[]"] by (intro nth_equalityI) simp_all
  moreover have "map (\<lambda>j. uint ((snd l @ rest) ! j)) [0..<length (snd l)] = map uint (snd l)" for rest
    by (intro nth_equalityI) (simp_all add: nth_append)
  ultimately show ?thesis
    using assms(2) by (cases old) (simp add: decode_layer_def layer_json_def IsNull_def decode_text_encoded layer_data_def Let_def)
qed

lemma decode_layers_json:
  assumes "\<forall>l \<in> set ls. fst l \<noteq> [] \<and> snd l \<noteq> []" and "length old = length ls"
  shows "decode_layers (JArray (pre @ map layer_json ls)) (length pre) old len =
    Inr (map layer_data ls, if ls = [] then len else Some (int (length (fst (last ls)))))"
  using assms
proof (induction ls arbitrary: pre old len)
  case (Cons l ls)
  then obtain d old' where old: "old = d # old'" by (cases old) auto
  have "decode_layers (JArray ((pre @ [layer_json l]) @ map layer_json ls)) (length (pre @ [layer_json l])) old' len' =
      Inr (map layer_data ls, if ls = [] then len' else Some (int (length (fst (last ls)))))" for len'
    using Cons.prems old by (intro Cons.IH) auto
  with Cons.prems old show ?case by (simp add: ArrayAt_def decode_layer_json)
qed simp

section \<open>Samples of a packet\<close>

lemma loadR_fault: "loadR d i = Inl e \<Longrightarrow> e = Out_of_bounds"
  by (simp add: loadR_def split: if_splits)

lemma oob_sample_fault: "oob_sample d len i = Inl e \<Longrightarrow> e = Out_of_bounds"
  by (auto simp: oob_sample_def payload16_def payload8_def bindR_Inl_iff Let_def dest: loadR_fault split: if_splits)

lemma mapR_all_faults: "mapR f xs = Inl e \<Longrightarrow> (\<And>x e. f x = Inl e \<Longrightarrow> e = c) \<Longrightarrow> e = c"
  by (induction xs) (auto simp: bindR_Inl_iff)

definition sample_width :: "byte list \<Rightarrow> nat" where
  "sample_width d = (if intensity_width (header_of d) = INTENSITY_WIDTH_8BIT then 1 else 2)"

definition sample_of :: "byte list \<Rightarrow> nat \<Rightarrow> nat \<Rightarrow> int \<times> int" where
  "sample_of d len i =
     (uint (le16 (d ! (16 + 2 * i)) (d ! (17 + 2 * i))),
      if sample_width d = 1 then uint (d ! (16 + 2 * len + i))
      else uint (le16 (d ! (16 + 2 * len + 2 * i)) (d ! (17 + 2 * len + 2 * i))))"

lemma oob_sample_fits:
  assumes "i < len" and "16 + 2 * len + sample_width d * len \<le> length d"
  shows "oob_sample d len i = Inr (sample_of d len i)"
  using assms
  by (auto simp: oob_sample_def sample_of_def sample_width_def payload16_def payload8_def sizeof_OobPacketHeader_def
      loadR_def Let_def add.assoc split: if_splits)

lemma oob_sample_short:
  assumes "length d < 16 + 2 * len + sample_width d * len" and "0 < len"
  shows "\<exists>e. oob_sample d len (len - 1) = Inl e"
  using assms
  by (cases len)
    (auto simp: oob_sample_def sample_width_def payload16_def payload8_def sizeof_OobPacketHeader_def loadR_def Let_def
      split: if_splits)

lemma oob_samples:
  "mapR (oob_sample d len) [0..<len] =
     (if len = 0 \<or> 16 + 2 * len + sample_width d * len \<le> length d then Inr (map (sample_of d len) [0..<len])
      else Inl Out_of_bounds)"
proof (cases "len = 0 \<or> 16 + 2 * len + sample_width d * len \<le> length d")
  case True
  then have "mapR (oob_sample d len) [0..<len] = Inr (map (sample_of d len) [0..<len])"
    by (intro mapR_total oob_sample_fits) auto
  with True show ?thesis by simp
next
  case False
  with oob_sample_short [of d len] obtain e where "oob_sample d len (len - 1) = Inl e" by auto
  with mapR_fault [of "len - 1" "[0..<len]" "oob_sample d len" e] False obtain e' where
    e': "mapR (oob_sample d len) [0..<len] = Inl e'" by auto
  with mapR_all_faults [OF e'] oob_sample_fault have "e' = Out_of_bounds" by blast
  with e' False show ?thesis by simp
qed

section \<open>Blocks in a frame\<close>

lemma copy_samples_append:
  "copy_samples layers pos (xs @ ys) d = bindR (copy_samples layers pos xs d) (copy_samples layers pos ys)"
  by (induction xs arbitrary: d) (simp_all add: bindR_assoc)

text \<open>The part of a list from \<open>k\<close> on is replaced by \<open>xs\<close>.\<close>

definition splice :: "nat \<Rightarrow> 'a list \<Rightarrow> 'a list \<Rightarrow> 'a list" where
  "splice k xs ys = take k ys @ xs @ drop (k + length xs) ys"

lemma length_splice [simp]: "k + length xs \<le> length ys \<Longrightarrow> length (splice k xs ys) = length ys"
  by (simp add: splice_def)

lemma splice_snoc:
  "k + length xs < length ys \<Longrightarrow> (splice k xs ys)[k + length xs := x] = splice k (xs @ [x]) ys"
  by (simp add: splice_def list_update_append Cons_nth_drop_Suc [symmetric])

lemma splice_take: "k + length xs \<le> length ys \<Longrightarrow> take (k + length xs) (splice k xs ys) = take k ys @ xs"
  by (simp add: splice_def)

definition copy_fits :: "block_data list \<Rightarrow> nat \<Rightarrow> nat \<Rightarrow> block_data \<Rightarrow> bool" where
  "copy_fits layers k m d \<longleftrightarrow> m = 0 \<or> layers \<noteq> [] \<and> m \<le> length (ranges (hd layers)) \<and> m \<le> length (intensities (hd layers)) \<and>
     k + m \<le> length (ranges d) \<and> k + m \<le> length (intensities d)"

definition copied :: "block_data list \<Rightarrow> nat \<Rightarrow> nat \<Rightarrow> block_data \<Rightarrow> block_data" where
  "copied layers k m d = (if m = 0 then d
     else \<lparr>ranges = splice k (take m (ranges (hd layers))) (ranges d),
           intensities = splice k (take m (intensities (hd layers))) (intensities d)\<rparr>)"

lemma copy_one:
  assumes "copy_fits layers k m d"
  shows "copy_samples layers (int k) [int m] (copied layers k m d) =
    (if copy_fits layers k (Suc m) d then Inr (copied layers k (Suc m) d) else Inl Out_of_bounds)"
proof (cases "m = 0")
  case True
  then show ?thesis
    by (cases layers; cases "ranges (hd layers)"; cases "intensities (hd layers)")
      (auto simp: copy_fits_def copied_def vector_at_def vector_set_def splice_def upd_conv_take_nth_drop)
next
  case False
  with assms have f: "layers \<noteq> []" "m \<le> length (ranges (hd layers))" "m \<le> length (intensities (hd layers))"
    "k + m \<le> length (ranges d)" "k + m \<le> length (intensities d)"
    by (auto simp: copy_fits_def)
  have n: "nat (int k + int m) = k + m" by simp
  have "(splice k (take m xs) ys)[k + m := xs ! m] = splice k (take (Suc m) xs) ys"
    if "m < length xs" "k + m < length ys" for xs ys :: "int list"
    using that splice_snoc [of k "take m xs" ys "xs ! m"] by (simp add: take_Suc_conv_app_nth)
  with f False n show ?thesis
    by (auto simp: copied_def copy_fits_def vector_at_def vector_set_def hd_conv_nth)
qed

lemma copy_samples_eq:
  "copy_samples layers (int k) (map int [0..<m]) d =
     (if copy_fits layers k m d then Inr (copied layers k m d) else Inl Out_of_bounds)"
proof (induction m)
  case 0
  then show ?case by (simp add: copy_fits_def copied_def)
next
  case (Suc m)
  have "\<not> copy_fits layers k (Suc m) d" if "\<not> copy_fits layers k m d"
    using that by (auto simp: copy_fits_def)
  with Suc copy_one [of layers k m d] show ?case
    by (auto simp: copy_samples_append)
qed

text \<open>
  A partial frame after the blocks \<open>bs\<close>: these are the blocks 0, 1, ... of a frame, the first one set
  the parameters, and their samples are at its front, one after the other.
\<close>

definition enough :: "nat \<Rightarrow> scan_block \<Rightarrow> bool" where
  "enough m b \<longleftrightarrow> m = 0 \<or> sb_layers b \<noteq> [] \<and> m \<le> length (ranges (hd (sb_layers b))) \<and>
     m \<le> length (intensities (hd (sb_layers b)))"

definition part :: "nat \<Rightarrow> (block_data \<Rightarrow> int list) \<Rightarrow> scan_block list \<Rightarrow> int list" where
  "part m sel bs = concat (map (\<lambda>b. if m = 0 then [] else take m (sel (hd (sb_layers b)))) bs)"

definition partial_frame :: "scan_block list \<Rightarrow> assembly \<Rightarrow> bool" where
  "partial_frame bs a \<longleftrightarrow> bs \<noteq> [] \<and> expected_block_index a = int (length bs) \<and>
     (\<forall>i < length bs. sb_block_index (bs ! i) = Some (int i)) \<and>
     sb_block_count (hd bs) = Some (asm_block_count a) \<and> sb_block_length (hd bs) = Some (asm_block_length a) \<and>
     0 \<le> asm_block_length a \<and> int (length bs) \<le> asm_block_count a \<and>
     sf_timestamp (frame a) = sb_timestamp (hd bs) \<and> sf_angular_fov (frame a) = sb_angular_fov (hd bs) \<and>
     sb_timestamp (hd bs) \<noteq> None \<and> sb_angular_fov (hd bs) \<noteq> None \<and>
     (\<forall>b \<in> set bs. enough (nat (asm_block_length a)) b) \<and>
     (\<exists>d. sf_layers (frame a) = [d] \<and>
        length (ranges d) = nat (asm_block_count a) * nat (asm_block_length a) \<and>
        length (intensities d) = nat (asm_block_count a) * nat (asm_block_length a) \<and>
        take (length bs * nat (asm_block_length a)) (ranges d) = part (nat (asm_block_length a)) ranges bs \<and>
        take (length bs * nat (asm_block_length a)) (intensities d) = part (nat (asm_block_length a)) intensities bs)"

lemma add_index:
  assumes "sb_block_index b \<noteq> Some (expected_block_index a)" and "add_block b a = Inr a'"
  shows "a' = a\<lparr>expected_block_index := 0\<rparr>"
  using assms by (auto simp: add_block_def bindR_Inr_iff initialised_Inr_iff)

lemma copied_part:
  assumes "enough m b" and "length (sel d) = c * m" and "k < c" and "take (k * m) (sel d) = part m sel bs"
    and "sel = ranges \<or> sel = intensities"
  shows "length (sel (copied (sb_layers b) (k * m) m d)) = c * m \<and>
    take (Suc k * m) (sel (copied (sb_layers b) (k * m) m d)) = part m sel (bs @ [b])"
proof (cases "m = 0")
  case True
  with assms(2) show ?thesis by (simp add: copied_def part_def)
next
  case False
  let ?xs = "take m (sel (hd (sb_layers b)))"
  have len: "length ?xs = m" using assms(1,5) False by (auto simp: enough_def)
  have "Suc k * m \<le> c * m" using assms(3) by (intro mult_le_mono1) simp
  then have fit: "k * m + length ?xs \<le> length (sel d)" using assms(2) len by simp
  have "sel (copied (sb_layers b) (k * m) m d) = splice (k * m) ?xs (sel d)"
    using assms(5) False by (auto simp: copied_def)
  with splice_take [OF fit] fit len assms(2,4) False show ?thesis
    by (simp add: part_def add.commute)
qed

lemma copy_block:
  assumes "length (ranges d) = c * m" and "length (intensities d) = c * m" and "k < c"
  shows "copy_samples layers (int k * int m) (map int [0..<m]) d =
    (if m = 0 \<or> layers \<noteq> [] \<and> m \<le> length (ranges (hd layers)) \<and> m \<le> length (intensities (hd layers))
     then Inr (copied layers (k * m) m d) else Inl Out_of_bounds)"
proof -
  have "Suc k * m \<le> c * m" using assms(3) by (intro mult_le_mono1) simp
  then have "k * m + m \<le> c * m" by simp
  then show ?thesis
    using copy_samples_eq [of layers "k * m" m d] assms(1,2) by (auto simp: copy_fits_def)
qed

lemma add_next:
  assumes p: "partial_frame bs a" and "expected_block_index a < asm_block_count a"
    and "sb_block_index b = Some (expected_block_index a)"
  shows "if enough (nat (asm_block_length a)) b then \<exists>a'. add_block b a = Inr a' \<and> partial_frame (bs @ [b]) a'
    else add_block b a = Inl Out_of_bounds"
proof -
  define m where "m = nat (asm_block_length a)"
  define c where "c = nat (asm_block_count a)"
  let ?k = "length bs"
  from p obtain d where k: "bs \<noteq> []" "expected_block_index a = int ?k" "asm_block_length a = int m" "asm_block_count a = int c"
    and d: "sf_layers (frame a) = [d]" "length (ranges d) = c * m" "length (intensities d) = c * m"
      "take (?k * m) (ranges d) = part m ranges bs" "take (?k * m) (intensities d) = part m intensities bs"
    by (auto simp: partial_frame_def m_def c_def)
  have "?k < c" using assms(2) k by simp
  let ?d = "copied (sb_layers b) (?k * m) m d"
  let ?a = "a\<lparr>expected_block_index := int ?k + 1, frame := (frame a)\<lparr>sf_layers := [?d]\<rparr>\<rparr>"
  have add: "add_block b a = (if enough m b then Inr ?a else Inl Out_of_bounds)"
    using assms(3) k d copy_block [OF d(2,3) \<open>?k < c\<close>, of "sb_layers b"] by (simp add: add_block_def enough_def)
  have part: "partial_frame (bs @ [b]) ?a" if e: "enough m b"
  proof -
    have "length (ranges ?d) = c * m \<and> take (Suc ?k * m) (ranges ?d) = part m ranges (bs @ [b])"
      using copied_part [OF e d(2) \<open>?k < c\<close> d(4)] by simp
    moreover have "length (intensities ?d) = c * m \<and> take (Suc ?k * m) (intensities ?d) = part m intensities (bs @ [b])"
      using copied_part [OF e d(3) \<open>?k < c\<close> d(5)] by simp
    ultimately show ?thesis
      using p e k \<open>?k < c\<close> assms(3) by (auto simp: partial_frame_def nth_append less_Suc_eq)
  qed
  from add part k(3) show ?thesis by auto
qed

lemma add_first:
  assumes "expected_block_index a = 0" and "sb_block_index b = Some 0" and "sb_block_count b = Some (int c)" "0 < c"
    and "sb_block_length b = Some (int m)" and "sb_timestamp b = Some ts" and "sb_angular_fov b = Some fov"
  shows "if enough m b then \<exists>a'. add_block b a = Inr a' \<and> partial_frame [b] a' else add_block b a = Inl Out_of_bounds"
proof -
  define d0 where "d0 = hd (vector_resize 1 empty_data (sf_layers (frame a)))"
  define d where "d = \<lparr>ranges = vector_resize (c * m) 0 (ranges d0), intensities = vector_resize (c * m) 0 (intensities d0)\<rparr>"
  have len: "length (ranges d) = c * m" "length (intensities d) = c * m" by (simp_all add: d_def)
  let ?d = "copied (sb_layers b) 0 m d"
  let ?a = "a\<lparr>expected_block_index := 1, asm_block_count := int c, asm_block_length := int m,
    frame := \<lparr>sf_timestamp = Some ts, sf_angular_fov = Some fov, sf_layers = [?d]\<rparr>\<rparr>"
  have "nat (int c * int m) = c * m" by (simp add: nat_mult_distrib)
  then have add: "add_block b a = (if enough m b then Inr ?a else Inl Out_of_bounds)"
    using assms copy_block [OF len assms(4), of "sb_layers b"]
    by (simp add: add_block_def begin_frame_def enough_def d_def d0_def Let_def)
  have part: "partial_frame [b] ?a" if e: "enough m b"
    using assms e
      copied_part [where sel = ranges and k = 0 and bs = "[]", OF e len(1) assms(4)]
      copied_part [where sel = intensities and k = 0 and bs = "[]", OF e len(2) assms(4)]
    by (auto simp: partial_frame_def part_def)
  from add part show ?thesis by auto
qed

text \<open>A decoded block has a count of at least one and a length that is not negative.\<close>

definition block_ok :: "scan_block \<Rightarrow> bool" where
  "block_ok b \<longleftrightarrow> (\<forall>c. sb_block_count b = Some c \<longrightarrow> 0 < c) \<and> (\<forall>l. sb_block_length b = Some l \<longrightarrow> 0 \<le> l)"

lemma add_first_Inr:
  assumes "expected_block_index a = 0" and "sb_block_index b = Some 0" and "block_ok b" and "add_block b a = Inr a'"
  shows "partial_frame [b] a'"
proof -
  from assms obtain c l ts fov where b: "sb_block_count b = Some c" "sb_block_length b = Some l"
    "sb_timestamp b = Some ts" "sb_angular_fov b = Some fov"
    by (auto simp: add_block_def begin_frame_def bindR_Inr_iff initialised_Inr_iff)
  with assms(3) have "c = int (nat c)" "l = int (nat l)" "0 < nat c" by (auto simp: block_ok_def)
  with b add_first [OF assms(1,2), of "nat c" "nat l" ts fov] assms(4) show ?thesis by (auto split: if_splits)
qed

text \<open>After any blocks there is no frame yet, or a partial one of the last blocks.\<close>

fun assemble :: "scan_block list \<Rightarrow> assembly \<Rightarrow> assembly res" where
  "assemble [] a = Inr a"
| "assemble (b # bs) a = (if expected_block_index a < asm_block_count a then bindR (add_block b a) (assemble bs) else Inl Divergence)"

definition some_frame :: "scan_block list \<Rightarrow> assembly \<Rightarrow> bool" where
  "some_frame bs a \<longleftrightarrow> expected_block_index a = 0 \<and> 0 < asm_block_count a \<or> (\<exists>pre last. bs = pre @ last \<and> partial_frame last a)"

lemma partial_frame_count: "partial_frame bs a \<Longrightarrow> 0 < asm_block_count a"
  by (cases bs) (auto simp: partial_frame_def)

lemma add_block_some:
  assumes "some_frame bs a" and "expected_block_index a < asm_block_count a" and "block_ok b" and "add_block b a = Inr a'"
  shows "some_frame (bs @ [b]) a'"
proof (cases "sb_block_index b = Some (expected_block_index a)")
  case False
  from add_index [OF this assms(4)] assms(1) show ?thesis by (auto simp: some_frame_def dest: partial_frame_count)
next
  case True
  show ?thesis
  proof (cases "expected_block_index a = 0")
    case True
    with \<open>sb_block_index b = _\<close> add_first_Inr [of a b a'] assms(3,4) show ?thesis
      by (auto simp: some_frame_def)
  next
    case False
    with assms(1) obtain pre last where "bs = pre @ last" "partial_frame last a" by (auto simp: some_frame_def)
    with add_next [OF this(2) assms(2) True] assms(4) show ?thesis
      by (force simp: some_frame_def split: if_splits)
  qed
qed

lemma assemble_some:
  "assemble bs a = Inr a' \<Longrightarrow> some_frame pre a \<Longrightarrow> \<forall>b \<in> set bs. block_ok b \<Longrightarrow> some_frame (pre @ bs) a'"
proof (induction bs arbitrary: pre a)
  case (Cons b bs)
  then obtain u where "expected_block_index a < asm_block_count a" "add_block b a = Inr u" "assemble bs u = Inr a'"
    by (auto simp: bindR_Inr_iff split: if_splits)
  with Cons add_block_some [of pre a b u] show ?case by (metis append.assoc append_Cons append_Nil list.set_intros(1,2))
qed simp

section \<open>The loop\<close>

text \<open>A sequence of calls of \<open>readScanBlock\<close> that succeed, with the blocks they give.\<close>

inductive reads ::
  "json_writer \<Rightarrow> json_reader \<Rightarrow> session \<Rightarrow> scan_block \<Rightarrow> io_event list list list \<Rightarrow> scan_block list \<Rightarrow> session \<Rightarrow> scan_block \<Rightarrow> bool"
  for wr rd where
  no_read: "reads wr rd s b [] [] s b"
| one_read: "read_block wr rd evss s b = Inr (s1, b1, no_error) \<Longrightarrow> reads wr rd s1 b1 evsss bs s' b' \<Longrightarrow>
    reads wr rd s b (evss # evsss) (b1 # bs) s' b'"

lemma frame_loop_reads:
  assumes "frame_loop wr rd evsss s b a = Inr (s', a', Frame_result no_error)"
  shows "\<exists>n bs b'. reads wr rd s b (take n evsss) bs s' b' \<and> assemble bs a = Inr a' \<and>
    \<not> expected_block_index a' < asm_block_count a'"
  using assms
proof (induction wr rd evsss s b a rule: frame_loop.induct)
  case (1 wr rd s b a)
  then show ?case by (intro exI [of _ 0] exI [of _ "[]"] exI [of _ b]) (auto intro: reads.intros split: if_splits)
next
  case (2 wr rd evss rest s b a)
  show ?case
  proof (cases "expected_block_index a < asm_block_count a")
    case False
    with 2(2) show ?thesis by (intro exI [of _ 0] exI [of _ "[]"] exI [of _ b]) (auto intro: reads.intros)
  next
    case True
    with 2(2) obtain s1 b1 a1 where r: "read_block wr rd evss s b = Inr (s1, b1, no_error)" "add_block b1 a = Inr a1"
      "frame_loop wr rd rest s1 b1 a1 = Inr (s', a', Frame_result no_error)"
      by (auto simp: bindR_Inr_iff split: if_splits)
    with 2(1) True obtain n bs b' where "reads wr rd s1 b1 (take n rest) bs s' b'" "assemble bs a1 = Inr a'"
      "\<not> expected_block_index a' < asm_block_count a'"
      by fastforce
    with r True show ?thesis
      by (intro exI [of _ "Suc n"] exI [of _ "b1 # bs"] exI [of _ b']) (auto intro: reads.intros)
  qed
qed

lemma frame_loop_after:
  "reads wr rd s b evsss bs s' b' \<Longrightarrow> assemble bs a = Inr a' \<Longrightarrow>
    frame_loop wr rd (evsss @ rest) s b a = frame_loop wr rd rest s' b' a'"
  by (induction arbitrary: a rule: reads.induct) (auto simp: bindR_Inr_iff split: if_splits)

lemma decode_layers_length:
  "decode_layers layers i old len = Inr (new, len') \<Longrightarrow> (\<And>l. len = Some l \<Longrightarrow> 0 \<le> l) \<Longrightarrow> len' = Some l \<Longrightarrow> 0 \<le> l"
proof (induction layers i old len arbitrary: new rule: decode_layers.induct)
  case (2 layers i d rest len)
  from 2(2) obtain layer d1 len1 new1 where
    l: "ArrayAt layers i = Inr layer" "decode_layer layer (d, len) = Inr (d1, len1)"
      "decode_layers layers (Suc i) rest len1 = Inr (new1, len')"
    by (auto simp: outcomes)
  have "0 \<le> l1" if "len1 = Some l1" for l1
    using l(2) that 2(3) by (auto simp: decode_layer_def bindR_Inr_iff Let_def split: if_splits)
  with 2(1) l 2(4) show ?case by blast
qed simp

lemma decode_block_ok:
  assumes "block_ok b" and "decode_block data b = Inr b'"
  shows "block_ok b'"
proof (cases data)
  case No_data
  with assms show ?thesis by (simp add: decode_block_def)
next
  case (Notification n)
  show ?thesis
  proof (cases "IsNull n")
    case True
    with assms Notification show ?thesis by (simp add: decode_block_def)
  next
    case False
    with assms(2) Notification obtain layers m new len where
      "decode_layers layers 0 (vector_resize m empty_data (sb_layers b)) (sb_block_length b) = Inr (new, len)"
      and b': "sb_block_count b' = Some 8" "sb_block_length b' = len"
      by (auto simp: decode_block_def decode_notification_def bindR_Inr_iff)
    from decode_layers_length [OF this(1)] assms(1) b' show ?thesis by (auto simp: block_ok_def)
  qed
next
  case (Oob_block d)
  have "0 < uint (v :: 8 word)" if "v \<noteq> 0" for v using that by (simp add: less_le uint_0_iff)
  with assms Oob_block show ?thesis
    by (auto simp: decode_block_def decode_oob_def bindR_Inr_iff block_ok_def Let_def split: if_splits)
qed

lemma reads_ok: "reads wr rd s b evsss bs s' b' \<Longrightarrow> block_ok b \<Longrightarrow> \<forall>x \<in> set bs. block_ok x"
proof (induction rule: reads.induct)
  case (one_read evss s b s1 b1 evsss bs s' b')
  obtain data where "decode_block data b = Inr b1"
    using one_read.hyps(1) by (auto simp: read_block_def bindR_Inr_iff split: if_splits)
  with one_read.prems have "block_ok b1" by (rule decode_block_ok)
  with one_read.IH show ?case by simp
qed simp

lemma assemble_skip:
  "\<forall>b \<in> set bs. \<exists>i. sb_block_index b = Some i \<and> i \<noteq> 0 \<Longrightarrow> expected_block_index a = 0 \<Longrightarrow> 0 < asm_block_count a \<Longrightarrow>
    assemble bs a = Inr a"
proof (induction bs)
  case (Cons b bs)
  then have "add_block b a = Inr (a\<lparr>expected_block_index := 0\<rparr>)" by (auto simp: add_block_def)
  moreover have "a\<lparr>expected_block_index := 0\<rparr> = a" using Cons.prems(2) by (cases a) simp
  ultimately show ?case using Cons by simp
qed simp

lemma assemble_append: "assemble (xs @ ys) a = bindR (assemble xs a) (assemble ys)"
proof (induction xs arbitrary: a)
  case (Cons x xs)
  then have "assemble (xs @ ys) = (\<lambda>a. bindR (assemble xs a) (assemble ys))" by (intro ext)
  then show ?case by (simp add: bindR_assoc)
qed simp

text \<open>The blocks of a whole frame of \<open>c\<close> blocks with \<open>m\<close> samples each.\<close>

definition whole_frame :: "nat \<Rightarrow> nat \<Rightarrow> scan_block list \<Rightarrow> bool" where
  "whole_frame c m bs \<longleftrightarrow> 0 < c \<and> length bs = c \<and> (\<forall>i < c. sb_block_index (bs ! i) = Some (int i)) \<and>
     sb_block_count (hd bs) = Some (int c) \<and> sb_block_length (hd bs) = Some (int m) \<and>
     sb_timestamp (hd bs) \<noteq> None \<and> sb_angular_fov (hd bs) \<noteq> None \<and> (\<forall>b \<in> set bs. enough m b)"

lemma assemble_whole:
  assumes w: "whole_frame c m bs" and a: "expected_block_index a = 0" "0 < asm_block_count a"
  shows "\<exists>a'. assemble bs a = Inr a' \<and> partial_frame bs a'"
proof -
  have "\<exists>a'. assemble (take k bs) a = Inr a' \<and> partial_frame (take k bs) a' \<and> asm_block_count a' = int c \<and> asm_block_length a' = int m"
    if "0 < k" "k \<le> c" for k
    using that
  proof (induction k)
    case (Suc k)
    have k: "k < length bs" using w Suc.prems by (simp add: whole_frame_def)
    then have tk: "take (Suc k) bs = take k bs @ [bs ! k]" by (simp add: take_Suc_conv_app_nth)
    have en: "enough m (bs ! k)" and ix: "sb_block_index (bs ! k) = Some (int k)"
      using w Suc.prems k by (simp_all add: whole_frame_def)
    show ?case
    proof (cases "k = 0")
      case True
      have h: "hd bs = bs ! 0" using w by (intro hd_conv_nth) (auto simp: whole_frame_def)
      obtain ts fov where "sb_timestamp (bs ! 0) = Some ts" "sb_angular_fov (bs ! 0) = Some fov"
        using w h by (auto simp: whole_frame_def)
      with add_first [OF a(1), of "bs ! 0" c m ts fov] w h en ix True obtain a' where
        "add_block (bs ! 0) a = Inr a'" "partial_frame [bs ! 0] a'"
        by (auto simp: whole_frame_def)
      with True tk a w h show ?thesis by (auto simp: whole_frame_def partial_frame_def)
    next
      case False
      with Suc obtain u where u: "assemble (take k bs) a = Inr u" "partial_frame (take k bs) u"
        "asm_block_count u = int c" "asm_block_length u = int m" by auto
      moreover from u(2) k have e: "expected_block_index u = int k" by (simp add: partial_frame_def)
      ultimately obtain a' where a': "add_block (bs ! k) u = Inr a'" "partial_frame (take k bs @ [bs ! k]) a'"
        using add_next [OF u(2), of "bs ! k"] ix en Suc.prems by auto
      moreover have "hd (take k bs @ [bs ! k]) = hd (take k bs)" using False k by (cases bs) auto
      ultimately show ?thesis using u e tk Suc.prems by (auto simp: assemble_append partial_frame_def)
    qed
  qed simp
  from this [of c] w show ?thesis by (auto simp: whole_frame_def)
qed

definition frame_of_blocks :: "nat \<Rightarrow> scan_block list \<Rightarrow> scan_frame" where
  "frame_of_blocks m bs = \<lparr>sf_timestamp = sb_timestamp (hd bs), sf_angular_fov = sb_angular_fov (hd bs),
     sf_layers = [\<lparr>ranges = part m ranges bs, intensities = part m intensities bs\<rparr>]\<rparr>"

lemma partial_complete:
  assumes p: "partial_frame bs a" and "\<not> expected_block_index a < asm_block_count a"
  shows "whole_frame (length bs) (nat (asm_block_length a)) bs \<and> frame a = frame_of_blocks (nat (asm_block_length a)) bs"
proof -
  let ?m = "nat (asm_block_length a)"
  have c: "asm_block_count a = int (length bs)" using assms by (auto simp: partial_frame_def)
  with p obtain d where d: "sf_layers (frame a) = [d]" "length (ranges d) = length bs * ?m" "length (intensities d) = length bs * ?m"
    "take (length bs * ?m) (ranges d) = part ?m ranges bs" "take (length bs * ?m) (intensities d) = part ?m intensities bs"
    by (auto simp: partial_frame_def)
  then have "ranges d = part ?m ranges bs" "intensities d = part ?m intensities bs" by simp_all
  with d(1) p have "frame a = frame_of_blocks ?m bs"
    by (cases "frame a"; cases d) (simp add: partial_frame_def frame_of_blocks_def)
  with p c show ?thesis by (auto simp: partial_frame_def whole_frame_def)
qed

lemma read_frame_whole:
  assumes "reads wr rd s ScanBlock evsss (pre @ blocks) s' b'"
    and "\<forall>b \<in> set pre. \<exists>i. sb_block_index b = Some i \<and> i \<noteq> 0" and "whole_frame c m blocks"
  shows "read_frame wr rd (evsss @ rest) s f = Inr (s', frame_of_blocks m blocks, Frame_result no_error)"
proof -
  have a: "expected_block_index (start_assembly f) = 0" "0 < asm_block_count (start_assembly f)"
    by (simp_all add: start_assembly_def INT_MAX_def)
  from assemble_whole [OF assms(3) a] obtain a' where w: "assemble blocks (start_assembly f) = Inr a'" "partial_frame blocks a'" by blast
  then have "assemble (pre @ blocks) (start_assembly f) = Inr a'"
    using assemble_skip [OF assms(2) a] by (simp add: assemble_append)
  from frame_loop_after [OF assms(1) this, of rest]
  have l: "frame_loop wr rd (evsss @ rest) s ScanBlock (start_assembly f) = frame_loop wr rd rest s' b' a'" .
  have "hd blocks = blocks ! 0" using assms(3) by (intro hd_conv_nth) (auto simp: whole_frame_def)
  with w(2) assms(3) have n: "\<not> expected_block_index a' < asm_block_count a'" "nat (asm_block_length a') = m"
    by (auto simp: partial_frame_def whole_frame_def)
  with l have "frame_loop wr rd (evsss @ rest) s ScanBlock (start_assembly f) = Inr (s', a', Frame_result no_error)"
    by (cases rest) simp_all
  with partial_complete [OF w(2) n(1)] n(2) show ?thesis by (simp add: read_frame_def)
qed

section \<open>A packet for the witnesses\<close>

definition packet_example :: "byte list" where
  "packet_example = [0xFF, 0xFF, 0, 0, 0, 1, 1, 0, 0, 0, 0, 0, 0, 0, 0, 1, 0x34, 0x12, 9]"

definition block_example :: "int \<Rightarrow> int \<Rightarrow> scan_block" where
  "block_example i c = \<lparr>sb_block_index = Some i, sb_block_count = Some c, sb_block_length = Some 1, sb_timestamp = Some 0,
     sb_angular_fov = Some ANGULAR_FOV_360DEG, sb_layers = [\<lparr>ranges = [0x1234], intensities = [9]\<rparr>]\<rparr>"

definition receiving_example :: session where
  "receiving_example = Session\<lparr>scan_block_queue_oob := [packet_example]\<rparr>"

lemma decode_packet_example: "decode_oob packet_example b = Inr (block_example 0 1)"
  by (simp add: decode_oob_def oob_samples sample_of_def sample_width_def packet_example_def sizeof_OobPacketHeader_def header_of_def
      le16_def le32_def intensity_width_def flag_angular_fov_def INTENSITY_WIDTH_8BIT_def block_example_def Let_def)

lemma read_block_example:
  "read_block wr_example rd_example [] receiving_example ScanBlock = Inr (Session, block_example 0 1, no_error)"
proof -
  have "packet_example \<noteq> []" by (simp add: packet_example_def)
  then have "decode_block (Oob_block packet_example) ScanBlock = Inr (block_example 0 1)"
    by (simp add: decode_block_def decode_packet_example)
  moreover have "pollForScanBlock wr_example rd_example [] receiving_example = Inr (Session, no_error, Oob_block packet_example)"
    by (simp add: pollForScanBlock_def block_ready_def receiving_example_def front_block_def) (simp add: Session_def)
  ultimately show ?thesis by (simp add: read_block_def)
qed

section \<open>Properties\<close>

text \<open>
  C18: An out-of-band packet with a whole header is decoded to the block its header announces, with the samples of
  its payload, when the payload is as long as the announced number of samples needs; when it is shorter, the
  decoder reads past the end of the packet: nothing compares the two.
\<close>

theorem decode_oob_outcome:
  assumes "sizeof_OobPacketHeader \<le> length d"
  shows "decode_oob d b =
    (let h = header_of d; len = unat (OobPacketHeader.block_length h); w = (if intensity_width h = 0 then 1 else 2) in
     if len = 0 \<or> sizeof_OobPacketHeader + 2 * len + w * len \<le> length d then
       Inr \<lparr>sb_block_index = Some (uint (OobPacketHeader.block_index h)),
         sb_block_count = Some (if OobPacketHeader.block_count h = 0 then 8 else uint (OobPacketHeader.block_count h)),
         sb_block_length = Some (int len), sb_timestamp = Some (OobPacketHeader.timestamp h),
         sb_angular_fov = Some (if flag_angular_fov h = 0 then ANGULAR_FOV_270DEG else ANGULAR_FOV_360DEG),
         sb_layers = [\<lparr>ranges = map (\<lambda>i. uint (le16 (d ! (16 + 2 * i)) (d ! (17 + 2 * i)))) [0..<len],
           intensities = map (\<lambda>i. if w = 1 then uint (d ! (16 + 2 * len + i))
             else uint (le16 (d ! (16 + 2 * len + 2 * i)) (d ! (17 + 2 * len + 2 * i)))) [0..<len]\<rparr>]\<rparr>
     else Inl Out_of_bounds)"
proof -
  have w: "sample_width d = (if intensity_width (header_of d) = 0 then 1 else 2)"
    by (simp add: sample_width_def INTENSITY_WIDTH_8BIT_def)
  show ?thesis
    using assms
    by (simp add: decode_oob_def oob_samples sizeof_OobPacketHeader_def sample_of_def w Let_def comp_def)
qed

theorem decode_oob_outcome_witness: "decode_oob packet_example ScanBlock = Inr (block_example 0 1)"
  using decode_oob_outcome [of packet_example ScanBlock]
  by (simp add: packet_example_def sizeof_OobPacketHeader_def header_of_def le16_def le32_def intensity_width_def
      flag_angular_fov_def block_example_def Let_def)

text \<open>
  C25: A scan notification is decoded to what the device encoded: the block number, the timestamp modulo 2^32, and
  for every layer the ranges (little-endian 16-bit numbers in Base64) and intensities (bytes in Base64).
\<close>

theorem decode_notification_round_trip:
  assumes "- (2 ^ 31) \<le> k" "k < 2 ^ 31" and "- (2 ^ 63) \<le> ts" "ts < 2 ^ 63"
    and "ls \<noteq> []" and "\<forall>l \<in> set ls. fst l \<noteq> [] \<and> snd l \<noteq> []"
  shows "decode_notification (JObject [(''method'', JString ''notification/laserScan''),
      (''params'', JObject [(''block'', JInt k), (''timestamp'', JInt ts), (''layers'', JArray (map layer_json ls))])]) b =
    Inr \<lparr>sb_block_index = Some k, sb_block_count = Some 8, sb_block_length = Some (int (length (fst (last ls)))),
      sb_timestamp = Some (word_of_int ts), sb_angular_fov = Some ANGULAR_FOV_270DEG, sb_layers = map layer_data ls\<rparr>"
  using assms decode_layers_json [of ls "vector_resize (length ls) empty_data (sb_layers b)" "[]" "sb_block_length b"]
  by (simp add: decode_notification_def GetInt64_def ArraySize_def)

theorem decode_notification_round_trip_witness:
  "decode_notification (JObject [(''method'', JString ''notification/laserScan''),
      (''params'', JObject [(''block'', JInt 3), (''timestamp'', JInt 70), (''layers'', JArray [layer_json ([1, 2], [9, 8])])])]) ScanBlock =
    Inr \<lparr>sb_block_index = Some 3, sb_block_count = Some 8, sb_block_length = Some 2,
      sb_timestamp = Some 70, sb_angular_fov = Some ANGULAR_FOV_270DEG, sb_layers = [\<lparr>ranges = [1, 2], intensities = [9, 8]\<rparr>]\<rparr>"
  using decode_notification_round_trip [of 3 70 "[([1, 2], [9, 8])]" ScanBlock] by (simp add: layer_data_def)

text \<open>
  C3: When \<open>readScanFrame\<close> returns \<open>no_error\<close>, the last blocks it read are the blocks 0, 1, ..., c - 1 of a frame, in
  this order and without another block in between, c is the count of the first of them, and the frame has its
  timestamp and field of view and consists of the first m samples of each of them, m being the length of the first.
\<close>

theorem read_frame_sound:
  assumes "read_frame wr rd evsss s f = Inr (s', f', Frame_result no_error)"
  shows "\<exists>n pre blocks c m b'. reads wr rd s ScanBlock (take n evsss) (pre @ blocks) s' b' \<and>
    whole_frame c m blocks \<and> f' = frame_of_blocks m blocks"
proof -
  from assms obtain a' where l: "frame_loop wr rd evsss s ScanBlock (start_assembly f) = Inr (s', a', Frame_result no_error)"
    and f': "f' = frame a'"
    by (auto simp: read_frame_def bindR_Inr_iff)
  from frame_loop_reads [OF l] obtain n bs b' where r: "reads wr rd s ScanBlock (take n evsss) bs s' b'"
    "assemble bs (start_assembly f) = Inr a'" "\<not> expected_block_index a' < asm_block_count a'" by blast
  have "some_frame [] (start_assembly f)" by (simp add: some_frame_def start_assembly_def INT_MAX_def)
  moreover have "\<forall>x \<in> set bs. block_ok x" using reads_ok [OF r(1)] by (simp add: block_ok_def ScanBlock_def)
  ultimately have "some_frame bs a'" using assemble_some [OF r(2), of "[]"] by simp
  then obtain pre blocks where "bs = pre @ blocks" "partial_frame blocks a'" using r(3) by (auto simp: some_frame_def)
  with partial_complete [OF this(2) r(3)] r(1) f' show ?thesis by blast
qed

theorem read_frame_sound_witness:
  "\<exists>n pre blocks c m b'. reads wr_example rd_example receiving_example ScanBlock (take n [[]]) (pre @ blocks) Session b' \<and>
    whole_frame c m blocks \<and>
    \<lparr>sf_timestamp = Some 0, sf_angular_fov = Some ANGULAR_FOV_360DEG, sf_layers = [\<lparr>ranges = [0x1234], intensities = [9]\<rparr>]\<rparr> =
      frame_of_blocks m blocks"
proof -
  have "read_frame wr_example rd_example [[]] receiving_example \<lparr>sf_timestamp = None, sf_angular_fov = None, sf_layers = []\<rparr> =
      Inr (Session, \<lparr>sf_timestamp = Some 0, sf_angular_fov = Some ANGULAR_FOV_360DEG,
        sf_layers = [\<lparr>ranges = [0x1234], intensities = [9]\<rparr>]\<rparr>, Frame_result no_error)"
    by (simp add: read_frame_def start_assembly_def INT_MAX_def read_block_example add_block_def begin_frame_def block_example_def empty_data_def
        vector_resize_def vector_at_def vector_set_def Let_def)
  from read_frame_sound [OF this] show ?thesis .
qed

text \<open>
  C17: A whole frame is found: when the blocks that can be read are, after any blocks of another frame that is joined in
  the middle, the blocks of a whole frame, \<open>readScanFrame\<close> returns it with \<open>no_error\<close> after exactly these reads.
\<close>

theorem read_frame_complete:
  assumes "reads wr rd s ScanBlock evsss (pre @ blocks) s' b'"
    and "\<forall>b \<in> set pre. \<exists>i. sb_block_index b = Some i \<and> i \<noteq> 0" and "whole_frame c m blocks"
  shows "read_frame wr rd (evsss @ rest) s f = Inr (s', frame_of_blocks m blocks, Frame_result no_error)"
  using assms by (rule read_frame_whole)

theorem read_frame_complete_witness:
  "\<exists>f. read_frame wr_example rd_example [[]] receiving_example \<lparr>sf_timestamp = None, sf_angular_fov = None, sf_layers = []\<rparr> =
    Inr (Session, f, Frame_result no_error)"
proof -
  have r: "reads wr_example rd_example receiving_example ScanBlock [[]] ([] @ [block_example 0 1]) Session (block_example 0 1)"
    using read_block_example by (auto intro: reads.intros)
  have "whole_frame 1 1 [block_example 0 1]" by (simp add: whole_frame_def block_example_def enough_def)
  from read_frame_complete [OF r _ this, of "[]"] show ?thesis by auto
qed

text \<open>
  A block that does not have the expected index is dropped even when it is the first block of the next frame: after
  a lost block the whole next frame is lost, too.
\<close>

lemma restart_loses_frame:
  "\<exists>a. assemble [block_example 0 2, block_example 0 2, block_example 1 2] (start_assembly f) = Inr a \<and> expected_block_index a = 0"
  by (simp add: start_assembly_def INT_MAX_def add_block_def begin_frame_def block_example_def
      vector_at_def vector_set_def Let_def)

text \<open>
  The frame number of a packet has no influence on its block: blocks of different frames are put together when
  their indices fit.
\<close>

lemma frame_index_ignored: "decode_oob (d[2 := x, 3 := y]) b = decode_oob d b"
proof -
  let ?d = "d[2 := x, 3 := y]"
  have load: "loadR ?d j = loadR d j" if "16 \<le> j" for j using that by (simp add: loadR_def)
  have flags: "header_of ?d = (header_of d)\<lparr>frame_index := OobPacketHeader.frame_index (header_of ?d)\<rparr>"
    by (simp add: header_of_def)
  then have "intensity_width (header_of ?d) = intensity_width (header_of d)"
    by (metis (no_types, lifting) intensity_width_def OobPacketHeader.select_convs(8) OobPacketHeader.update_convs(2) OobPacketHeader.surjective)
  then have "oob_sample ?d len i = oob_sample d len i" for len i
    by (simp add: oob_sample_def payload16_def payload8_def load sizeof_OobPacketHeader_def Let_def)
  then have "oob_sample ?d = oob_sample d" by (intro ext)
  with flags show ?thesis
    by (simp add: decode_oob_def flag_angular_fov_def header_of_def Let_def)
qed

end
