(* ===== verification/Device.thy ===== *)
theory Device
  imports Device_Base Scan
begin

text \<open>
  \<open>Device\<close> of src/device.cpp: every command of the SDK for a running device, \<open>Device::open\<close> with the
  set-up of the out-of-band socket, and the two readers of scan data.  An output argument of a
  command is \<open>Some\<close> value where the code assigns it.
\<close>

section \<open>Constructors\<close>

definition Device_of_info :: "device_info \<Rightarrow> device res" where
  "Device_of_info info = DeviceBase_info info"

definition Device_of_location :: "location \<Rightarrow> device" where
  "Device_of_location l = DeviceBase l"

definition Device_of_base :: "device \<Rightarrow> device \<times> device" where
  "Device_of_base other = DeviceBase_move other"

section \<open>Information and control\<close>

definition queryModel :: "exec \<Rightarrow> device \<Rightarrow> (device \<times> error_t \<times> string option) res" where
  "queryModel exec d = query exec (request_entry ''device/queryInfo'' ''identity.model'') decode_string d"

definition querySerial :: "exec \<Rightarrow> device \<Rightarrow> (device \<times> error_t \<times> string option) res" where
  "querySerial exec d = query exec (request_entry ''device/queryInfo'' ''identity.serial'') decode_string d"

definition queryFirmwareVersion :: "exec \<Rightarrow> device \<Rightarrow> (device \<times> error_t \<times> string option) res" where
  "queryFirmwareVersion exec d = query exec (request_entry ''device/queryInfo'' ''version.firmware'') decode_string d"

definition queryHardwareVersion :: "exec \<Rightarrow> device \<Rightarrow> (device \<times> error_t \<times> string option) res" where
  "queryHardwareVersion exec d = query exec (request_entry ''device/queryInfo'' ''version.hardware'') decode_string d"

definition queryState :: "exec \<Rightarrow> device \<Rightarrow> (device \<times> error_t \<times> string option) res" where
  "queryState exec d = query exec (request_entry ''device/queryInfo'' ''status.state'') decode_string d"

definition queryMotorFrequency :: "exec \<Rightarrow> device \<Rightarrow> (device \<times> error_t \<times> rat option) res" where
  "queryMotorFrequency exec d = query exec (request_entry ''device/queryInfo'' ''status.motorFrequency'') GetDouble d"

definition decode_timestamp :: "json \<Rightarrow> 32 word res" where
  "decode_timestamp v = bindR (GetInt64 v) (\<lambda>n. Inr (word_of_int n))"

definition readTimestamp :: "exec \<Rightarrow> device \<Rightarrow> (device \<times> error_t \<times> 32 word option) res" where
  "readTimestamp exec d = query exec (request_method ''device/readTimestamp'') decode_timestamp d"

definition resetTimestamp :: "exec \<Rightarrow> device \<Rightarrow> (device \<times> error_t) res" where
  "resetTimestamp exec d = perform exec (request_method ''device/resetTimestamp'') d"

definition startMeasurement :: "exec \<Rightarrow> device \<Rightarrow> (device \<times> error_t) res" where
  "startMeasurement exec d = perform exec (request_method ''scan/startMeasurement'') d"

definition stopMeasurement :: "exec \<Rightarrow> device \<Rightarrow> (device \<times> error_t) res" where
  "stopMeasurement exec d = perform exec (request_method ''scan/stopMeasurement'') d"

definition startStreaming :: "exec \<Rightarrow> device \<Rightarrow> (device \<times> error_t) res" where
  "startStreaming exec d = perform exec (request_method ''scan/startStreaming'') d"

definition stopStreaming :: "exec \<Rightarrow> device \<Rightarrow> (device \<times> error_t) res" where
  "stopStreaming exec d = perform exec (request_method ''scan/stopStreaming'') d"

section \<open>Reading settings\<close>

text \<open>
  \<open>stoi(value.substr(i * 3, 2), nullptr, 16)\<close> for each of the six bytes; both calls may throw.  The result
  is cut to a byte.
\<close>

definition mac_byte :: "string \<Rightarrow> nat \<Rightarrow> byte res" where
  "mac_byte s i =
     (if length s < i * 3 then Inl (Uncaught ''out_of_range'')
      else case stoi16 (take 2 (drop (i * 3) s)) of
        None \<Rightarrow> Inl (Uncaught ''stoi'')
      | Some n \<Rightarrow> Inr (word_of_int n))"

definition decode_mac :: "json \<Rightarrow> byte list res" where
  "decode_mac v = bindR (decode_string v) (\<lambda>s. mapR (mac_byte s) [0..<6])"

definition getUserMacAddress :: "exec \<Rightarrow> device \<Rightarrow> (device \<times> error_t \<times> byte list option) res" where
  "getUserMacAddress exec d = query exec (request_entry ''settings/get'' ''connectivity.network.mac'') decode_mac d"

text \<open>
  Asio's conversions of IPv4 addresses are parameters: \<open>pton\<close> is \<open>address_v4::from_string(...).to_uint()\<close>,
  \<open>None\<close> where it throws, \<open>ntop\<close> is \<open>address_v4(...).to_string()\<close>.
\<close>

type_synonym pton = "string \<Rightarrow> 32 word option"
type_synonym ntop = "32 word \<Rightarrow> string"

definition decode_address :: "pton \<Rightarrow> json \<Rightarrow> in_addr_t res" where
  "decode_address pton v =
     bindR (decode_string v) (\<lambda>s. case pton s of None \<Rightarrow> Inl (Uncaught ''system_error'') | Some a \<Rightarrow> Inr (htonl a))"

definition getNetworkAddress :: "pton \<Rightarrow> exec \<Rightarrow> device \<Rightarrow> (device \<times> error_t \<times> in_addr_t option) res" where
  "getNetworkAddress pton exec d = query exec (request_entry ''settings/get'' ''connectivity.network.ipv4.address'') (decode_address pton) d"

definition getSubnetMask :: "pton \<Rightarrow> exec \<Rightarrow> device \<Rightarrow> (device \<times> error_t \<times> in_addr_t option) res" where
  "getSubnetMask pton exec d = query exec (request_entry ''settings/get'' ''connectivity.network.ipv4.subnet'') (decode_address pton) d"

definition getHostName :: "exec \<Rightarrow> device \<Rightarrow> (device \<times> error_t \<times> string option) res" where
  "getHostName exec d = query exec (request_entry ''settings/get'' ''connectivity.network.hostName'') decode_string d"

definition getScanFrequency :: "exec \<Rightarrow> device \<Rightarrow> (device \<times> error_t \<times> int option) res" where
  "getScanFrequency exec d = query exec (request_entry ''settings/get'' ''scan.frequency'') GetInt d"

definition isShadowFilterEnabled :: "exec \<Rightarrow> device \<Rightarrow> (device \<times> error_t \<times> bool option) res" where
  "isShadowFilterEnabled exec d = query exec (request_entry ''settings/get'' ''filters.shadowFilter.enabled'') GetBool d"

definition getShadowFilterStrength :: "exec \<Rightarrow> device \<Rightarrow> (device \<times> error_t \<times> int option) res" where
  "getShadowFilterStrength exec d = query exec (request_entry ''settings/get'' ''filters.shadowFilter.strength'') GetInt d"

definition isOobEnabled :: "exec \<Rightarrow> device \<Rightarrow> (device \<times> error_t \<times> bool option) res" where
  "isOobEnabled exec d = query exec (request_entry ''settings/get'' ''transport.oob.enabled'') GetBool d"

definition getOobAutoStartStreaming :: "exec \<Rightarrow> device \<Rightarrow> (device \<times> error_t \<times> bool option) res" where
  "getOobAutoStartStreaming exec d = query exec (request_entry ''settings/get'' ''transport.oob.autoStartStreaming'') GetBool d"

definition getOobTargetAddress :: "pton \<Rightarrow> exec \<Rightarrow> device \<Rightarrow> (device \<times> error_t \<times> in_addr_t option) res" where
  "getOobTargetAddress pton exec d = query exec (request_entry ''settings/get'' ''transport.oob.targetAddress'') (decode_address pton) d"

definition decode_port :: "json \<Rightarrow> in_port_t res" where
  "decode_port v = bindR (GetInt v) (\<lambda>n. Inr (htons (word_of_int n)))"

definition getOobTargetPort :: "exec \<Rightarrow> device \<Rightarrow> (device \<times> error_t \<times> in_port_t option) res" where
  "getOobTargetPort exec d = query exec (request_entry ''settings/get'' ''transport.oob.targetPort'') decode_port d"

text \<open>
  The scan resolution and the field of view are requested in a different way: the members are appended
  to the empty request, which already has a member \<open>method\<close>.
\<close>

definition request_appended :: "string \<Rightarrow> (string \<times> json) list \<Rightarrow> json res" where
  "request_appended m params =
     bindR (AddMember createEmptyRequestObject ''method'' (JString m)) (\<lambda>r. AddMember r ''params'' (JObject params))"

definition resolution_of :: "string \<Rightarrow> scan_resolution_t option" where
  "resolution_of s =
     (if s = ''120k'' then Some SCAN_RESOLUTION_120K
      else if s = ''90k'' then Some SCAN_RESOLUTION_90K
      else if s = ''60k'' then Some SCAN_RESOLUTION_60K
      else if s = ''30k'' then Some SCAN_RESOLUTION_30K
      else if s = ''15k'' then Some SCAN_RESOLUTION_15K
      else None)"

definition angular_fov_of :: "string \<Rightarrow> angular_fov_t option" where
  "angular_fov_of s =
     (if s = ''270deg'' then Some ANGULAR_FOV_270DEG else if s = ''360deg'' then Some ANGULAR_FOV_360DEG else None)"

text \<open>A name that is not known turns the result into \<open>device_error\<close>.\<close>

definition named :: "(string \<Rightarrow> 'a option) \<Rightarrow> device \<times> error_t \<times> string option \<Rightarrow> (device \<times> error_t \<times> 'a option) res" where
  "named f r = (case r of (d, result, name) \<Rightarrow>
     Inr (case name of
         None \<Rightarrow> (d, result, None)
       | Some s \<Rightarrow> (case f s of Some x \<Rightarrow> (d, result, Some x) | None \<Rightarrow> (d, device_error, None))))"

definition getScanResolution :: "exec \<Rightarrow> device \<Rightarrow> (device \<times> error_t \<times> scan_resolution_t option) res" where
  "getScanResolution exec d =
     bindR (query exec (request_appended ''settings/read'' [(''entry'', JString ''scan.resolution'')]) decode_string d)
       (named resolution_of)"

definition getAngularFov :: "exec \<Rightarrow> device \<Rightarrow> (device \<times> error_t \<times> angular_fov_t option) res" where
  "getAngularFov exec d =
     bindR (query exec (request_appended ''settings/read'' [(''entry'', JString ''scan.angularFov'')]) decode_string d)
       (named angular_fov_of)"

section \<open>Writing settings\<close>

definition mac_string :: "byte list \<Rightarrow> string" where
  "mac_string a = hex_string 2 (unat (a ! 0)) @ concat (map (\<lambda>i. CHR '':'' # hex_string 2 (unat (a ! i))) [1..<6])"

text \<open>The array of the caller has six bytes, or is read past its end.\<close>

definition setUserMacAddress :: "exec \<Rightarrow> byte list \<Rightarrow> device \<Rightarrow> (device \<times> error_t) res" where
  "setUserMacAddress exec addr d =
     (if length addr < 6 then Inl Out_of_bounds
      else perform exec (request_value ''settings/set'' ''connectivity.network.mac'' (JString (mac_string addr))) d)"

definition setNetworkAddress :: "ntop \<Rightarrow> exec \<Rightarrow> in_addr_t \<Rightarrow> device \<Rightarrow> (device \<times> error_t) res" where
  "setNetworkAddress ntop exec addr d =
     perform exec (request_value ''settings/set'' ''connectivity.network.ipv4.address'' (JString (c_str (ntop (ntohl addr))))) d"

definition setSubnetMask :: "ntop \<Rightarrow> exec \<Rightarrow> in_addr_t \<Rightarrow> device \<Rightarrow> (device \<times> error_t) res" where
  "setSubnetMask ntop exec subnet d =
     perform exec (request_value ''settings/set'' ''connectivity.network.ipv4.subnet'' (JString (c_str (ntop (ntohl subnet))))) d"

definition setHostName :: "exec \<Rightarrow> string \<Rightarrow> device \<Rightarrow> (device \<times> error_t) res" where
  "setHostName exec host_name d =
     perform exec (request_value ''settings/set'' ''connectivity.network.hostName'' (JString (c_str host_name))) d"

definition setScanFrequency :: "exec \<Rightarrow> int \<Rightarrow> device \<Rightarrow> (device \<times> error_t) res" where
  "setScanFrequency exec frequency d =
     perform exec (request_value ''settings/set'' ''scan.frequency'' (JInt frequency)) d"

definition setShadowFilterEnabled :: "exec \<Rightarrow> bool \<Rightarrow> device \<Rightarrow> (device \<times> error_t) res" where
  "setShadowFilterEnabled exec enabled d =
     perform exec (request_value ''settings/set'' ''filters.shadowFilter.enabled'' (JBool enabled)) d"

definition setShadowFilterStrength :: "exec \<Rightarrow> int \<Rightarrow> device \<Rightarrow> (device \<times> error_t) res" where
  "setShadowFilterStrength exec strength d =
     perform exec (request_value ''settings/set'' ''filters.shadowFilter.strength'' (JInt strength)) d"

definition setOobEnabled :: "exec \<Rightarrow> bool \<Rightarrow> device \<Rightarrow> (device \<times> error_t) res" where
  "setOobEnabled exec enabled d =
     perform exec (request_value ''settings/set'' ''transport.oob.enabled'' (JBool enabled)) d"

definition setOobAutoStartStreaming :: "exec \<Rightarrow> bool \<Rightarrow> device \<Rightarrow> (device \<times> error_t) res" where
  "setOobAutoStartStreaming exec enabled d =
     perform exec (request_value ''settings/set'' ''transport.oob.autoStartStreaming'' (JBool enabled)) d"

definition setOobTargetAddress :: "ntop \<Rightarrow> exec \<Rightarrow> in_addr_t \<Rightarrow> device \<Rightarrow> (device \<times> error_t) res" where
  "setOobTargetAddress ntop exec addr d =
     perform exec (request_value ''settings/set'' ''transport.oob.targetAddress'' (JString (c_str (ntop (ntohl addr))))) d"

definition setOobTargetPort :: "exec \<Rightarrow> in_port_t \<Rightarrow> device \<Rightarrow> (device \<times> error_t) res" where
  "setOobTargetPort exec target_port d =
     perform exec (request_value ''settings/set'' ''transport.oob.targetPort'' (JInt (uint (ntohs target_port)))) d"

definition resolution_name :: "scan_resolution_t \<Rightarrow> string" where
  "resolution_name r =
     (case r of
        SCAN_RESOLUTION_120K \<Rightarrow> ''120k''
      | SCAN_RESOLUTION_90K \<Rightarrow> ''90k''
      | SCAN_RESOLUTION_60K \<Rightarrow> ''60k''
      | SCAN_RESOLUTION_30K \<Rightarrow> ''30k''
      | SCAN_RESOLUTION_15K \<Rightarrow> ''15k'')"

definition setScanResolution :: "exec \<Rightarrow> scan_resolution_t \<Rightarrow> device \<Rightarrow> (device \<times> error_t) res" where
  "setScanResolution exec resolution d =
     perform exec (request_appended ''settings/write''
       [(''entry'', JString ''scan.resolution''), (''value'', JString (resolution_name resolution))]) d"

definition angular_fov_name :: "angular_fov_t \<Rightarrow> string" where
  "angular_fov_name f = (case f of ANGULAR_FOV_270DEG \<Rightarrow> ''270deg'' | ANGULAR_FOV_360DEG \<Rightarrow> ''360deg'')"

definition setAngularFov :: "exec \<Rightarrow> angular_fov_t \<Rightarrow> device \<Rightarrow> (device \<times> error_t) res" where
  "setAngularFov exec angular_fov d =
     perform exec (request_appended ''settings/write''
       [(''entry'', JString ''scan.angularFov''), (''value'', JString (angular_fov_name angular_fov))]) d"

definition persistSettings :: "exec \<Rightarrow> device \<Rightarrow> (device \<times> error_t) res" where
  "persistSettings exec d = perform exec (request_method ''settings/persist'') d"

definition rebootToBootloader :: "json_writer \<Rightarrow> device \<Rightarrow> (device \<times> unit) res" where
  "rebootToBootloader wr d = post wr (request_method ''device/rebootToBootloader'') d"

section \<open>Opening\<close>

text \<open>
  \<open>exec1\<close> and \<open>exec2\<close> run the two queries, \<open>outcome\<close>, \<open>bind_result\<close> and \<open>shutdown_result\<close> are what asio reports for the
  connection, the bind of the datagram socket and the shutdown.
\<close>

definition INADDR_ANY :: "32 word" where
  "INADDR_ANY = 0"

definition open_oob :: "exec \<Rightarrow> asio_error option \<Rightarrow> asio_error option \<Rightarrow> device \<Rightarrow> (device \<times> error_t) res" where
  "open_oob exec bind_result shutdown_result d =
     bindR (getOobTargetPort exec d) (\<lambda>(d, e, target_port).
       if e = no_error then
         bindR (on_session (enableOobTransport (NetworkLocation (htonl INADDR_ANY)
             (case target_port of Some p \<Rightarrow> p | None \<Rightarrow> 0)) bind_result) d) (\<lambda>(d, result).
           if result \<noteq> no_error then bindR (device_close shutdown_result d) (\<lambda>(d, _). Inr (d, result))
           else Inr (d, result))
       else bindR (device_close shutdown_result d) (\<lambda>(d, _). Inr (d, unknown)))"

definition Device_open ::
  "exec \<Rightarrow> exec \<Rightarrow> asio_error option option \<Rightarrow> asio_error option \<Rightarrow> asio_error option \<Rightarrow> device \<Rightarrow> (device \<times> error_t) res" where
  "Device_open exec1 exec2 outcome bind_result shutdown_result d =
     bindR (base_open outcome d) (\<lambda>(d, result).
       if result = no_error then
         bindR (isOobEnabled exec1 d) (\<lambda>(d, e, oob_enabled).
           if e = no_error \<and> oob_enabled = Some True then open_oob exec2 bind_result shutdown_result d
           else Inr (d, result))
       else Inr (d, result))"

section \<open>Scan data\<close>

definition readScanBlock ::
  "json_writer \<Rightarrow> json_reader \<Rightarrow> io_event list list \<Rightarrow> scan_block \<Rightarrow> device \<Rightarrow> (device \<times> scan_block \<times> error_t) res" where
  "readScanBlock wr rd evss b d = on_session (\<lambda>s. read_block wr rd evss s b) d"

definition readScanFrame ::
  "json_writer \<Rightarrow> json_reader \<Rightarrow> io_event list list list \<Rightarrow> scan_frame \<Rightarrow> device \<Rightarrow> (device \<times> scan_frame \<times> frame_result) res" where
  "readScanFrame wr rd evsss f d = on_session (\<lambda>s. read_frame wr rd evsss s f) d"

section \<open>What is written can be read back\<close>

text \<open>
  \<open>write_request\<close> and \<open>read_request\<close> build the requests for a setting.  Whatever executes the requests: the setter sends a value
  \<open>v\<close>, and the getter gives \<open>x\<close> when the device answers with \<open>v\<close>.
\<close>

definition round_trips ::
  "(json \<Rightarrow> json res) \<Rightarrow> json res \<Rightarrow> (exec \<Rightarrow> device \<Rightarrow> (device \<times> error_t) res) \<Rightarrow>
    (exec \<Rightarrow> device \<Rightarrow> (device \<times> error_t \<times> 'a option) res) \<Rightarrow> 'a \<Rightarrow> bool" where
  "round_trips write_request read_request setter getter x \<longleftrightarrow>
     (\<exists>v. (\<forall>exec d. setter exec d = perform exec (write_request v) d) \<and>
       (\<forall>exec d d' response. execute exec read_request d = Inr (d', no_error, response) \<longrightarrow> member response ''result'' = Inr v \<longrightarrow>
          getter exec d = Inr (d', no_error, Some x)))"

lemma round_tripsI:
  assumes "\<And>exec d. setter exec d = perform exec (write_request v) d" and "\<And>exec d. getter exec d = query exec read_request decode d"
    and "decode v = Inr x"
  shows "round_trips write_request read_request setter getter x"
  unfolding round_trips_def by (rule exI [of _ v]) (use assms in \<open>simp add: query_def\<close>)

lemma round_trips_namedI:
  assumes "\<And>exec d. setter exec d = perform exec (write_request v) d"
    and "\<And>exec d. getter exec d = bindR (query exec read_request decode_string d) (named f)"
    and "decode_string v = Inr s" and "f s = Some x"
  shows "round_trips write_request read_request setter getter x"
  unfolding round_trips_def by (rule exI [of _ v]) (use assms in \<open>simp add: query_def named_def\<close>)

lemmas setting_defs = setHostName_def getHostName_def setScanFrequency_def getScanFrequency_def setShadowFilterEnabled_def
  isShadowFilterEnabled_def setShadowFilterStrength_def getShadowFilterStrength_def setOobEnabled_def isOobEnabled_def
  setOobAutoStartStreaming_def getOobAutoStartStreaming_def setOobTargetPort_def getOobTargetPort_def
  setScanResolution_def getScanResolution_def setAngularFov_def getAngularFov_def

lemmas address_defs = setNetworkAddress_def getNetworkAddress_def setSubnetMask_def getSubnetMask_def
  setOobTargetAddress_def getOobTargetAddress_def

lemma stoi16_hex2: "stoi16 (hex_string 2 (unat (b :: byte))) = Some (int (unat b))"
proof -
  have "unat b < 16 ^ 2" using unsigned_less [of b] by simp
  obtain c d where cd: "hex_string 2 (unat b) = [c, d]" using length_hex_string [of 2 "unat b"]
    by (cases "hex_string 2 (unat b)"; cases "tl (hex_string 2 (unat b))") auto
  have "c = hex_digit (unat b div 16 mod 16)" using cd by (simp add: numeral_2_eq_2)
  with hex_digit_table [of "unat b div 16 mod 16"] have c: "c \<noteq> CHR ''-''" "c \<noteq> CHR ''+''" "\<not> is_space c" by auto
  have xd: "is_xdigit c" "is_xdigit d" "xdigits_value [c, d] = unat b"
    using xdigits_hex_string(1) [of "unat b" 2] xdigits_hex_string(2) [of 2 "unat b"] \<open>unat b < 16 ^ 2\<close> cd by auto
  have sgn: "(case [c, d] of CHR ''-'' # r \<Rightarrow> (True, r) | CHR ''+'' # r \<Rightarrow> (False, r) | b \<Rightarrow> (False, b)) = (False, [c, d])"
    using c(1,2) by (auto split: char.splits bool.splits)
  have pre: "(case [c, d] of CHR ''0'' # x # y # r \<Rightarrow>
      if (x = CHR ''x'' \<or> x = CHR ''X'') \<and> is_xdigit y then y # r else [c, d] | _ \<Rightarrow> [c, d]) = [c, d]"
    by (simp split: char.split bool.split)
  have dw: "dropWhile is_space [c, d] = [c, d]" using c(3) by simp
  have "- (2 ^ 31) \<le> uint b" by (rule order_trans [OF _ uint_nonnegative]) simp
  then show ?thesis
    unfolding cd stoi16_def dw sgn Let_def prod.case pre using xd uint_bounded [of b] by simp
qed

lemma hex2_no_NUL: "CHR 0x00 \<notin> set (hex_string k n)"
proof
  assume "CHR 0x00 \<in> set (hex_string k n)"
  with xdigits_hex_string(2) [of k n] have "is_xdigit CHR 0x00" by blast
  then show False by (simp add: is_xdigit_def is_digit_def)
qed

lemma decode_mac_string: "decode_mac (JString (mac_string [a0, a1, a2, a3, a4, a5])) = Inr [a0, a1, a2, a3, a4, a5]"
proof -
  let ?s = "mac_string [a0, a1, a2, a3, a4, a5]"
  have u: "[1..<6] = [1, 2, 3, 4, 5 :: nat]" "[0..<6] = [0, 1, 2, 3, 4, 5 :: nat]" by (simp_all add: upt_rec)
  have s: "?s = hex_string 2 (unat a0) @ CHR '':'' # hex_string 2 (unat a1) @ CHR '':'' # hex_string 2 (unat a2) @ CHR '':'' #
      hex_string 2 (unat a3) @ CHR '':'' # hex_string 2 (unat a4) @ CHR '':'' # hex_string 2 (unat a5)"
    by (simp only: mac_string_def u(1)) simp
  have "CHR 0x00 \<notin> set ?s" unfolding s using hex2_no_NUL by simp
  then have "decode_mac (JString ?s) = mapR (mac_byte ?s) [0..<6]" by (simp add: decode_mac_def decode_string_def c_str_id)
  moreover have "mac_byte ?s i = Inr ([a0, a1, a2, a3, a4, a5] ! i)" if "i \<in> set [0..<6]" for i
  proof -
    have "take 2 (drop (i * 3) ?s) = hex_string 2 (unat ([a0, a1, a2, a3, a4, a5] ! i))"
      using that unfolding u s by auto
    then show ?thesis using that by (simp add: mac_byte_def stoi16_hex2) (simp add: s)
  qed
  then have "mapR (mac_byte ?s) [0..<6] = Inr (map ((!) [a0, a1, a2, a3, a4, a5]) [0..<6])" by (rule mapR_total)
  ultimately show ?thesis by (simp add: u)
qed

section \<open>Which requests a command makes\<close>

text \<open>
  A command that gives the same with any two executors that agree on the requests with a \<open>method\<close> that satisfies \<open>P\<close>
  makes only such requests.
\<close>

definition asks_only :: "(json \<Rightarrow> bool) \<Rightarrow> (exec \<Rightarrow> device \<Rightarrow> 'r) \<Rightarrow> bool" where
  "asks_only P command \<longleftrightarrow>
     (\<forall>exec1 exec2 d. (\<forall>r s. P (the_member r ''method'') \<longrightarrow> exec1 r s = exec2 r s) \<longrightarrow> command exec1 d = command exec2 d)"

lemma asks_execute:
  assumes "request = Inr r" and "P (the_member r ''method'')"
  shows "asks_only P (\<lambda>exec d. execute exec request d)"
  using assms by (simp add: asks_only_def execute_def split: option.split)

lemma asks_perform:
  assumes "request = Inr r" and "P (the_member r ''method'')"
  shows "asks_only P (\<lambda>exec d. perform exec request d)"
  using assms by (simp add: asks_only_def perform_def execute_def split: option.split)

lemma asks_query:
  assumes "request = Inr r" and "P (the_member r ''method'')"
  shows "asks_only P (\<lambda>exec d. query exec request decode d)"
  using assms by (simp add: asks_only_def query_def execute_def split: option.split)

lemma asks_named:
  "asks_only P command \<Longrightarrow> asks_only P (\<lambda>exec d. bindR (command exec d) (named f))"
  unfolding asks_only_def by metis

lemma request_appended_eq:
  "request_appended m ps = Inr (JObject [(''jsonrpc'', JString ''2.0''), (''method'', JNull), (''method'', JString m),
     (''params'', JObject ps)])"
  by (simp add: request_appended_def createEmptyRequestObject_def)

lemma request_method_eq:
  "request_method m = Inr (JObject [(''jsonrpc'', JString ''2.0''), (''method'', JString m)])"
  by (simp add: request_method_def createEmptyRequestObject_def SetMember_def)

lemma request_entry_eq:
  "request_entry m entry = Inr (JObject [(''jsonrpc'', JString ''2.0''), (''method'', JString m),
     (''params'', JObject [(''entry'', JString entry)])])"
  by (simp add: request_entry_def request_method_eq)

lemma request_value_eq:
  "request_value m entry v = Inr (JObject [(''jsonrpc'', JString ''2.0''), (''method'', JString m),
     (''params'', JObject [(''entry'', JString entry), (''value'', v)])])"
  by (simp add: request_value_def request_method_eq)

section \<open>The session under the commands\<close>

lemma executeCommand_open:
  assumes "session_ok s" and "executeCommand_response wr rd evss request s = Inr (s', e, r)"
  shows "isOpened s \<and> isOpened s'"
proof -
  obtain t where t: "transport' s = Some t" and t': "transport' s' \<noteq> None"
    by (rule executeCommand_run [OF assms]) (rule that, assumption, metis after_io_simps(1) session.select_convs(2)
        session.surjective session.update_convs(4) option.distinct(1))
  from executeCommand_ok [OF assms] have "session_ok s'" by simp
  with t t' assms(1) show ?thesis by (auto simp: session_ok_def isOpened_def isConnected_def)
qed

lemma open_session_opened: "open_session l outcome s = Inr (s', e) \<Longrightarrow> isOpened s' \<longleftrightarrow> e = no_error"
  using connect_owner(2) by (auto simp: open_session_def isOpened_def isConnected_def Let_def split: if_splits option.splits)

lemma enableOobTransport_receives:
  assumes "enableOobTransport l bind_result s = Inr (s', e)"
  shows "\<exists>t. transport' s' = Some t \<and> (e = no_error \<longrightarrow> oob_open t \<and> oob_receiving t)"
  using assms
  by (auto simp: enableOobTransport_def enableOob_def bindR_Inr_iff split: option.splits if_splits location.splits)

lemma device_close_closed:
  assumes "session' d = Some s" and "session_ok s" and "device_close shutdown_result d = Inr (d', ())"
  shows "\<exists>s'. d' = d\<lparr>session' := Some s'\<rparr> \<and> session_ok s' \<and> \<not> isOpened s'"
proof -
  from assms(1,3) obtain s' where "close_session shutdown_result s = Inr s'" "d' = d\<lparr>session' := Some s'\<rparr>"
    by (auto simp: device_close_def on_session_def bindR_Inr_iff)
  moreover from this(1) have "transport' s' = None" "id' s' = id' s" "response_queue s' = []"
    "scan_block_queue_primary s' = []" "scan_block_queue_oob s' = []"
    by (auto simp: close_session_def bindR_Inr_iff)
  ultimately show ?thesis using assms(2) by (auto simp: session_ok_def scan_bounded_def isOpened_def)
qed

lemma query_keeps:
  assumes "session' d = Some s" and "session_ok s" and "query (executeCommand_response wr rd evss) request decode d = Inr (d', e, v)"
  shows "\<exists>s'. d' = d\<lparr>session' := Some s'\<rparr> \<and> session_ok s' \<and> isOpened s' \<and> (v = None \<longleftrightarrow> e \<noteq> no_error)"
proof -
  from assms(1,3) obtain r s' resp where x: "executeCommand_response wr rd evss r s = Inr (s', e, resp)"
    and d': "d' = d\<lparr>session' := Some s'\<rparr>" and v: "v = None \<longleftrightarrow> e \<noteq> no_error"
    by (auto simp: query_def execute_def bindR_Inr_iff split: if_splits)
  with executeCommand_ok [OF assms(2) x] executeCommand_open [OF assms(2) x] show ?thesis by blast
qed

text \<open>Setting up the out-of-band socket leaves the device open when it worked, and closed otherwise.\<close>

lemma open_oob_outcome:
  assumes "session' d = Some s" and "session_ok s"
    and run: "open_oob (executeCommand_response wr rd evss) bind_result None d = Inr (d', e)"
  shows "\<exists>s'. d' = d\<lparr>session' := Some s'\<rparr> \<and> session_ok s' \<and> (isOpened s' \<longleftrightarrow> e = no_error) \<and>
    (e = no_error \<longrightarrow> (\<exists>t. transport' s' = Some t \<and> oob_open t \<and> oob_receiving t))"
proof -
  note run = run [unfolded open_oob_def bindR_Inr_iff]
  then obtain d1 e1 v1 where q: "getOobTargetPort (executeCommand_response wr rd evss) d = Inr (d1, e1, v1)" by auto
  from query_keeps [OF assms(1,2) q [unfolded getOobTargetPort_def]] obtain s1 where
    s1: "d1 = d\<lparr>session' := Some s1\<rparr>" "session_ok s1" by auto
  show ?thesis
  proof (cases "e1 = no_error")
    case False
    then have "device_close None d1 = Inr (d', ())" "e = unknown" using run q by (auto simp: outcomes)
    with device_close_closed [OF _ s1(2) this(1)] s1(1) show ?thesis by auto
  next
    case True
    let ?l = "NetworkLocation (htonl INADDR_ANY) (case v1 of Some p \<Rightarrow> p | None \<Rightarrow> 0)"
    obtain d2 e2 where en: "on_session (enableOobTransport ?l bind_result) d1 = Inr (d2, e2)"
      and fin: "(if e2 \<noteq> no_error then bindR (device_close None d2) (\<lambda>(d, _). Inr (d, e2)) else Inr (d2, e2)) = Inr (d', e)"
      using run q True by (auto simp: outcomes)
    from en s1(1) obtain s2 where s2: "enableOobTransport ?l bind_result s1 = Inr (s2, e2)" "d2 = d\<lparr>session' := Some s2\<rparr>"
      by (auto simp: on_session_def bindR_Inr_iff)
    from enableOobTransport_ok [OF s1(2) s2(1)] enableOobTransport_receives [OF s2(1)]
    have ok2: "session_ok s2" "isOpened s2" "e2 = no_error \<Longrightarrow> \<exists>t. transport' s2 = Some t \<and> oob_open t \<and> oob_receiving t"
      by (auto simp: session_ok_def isOpened_def isConnected_def)
    show ?thesis
    proof (cases "e2 = no_error")
      case True
      then show ?thesis using fin s2(2) ok2 by auto
    next
      case False
      then have "device_close None d2 = Inr (d', ())" "e = e2" using fin by (auto simp: outcomes)
      with device_close_closed [OF _ ok2(1) this(1)] s2(2) False show ?thesis by auto
    qed
  qed
qed

section \<open>Properties\<close>

text \<open>
  A hardware address: the text \<open>setUserMacAddress\<close> sends is read back by \<open>getUserMacAddress\<close> as the same six bytes.
\<close>

lemma mac_round_trip:
  "round_trips (request_value ''settings/set'' ''connectivity.network.mac'') (request_entry ''settings/get'' ''connectivity.network.mac'')
     (\<lambda>exec. setUserMacAddress exec [a0, a1, a2, a3, a4, a5]) getUserMacAddress [a0, a1, a2, a3, a4, a5]"
  by (rule round_tripsI [of _ _ "JString (mac_string [a0, a1, a2, a3, a4, a5])" _ _ decode_mac])
    (simp_all add: setUserMacAddress_def getUserMacAddress_def decode_mac_string)

text \<open>
  IPv4 addresses (of the device, the subnet mask, the target of out-of-band packets) survive the two changes of
  byte order and asio's conversions to text and back, when asio reads the addresses it writes.
\<close>

lemma address_round_trip:
  assumes "\<And>a. pton (c_str (ntop a)) = Some a"
  shows "round_trips (request_value ''settings/set'' ''connectivity.network.ipv4.address'')
      (request_entry ''settings/get'' ''connectivity.network.ipv4.address'')
      (\<lambda>exec. setNetworkAddress ntop exec a) (getNetworkAddress pton) a \<and>
    round_trips (request_value ''settings/set'' ''connectivity.network.ipv4.subnet'')
      (request_entry ''settings/get'' ''connectivity.network.ipv4.subnet'')
      (\<lambda>exec. setSubnetMask ntop exec a) (getSubnetMask pton) a \<and>
    round_trips (request_value ''settings/set'' ''transport.oob.targetAddress'')
      (request_entry ''settings/get'' ''transport.oob.targetAddress'')
      (\<lambda>exec. setOobTargetAddress ntop exec a) (getOobTargetAddress pton) a"
proof -
  have "c_str (c_str s) = c_str s" for s by (simp add: c_str_def)
  with assms have "decode_address pton (JString (c_str (ntop (ntohl a)))) = Inr a"
    by (simp add: decode_address_def decode_string_def)
  then show ?thesis
    by (intro conjI round_tripsI [of _ _ "JString (c_str (ntop (ntohl a)))" _ _ "decode_address pton"])
      (simp_all add: address_defs)
qed

lemma address_round_trip_example:
  "round_trips (request_value ''settings/set'' ''connectivity.network.ipv4.address'')
      (request_entry ''settings/get'' ''connectivity.network.ipv4.address'')
      (\<lambda>exec. setNetworkAddress (\<lambda>a. dec_string (unat a)) exec 0x7F000001)
      (getNetworkAddress (\<lambda>s. Some (word_of_nat (digits_value s)))) 0x7F000001"
proof -
  have "c_str (dec_string n) = dec_string n" for n
  proof (rule c_str_id)
    show "CHR 0x00 \<notin> set (dec_string n)"
    proof
      assume "CHR 0x00 \<in> set (dec_string n)"
      with dec_string_props [of n] have "is_digit CHR 0x00" by blast
      then show False by (simp add: is_digit_def)
    qed
  qed
  then have "(\<lambda>s. Some (word_of_nat (digits_value s))) (c_str (dec_string (unat a))) = Some (a :: 32 word)" for a
    using dec_string_props [of "unat a"] by simp
  from address_round_trip [of "\<lambda>s. Some (word_of_nat (digits_value s))" "\<lambda>a. dec_string (unat a)", OF this] show ?thesis
    by simp
qed

text \<open>
  C28: The other settings are read back as they were written: host names (without a NUL), scan frequency, shadow filter,
  out-of-band transport and its port, scan resolution and field of view.
\<close>

theorem settings_round_trip:
  assumes "CHR 0x00 \<notin> set name" and "- (2 ^ 31) \<le> f" "f < 2 ^ 31"
  shows "round_trips (request_value ''settings/set'' ''connectivity.network.hostName'')
      (request_entry ''settings/get'' ''connectivity.network.hostName'') (\<lambda>exec. setHostName exec name) getHostName name \<and>
    round_trips (request_value ''settings/set'' ''scan.frequency'') (request_entry ''settings/get'' ''scan.frequency'')
      (\<lambda>exec. setScanFrequency exec f) getScanFrequency f \<and>
    round_trips (request_value ''settings/set'' ''filters.shadowFilter.enabled'')
      (request_entry ''settings/get'' ''filters.shadowFilter.enabled'') (\<lambda>exec. setShadowFilterEnabled exec b) isShadowFilterEnabled b \<and>
    round_trips (request_value ''settings/set'' ''filters.shadowFilter.strength'')
      (request_entry ''settings/get'' ''filters.shadowFilter.strength'') (\<lambda>exec. setShadowFilterStrength exec f) getShadowFilterStrength f \<and>
    round_trips (request_value ''settings/set'' ''transport.oob.enabled'') (request_entry ''settings/get'' ''transport.oob.enabled'')
      (\<lambda>exec. setOobEnabled exec b) isOobEnabled b \<and>
    round_trips (request_value ''settings/set'' ''transport.oob.autoStartStreaming'')
      (request_entry ''settings/get'' ''transport.oob.autoStartStreaming'') (\<lambda>exec. setOobAutoStartStreaming exec b) getOobAutoStartStreaming b \<and>
    round_trips (request_value ''settings/set'' ''transport.oob.targetPort'')
      (request_entry ''settings/get'' ''transport.oob.targetPort'') (\<lambda>exec. setOobTargetPort exec p) getOobTargetPort p \<and>
    round_trips (\<lambda>v. request_appended ''settings/write'' [(''entry'', JString ''scan.resolution''), (''value'', v)])
      (request_appended ''settings/read'' [(''entry'', JString ''scan.resolution'')])
      (\<lambda>exec. setScanResolution exec r) getScanResolution r \<and>
    round_trips (\<lambda>v. request_appended ''settings/write'' [(''entry'', JString ''scan.angularFov''), (''value'', v)])
      (request_appended ''settings/read'' [(''entry'', JString ''scan.angularFov'')])
      (\<lambda>exec. setAngularFov exec w) getAngularFov w"
proof (intro conjI)
  have p: "uint q < 2 ^ 31 \<and> - (2 ^ 31) \<le> uint q" for q :: "16 word"
    using uint_bounded [of q] order_trans [OF _ uint_nonnegative, of "- (2 ^ 31)" q] by simp
  have resolutions: "resolution_of (c_str (resolution_name r)) = Some r"
    by (cases r; simp add: resolution_name_def resolution_of_def c_str_def)
  have fields_of_view: "angular_fov_of (c_str (angular_fov_name w)) = Some w"
    by (cases w; simp add: angular_fov_name_def angular_fov_of_def c_str_def)
  show "round_trips (request_value ''settings/set'' ''connectivity.network.hostName'')
      (request_entry ''settings/get'' ''connectivity.network.hostName'') (\<lambda>exec. setHostName exec name) getHostName name"
    by (rule round_tripsI [of _ _ "JString name" _ _ decode_string]) (simp_all add: setting_defs assms(1) c_str_id decode_string_def)
  show "round_trips (request_value ''settings/set'' ''transport.oob.targetPort'')
      (request_entry ''settings/get'' ''transport.oob.targetPort'') (\<lambda>exec. setOobTargetPort exec p) getOobTargetPort p"
    by (rule round_tripsI [of _ _ "JInt (uint (ntohs p))" _ _ decode_port]) (use p in \<open>simp_all add: setting_defs decode_port_def\<close>)
  show "round_trips (\<lambda>v. request_appended ''settings/write'' [(''entry'', JString ''scan.resolution''), (''value'', v)])
      (request_appended ''settings/read'' [(''entry'', JString ''scan.resolution'')])
      (\<lambda>exec. setScanResolution exec r) getScanResolution r"
    by (rule round_trips_namedI [of _ _ "JString (resolution_name r)" _ _ resolution_of "c_str (resolution_name r)"])
      (simp_all add: setting_defs decode_string_def resolutions)
  show "round_trips (\<lambda>v. request_appended ''settings/write'' [(''entry'', JString ''scan.angularFov''), (''value'', v)])
      (request_appended ''settings/read'' [(''entry'', JString ''scan.angularFov'')])
      (\<lambda>exec. setAngularFov exec w) getAngularFov w"
    by (rule round_trips_namedI [of _ _ "JString (angular_fov_name w)" _ _ angular_fov_of "c_str (angular_fov_name w)"])
      (simp_all add: setting_defs decode_string_def fields_of_view)
qed (rule round_tripsI [of _ _ "JInt f" _ _ GetInt] round_tripsI [of _ _ "JBool b" _ _ GetBool],
  use assms in \<open>simp_all add: setting_defs\<close>)+


theorem settings_round_trip_witness:
  "round_trips (request_value ''settings/set'' ''scan.frequency'') (request_entry ''settings/get'' ''scan.frequency'')
      (\<lambda>exec. setScanFrequency exec 15) getScanFrequency 15"
  using settings_round_trip [of "''lidar''" 15 True 0 SCAN_RESOLUTION_15K ANGULAR_FOV_270DEG] by simp

text \<open>
  C21: \<open>Device::open\<close> of a device with a network location that is not open: it returns \<open>no_error\<close> exactly when the device
  is open afterwards; whatever goes wrong, also while the out-of-band transport is set up, leaves it closed, so that
  it can be opened again.  With \<open>no_error\<close>, out-of-band packets are received whenever the device said they are enabled.
\<close>

theorem Device_open_outcome:
  assumes "session' d = Some s" and "session_reach wr rd s" and "location' d = Some (NetworkLocation a p)" and "\<not> isOpened s"
    and "Device_open (executeCommand_response wr rd evss1) (executeCommand_response wr rd evss2) outcome bind_result None d =
      Inr (d', e)"
  shows "\<exists>s'. d' = d\<lparr>session' := Some s'\<rparr> \<and> session_ok s' \<and> (isOpened s' \<longleftrightarrow> e = no_error) \<and>
    (e = no_error \<longrightarrow> (\<forall>d1 d2. base_open outcome d = Inr (d1, no_error) \<longrightarrow>
       isOobEnabled (executeCommand_response wr rd evss1) d1 = Inr (d2, no_error, Some True) \<longrightarrow>
       (\<exists>t. transport' s' = Some t \<and> oob_open t \<and> oob_receiving t)))"
proof -
  have ok: "session_ok s" using assms(2) by (rule session_reach_ok)
  note run = assms(5) [unfolded Device_open_def bindR_Inr_iff]
  obtain d1 e1 where b: "base_open outcome d = Inr (d1, e1)" using run by auto
  then obtain s1 where o: "open_session (NetworkLocation a p) outcome s = Inr (s1, e1)" and d1: "d1 = d\<lparr>session' := Some s1\<rparr>"
    using assms(1,3) by (auto simp: base_open_def on_session_def bindR_Inr_iff)
  have ok1: "session_ok s1" "isOpened s1 \<longleftrightarrow> e1 = no_error" using open_session_ok [OF ok o] open_session_opened [OF o] by simp_all
  show ?thesis
  proof (cases "e1 = no_error")
    case False
    then show ?thesis using run b d1 ok1 by auto
  next
    case True
    then obtain d2 e2 v2 where q: "isOobEnabled (executeCommand_response wr rd evss1) d1 = Inr (d2, e2, v2)"
      using run b by (auto simp: outcomes)
    have "session' d1 = Some s1" using d1 by simp
    from query_keeps [OF this ok1(1) q [unfolded isOobEnabled_def]] d1 obtain s2 where
      s2: "d2 = d\<lparr>session' := Some s2\<rparr>" "session_ok s2" "isOpened s2" by auto
    show ?thesis
    proof (cases "e2 = no_error \<and> v2 = Some True")
      case False
      then show ?thesis using run b q s2 True by (auto simp: outcomes)
    next
      case oob: True
      have "session' d2 = Some s2" using s2(1) by simp
      moreover have "open_oob (executeCommand_response wr rd evss2) bind_result None d2 = Inr (d', e)"
        using run b q True oob by (auto simp: outcomes)
      ultimately show ?thesis using open_oob_outcome [of d2 s2] s2(1,2) by fastforce
    qed
  qed
qed

lemma command_unanswered:
  assumes "IsObject request" and "transport' s = Some t" and "response_queue s = []" and "id' s < 2 ^ 31 - 1"
  shows "executeCommand_response wr rd [] request s = Inr (sent wr request s t, timed_out, None)"
proof -
  have "send_request wr request s = Inr (sent wr request s t)" using assms by (intro send_request_eq) simp_all
  moreover have "sent wr request s t\<lparr>response_queue := []\<rparr> = sent wr request s t" using assms(3) by (cases s) (simp add: sent_def)
  ultimately show ?thesis
    using assms(3) by (simp add: executeCommand_response_def executeCommand_among_def response_ready_def remove_if_in_place_def)
qed

lemma open_example:
  "\<exists>d'. Device_open (executeCommand_response wr rd []) exec (Some None) bind_result None (DeviceBase (NetworkLocation 1 2)) =
    Inr (d', no_error)"
proof -
  let ?r = "JObject [(''jsonrpc'', JString ''2.0''), (''method'', JString ''settings/get''),
     (''params'', JObject [(''entry'', JString ''transport.oob.enabled'')])]"
  have "executeCommand_response wr rd [] ?r opened_example = Inr (sent wr ?r opened_example opened_transport, timed_out, None)"
    using opened_example opened_idle(5) by (intro command_unanswered) (simp_all add: IsObject_def)
  then show ?thesis
    by (simp add: Device_open_def base_open_def on_session_def DeviceBase_def keep_network_def opened_example(1) isOobEnabled_def
        query_def execute_def request_entry_eq)
qed

theorem Device_open_outcome_witness:
  "\<exists>d' s'. Device_open (executeCommand_response wr_example (rd_doc JNull) []) (executeCommand_response wr_example (rd_doc JNull) [])
      (Some None) None None (DeviceBase (NetworkLocation 1 2)) = Inr (d', no_error) \<and> session' d' = Some s' \<and> isOpened s'"
proof -
  obtain d' where d': "Device_open (executeCommand_response wr_example (rd_doc JNull) [])
      (executeCommand_response wr_example (rd_doc JNull) []) (Some None) None None (DeviceBase (NetworkLocation 1 2)) = Inr (d', no_error)"
    using open_example by blast
  have "session' (DeviceBase (NetworkLocation 1 2)) = Some Session" "location' (DeviceBase (NetworkLocation 1 2)) = Some (NetworkLocation 1 2)"
    "\<not> isOpened Session" by (simp_all add: DeviceBase_def keep_network_def isOpened_def Session_def)
  from Device_open_outcome [OF this(1) path_start this(2,3) d'] d' show ?thesis by auto
qed

text \<open>
  The requests for the scan resolution and the field of view are sent with the \<open>method\<close> null, because the name is
  appended behind the member that is already there, while the other settings are requested by name.
\<close>

lemma resolution_requests_without_method:
  "asks_only IsNull (\<lambda>exec. getScanResolution exec) \<and> asks_only IsNull (\<lambda>exec. getAngularFov exec) \<and>
   asks_only IsNull (\<lambda>exec. setScanResolution exec resolution) \<and> asks_only IsNull (\<lambda>exec. setAngularFov exec field_of_view) \<and>
   asks_only (\<lambda>m. m = JString ''settings/get'') (\<lambda>exec. getScanFrequency exec) \<and>
   asks_only (\<lambda>m. m = JString ''settings/set'') (\<lambda>exec. setScanFrequency exec frequency) \<and>
   asks_only (\<lambda>m. m = JString ''settings/persist'') (\<lambda>exec. persistSettings exec) \<and>
   asks_only (\<lambda>m. m = JString ''scan/startStreaming'') (\<lambda>exec. startStreaming exec)"
proof (intro conjI)
  show "asks_only IsNull (\<lambda>exec. getScanResolution exec)" "asks_only IsNull (\<lambda>exec. getAngularFov exec)"
    unfolding getScanResolution_def getAngularFov_def
    by (rule asks_named, rule asks_query [OF request_appended_eq], simp add: the_member_def IsNull_def)+
  show "asks_only IsNull (\<lambda>exec. setScanResolution exec resolution)" "asks_only IsNull (\<lambda>exec. setAngularFov exec field_of_view)"
    unfolding setScanResolution_def setAngularFov_def
    by (rule asks_perform [OF request_appended_eq], simp add: the_member_def IsNull_def)+
  show "asks_only (\<lambda>m. m = JString ''settings/get'') (\<lambda>exec. getScanFrequency exec)"
    unfolding getScanFrequency_def by (rule asks_query [OF request_entry_eq]) (simp add: the_member_def)
  show "asks_only (\<lambda>m. m = JString ''settings/set'') (\<lambda>exec. setScanFrequency exec frequency)"
    unfolding setScanFrequency_def by (rule asks_perform [OF request_value_eq]) (simp add: the_member_def)
  show "asks_only (\<lambda>m. m = JString ''settings/persist'') (\<lambda>exec. persistSettings exec)"
    "asks_only (\<lambda>m. m = JString ''scan/startStreaming'') (\<lambda>exec. startStreaming exec)"
    unfolding persistSettings_def startStreaming_def
    by (rule asks_perform [OF request_method_eq], simp add: the_member_def)+
qed

end
