(* ===== verification/Scan_Data.thy ===== *)
theory Scan_Data
  imports Device
begin

text \<open>
  Reading scan data that is as it should be.  Whether a call of \<open>readScanBlock\<close> or \<open>readScanFrame\<close> can fault depends only on
  the notifications and packets that wait in the queues or arrive while it reads.
\<close>

section \<open>Data that waits or arrives\<close>

definition scan_all :: "(scan_data \<Rightarrow> bool) \<Rightarrow> json_reader \<Rightarrow> io_event list \<Rightarrow> session \<Rightarrow> bool" where
  "scan_all P rd evs s \<longleftrightarrow>
     (\<forall>n \<in> set (scan_block_queue_primary s). P (Notification n)) \<and> (\<forall>p \<in> set (scan_block_queue_oob s). P (Oob_block p)) \<and>
     (\<forall>buf n. fst (rd buf) = Some n \<longrightarrow> laser_scan n \<longrightarrow> P (Notification n)) \<and>
     (\<forall>a p. Udp_packet a p \<in> set evs \<longrightarrow> fst (verifyOobPacket p) \<longrightarrow> P (Oob_block p))"

lemma incomingMessageHandler_no_packet: "Oob_data p \<notin> set (snd (incomingMessageHandler rd e n t))"
  by (auto simp: incomingMessageHandler_def Let_def split: option.splits prod.splits)

lemma drain_no_packet: "Oob_data p \<notin> set (snd (drain rd t))"
proof (induction rd t rule: drain.induct)
  case (1 rd t)
  then show ?case
    using incomingMessageHandler_no_packet [of p rd None]
    by (simp add: drain.simps [of rd t] Let_def split: option.split)
qed

lemma io_step_packet:
  assumes "io_step wr rd ev t = Inr (t', cbs)" and "Oob_data p \<in> set cbs"
  shows "\<exists>a. ev = Udp_packet a p \<and> fst (verifyOobPacket p)"
proof (cases ev)
  case (Tcp_bytes s)
  with assms drain_no_packet [of p rd "t\<lparr>incoming_message_buffer := incoming_message_buffer t @ s\<rparr>"] show ?thesis
    by (auto simp: Let_def split: if_splits)
next
  case (Tcp_error e)
  with assms incomingMessageHandler_no_packet [of p rd "Some e" 0 "t\<lparr>reading := False\<rparr>"] show ?thesis
    by (auto split: if_splits prod.splits)
next
  case (Udp_packet a q)
  with assms verifyOobPacket_eq [of q] show ?thesis by (auto simp: oobPacketHandler_def split: if_splits)
qed (use assms in \<open>auto simp: outgoingMessageHandler_def oobPacketHandler_def Let_def split: if_splits option.splits prod.splits\<close>)

lemma io_run_packet:
  "io_run wr rd evs t = Inr (t', cbs) \<Longrightarrow> Oob_data p \<in> set cbs \<Longrightarrow>
    \<exists>a. Udp_packet a p \<in> set evs \<and> fst (verifyOobPacket p)"
proof (induction evs arbitrary: t cbs)
  case (Cons ev evs)
  then obtain t1 c1 c2 where "io_step wr rd ev t = Inr (t1, c1)" "io_run wr rd evs t1 = Inr (t', c2)" "cbs = c1 @ c2"
    by (auto simp: outcomes)
  with Cons.prems(2) consider "Oob_data p \<in> set c1" | "Oob_data p \<in> set c2" by auto
  then show ?case
  proof cases
    case 1
    with io_step_packet [OF \<open>io_step wr rd ev t = Inr (t1, c1)\<close>] show ?thesis by fastforce
  next
    case 2
    with Cons.IH [OF \<open>io_run wr rd evs t1 = Inr (t', c2)\<close>] show ?thesis by fastforce
  qed
qed simp

lemma packets_Oob_data: "p \<in> set (packets cbs) \<longleftrightarrow> Oob_data p \<in> set cbs"
  by (induction cbs rule: packets.induct) auto

lemma session_io_scan_all:
  assumes ok: "session_ok s" and all: "scan_all P rd evs s" and run: "session_io wr rd evs' s = Inr s'" and "set evs' \<subseteq> set evs"
  shows "scan_all P rd evs s'"
proof (cases "transport' s")
  case None
  with all run show ?thesis by (simp add: session_io_def)
next
  case (Some t)
  from session_io_after [OF ok Some, of wr rd evs'] obtain t' cbs where
    io: "io_run wr rd evs' t = Inr (t', cbs)" and rdr: "list_all (from_reader rd) cbs"
    and "session_io wr rd evs' s = Inr (after_io t' cbs s)" by metis
  with run have s': "s' = after_io t' cbs s" by simp
  have p: "P (Oob_block p)" if "p \<in> set (packets cbs)" for p
  proof -
    from that have "Oob_data p \<in> set cbs" by (simp add: packets_Oob_data)
    from io_run_packet [OF io this] obtain a where "Udp_packet a p \<in> set evs'" "fst (verifyOobPacket p)" by (elim exE conjE)
    with all assms(4) show ?thesis unfolding scan_all_def by blast
  qed
  have d: "P (Notification d)" if "d \<in> set (messages cbs)" "laser_scan d" for d
    using that messages_from_reader [OF rdr] all unfolding scan_all_def by blast
  have "set (scan_block_queue_primary s') \<subseteq> set (scan_block_queue_primary s) \<union> {d \<in> set (messages cbs). laser_scan d}"
    "set (scan_block_queue_oob s') \<subseteq> set (scan_block_queue_oob s) \<union> set (packets cbs)"
    using set_lastn [of SCAN_BLOCK_BUFFERING_COUNT "scan_block_queue_primary s @ filter laser_scan (messages cbs)"]
      set_lastn [of SCAN_BLOCK_BUFFERING_COUNT "scan_block_queue_oob s @ packets cbs"]
    by (auto simp: s' after_io_def)
  with all p d show ?thesis unfolding scan_all_def by blast
qed

lemma session_path_trans: "session_path wr rd s1 s2 \<Longrightarrow> session_path wr rd s0 s1 \<Longrightarrow> session_path wr rd s0 s2"
  by (induction rule: session_path.induct) (auto intro: session_path.intros)

text \<open>A call of \<open>pollForScanBlock\<close> gives one of the data, or none at the timeout.\<close>

lemma poll_scan_all:
  assumes ok: "session_ok s" and all: "scan_all P rd evs s" and "set (concat evss) \<subseteq> set evs"
  obtains s' e block where "pollForScanBlock wr rd evss s = Inr (s', e, block)" and "session_ok s'" and "scan_all P rd evs s'"
    and "session_path wr rd s s'" and "id' s' = id' s" and "e = no_error \<Longrightarrow> P block"
proof -
  obtain x where "wait_for block_ready (session_io wr rd) evss s = Inr x" using block_wait.wait_for_returns [OF ok] by blast
  then obtain s' e block where run: "pollForScanBlock wr rd evss s = Inr (s', e, block)"
    by (cases x; cases "snd x"; cases "front_block (fst x)") (auto simp: pollForScanBlock_def)
  obtain n u where u: "session_io wr rd (concat (take n evss)) s = Inr u" "session_ok u" "id' u = id' s"
    and r: "(s', e, block) = (if block_waiting u then (fst (front_block u), no_error, snd (front_block u)) else (u, timed_out, No_data))"
    by (rule pollForScanBlock_run [OF ok run]) (rule that; assumption)
  have "set (concat (take n evss)) \<subseteq> set evs" using assms(3) set_take_subset [of n evss] by auto
  from session_io_scan_all [OF ok all u(1) this] have all_u: "scan_all P rd evs u" .
  then have "scan_all P rd evs s'" "e = no_error \<Longrightarrow> P block"
    using r by (auto simp: scan_all_def front_block_def block_waiting_def split: if_splits list.splits)
  moreover have "session_ok s'" "id' s' = id' s" using r u front_block_ok [of u] by (auto split: if_splits)
  moreover have "session_path wr rd s s'" by (rule path_step [OF path_start step_poll [OF run]])
  ultimately show thesis using run that by blast
qed

section \<open>Blocks and frames\<close>

definition decodable :: "scan_data \<Rightarrow> bool" where
  "decodable data \<longleftrightarrow> (\<forall>b. \<exists>b'. decode_block data b = Inr b')"

text \<open>Blocks of \<open>m\<close> samples with all their members.\<close>

definition samples_in :: "nat \<Rightarrow> scan_data \<Rightarrow> bool" where
  "samples_in m data \<longleftrightarrow> (\<forall>b. \<exists>b'. decode_block data b = Inr b' \<and> sb_block_index b' \<noteq> None \<and> sb_block_count b' \<noteq> None \<and>
     sb_block_length b' = Some (int m) \<and> sb_timestamp b' \<noteq> None \<and> sb_angular_fov b' \<noteq> None \<and> enough m b')"

lemma read_block_returns:
  assumes "session_ok s" and "scan_all decodable rd (concat evss) s"
  shows "\<exists>s' b' e. read_block wr rd evss s b = Inr (s', b', e) \<and> session_path wr rd s s' \<and> id' s' = id' s"
proof -
  obtain s' e block where "pollForScanBlock wr rd evss s = Inr (s', e, block)" "session_path wr rd s s'" "id' s' = id' s"
    "e = no_error \<Longrightarrow> decodable block"
    by (rule poll_scan_all [OF assms order_refl]) (rule that; assumption)
  then show ?thesis by (cases "e = no_error") (auto simp: read_block_def decodable_def dest: spec [of _ b])
qed

definition asm_of :: "nat \<Rightarrow> assembly \<Rightarrow> bool" where
  "asm_of m a \<longleftrightarrow> expected_block_index a = 0 \<and> 0 < asm_block_count a \<or> (\<exists>bs. partial_frame bs a \<and> asm_block_length a = int m)"

lemma add_block_samples:
  assumes a: "asm_of m a" and "expected_block_index a < asm_block_count a" and "block_ok b"
    and b: "sb_block_index b \<noteq> None" "sb_block_count b \<noteq> None" "sb_block_length b = Some (int m)" "sb_timestamp b \<noteq> None"
      "sb_angular_fov b \<noteq> None" "enough m b"
  shows "\<exists>a'. add_block b a = Inr a' \<and> asm_of m a'"
proof (cases "sb_block_index b = Some (expected_block_index a)")
  case False
  have "0 < asm_block_count a" using a partial_frame_count by (auto simp: asm_of_def)
  with False b(1) show ?thesis by (auto simp: add_block_def asm_of_def)
next
  case index: True
  show ?thesis
  proof (cases "expected_block_index a = 0")
    case True
    from b(2) assms(3) obtain c where "sb_block_count b = Some (int c)" "0 < c"
      by (auto simp: block_ok_def) (metis zero_less_imp_eq_int)
    moreover obtain ts fov where "sb_timestamp b = Some ts" "sb_angular_fov b = Some fov" using b(4,5) by blast
    ultimately obtain a' where "add_block b a = Inr a'" "partial_frame [b] a'"
      using add_first [OF True, of b c m ts fov] index True b(3,6) by auto
    with b(3) show ?thesis by (auto simp: asm_of_def partial_frame_def)
  next
    case False
    with a obtain bs where p: "partial_frame bs a" "asm_block_length a = int m" by (auto simp: asm_of_def)
    with add_next [OF p(1) assms(2) index] b(6) obtain a' where a': "add_block b a = Inr a'" "partial_frame (bs @ [b]) a'" by auto
    moreover have "asm_block_length a' = asm_block_length a" using p(1) a'(2) by (auto simp: partial_frame_def)
    ultimately show ?thesis using p(2) by (auto simp: asm_of_def)
  qed
qed

lemma frame_loop_returns:
  assumes "session_ok s" and "scan_all (samples_in m) rd evs s" and "set (concat (concat evsss)) \<subseteq> set evs"
    and "asm_of m a" and "block_ok b"
  shows "\<exists>s' a' r. frame_loop wr rd evsss s b a = Inr (s', a', r) \<and> session_path wr rd s s' \<and> id' s' = id' s"
  using assms
proof (induction evsss arbitrary: s a b)
  case (Cons evss rest)
  show ?case
  proof (cases "expected_block_index a < asm_block_count a")
    case True
    have sub: "set (concat evss) \<subseteq> set evs" using Cons.prems(3) by simp
    obtain s' e block where poll: "pollForScanBlock wr rd evss s = Inr (s', e, block)" "session_ok s'" "scan_all (samples_in m) rd evs s'"
      "session_path wr rd s s'" "id' s' = id' s" "e = no_error \<Longrightarrow> samples_in m block"
      by (rule poll_scan_all [OF Cons.prems(1,2) sub]) (rule that; assumption)
    show ?thesis
    proof (cases "e = no_error")
      case False
      with True poll show ?thesis by (auto simp: read_block_def)
    next
      case no: True
      from poll(6) [OF no] obtain b' where b': "decode_block block b = Inr b'" "sb_block_index b' \<noteq> None" "sb_block_count b' \<noteq> None"
        "sb_block_length b' = Some (int m)" "sb_timestamp b' \<noteq> None" "sb_angular_fov b' \<noteq> None" "enough m b'"
        by (auto simp: samples_in_def dest: spec [of _ b])
      have ok: "block_ok b'" using decode_block_ok [OF Cons.prems(5) b'(1)] .
      from add_block_samples [OF Cons.prems(4) True ok b'(2-)] obtain a' where a': "add_block b' a = Inr a'" "asm_of m a'" by blast
      from Cons.IH [OF poll(2,3) _ a'(2) ok] Cons.prems(3) obtain s'' a'' r where
        "frame_loop wr rd rest s' b' a' = Inr (s'', a'', r)" "session_path wr rd s' s''" "id' s'' = id' s'" by auto
      with session_path_trans [of wr rd s' s'' s] poll(4,5) show ?thesis
        using True poll(1) no b'(1) a'(1) by (simp add: read_block_def)
    qed
  qed (auto intro: path_start)
qed (auto intro: path_start)

lemma read_frame_returns:
  assumes "session_ok s" and "scan_all (samples_in m) rd (concat (concat evsss)) s"
  shows "\<exists>s' f' r. read_frame wr rd evsss s f = Inr (s', f', r) \<and> session_path wr rd s s' \<and> id' s' = id' s"
proof -
  have "asm_of m (start_assembly f)" by (simp add: asm_of_def start_assembly_def INT_MAX_def)
  moreover have "block_ok ScanBlock" by (simp add: block_ok_def ScanBlock_def)
  ultimately show ?thesis
    using frame_loop_returns [OF assms order_refl, of "start_assembly f" ScanBlock wr] by (auto simp: read_frame_def)
qed

end
