(* ===== verification/Bootloader.thy ===== *)
theory Bootloader
  imports Device_Base Base64
begin

text \<open>
  \<open>Bootloader\<close> of src/bootloader.cpp: the firmware update commands.  The text a request carries is read
  from the shared buffer \<open>encoded\<close> when the message is written out; here it is taken when the command
  is executed.  Theory \<open>Shared_Text\<close> has the commands with the buffer and shows when the two are the same.
\<close>

definition HASH_LENGTH :: nat where
  "HASH_LENGTH = 16"

definition Bootloader_of_location :: "location \<Rightarrow> device" where
  "Bootloader_of_location l = DeviceBase l"

definition Bootloader_of_base :: "device \<Rightarrow> device \<times> device" where
  "Bootloader_of_base other = DeviceBase_move other"

definition beginUpdate :: "exec \<Rightarrow> device \<Rightarrow> (device \<times> error_t) res" where
  "beginUpdate exec d = perform exec (request_method ''firmware/beginUpdate'') d"

text \<open>
  The encoder writes \<open>encoded\<close>, which was resized to the announced length; a text of another length
  would be cut or padded with NULs.  \<open>c_str()\<close> ends it at the first NUL.
\<close>

definition encode_buffer :: "byte list \<Rightarrow> string res" where
  "encode_buffer content =
     bindR (writeR (replicate (CalculateBase64EncodedLength (length content)) CHR 0x00) 0 (Base64Encode content))
       (\<lambda>encoded. Inr (c_str encoded))"

definition request_param :: "string \<Rightarrow> string \<Rightarrow> string \<Rightarrow> json res" where
  "request_param m name s =
     bindR (request_method m) (\<lambda>r. AddMember r ''params'' (JObject [(name, JString s)]))"

definition writeData :: "exec \<Rightarrow> byte list \<Rightarrow> device \<Rightarrow> (device \<times> error_t) res" where
  "writeData exec content d =
     bindR (encode_buffer content) (\<lambda>encoded. perform exec (request_param ''firmware/writeData'' ''content'' encoded) d)"

definition endUpdate :: "exec \<Rightarrow> device \<Rightarrow> (device \<times> error_t) res" where
  "endUpdate exec d = perform exec (request_method ''firmware/endUpdate'') d"

text \<open>\<open>expected\<close> points to at least \<open>HASH_LENGTH\<close> bytes; only these are read.\<close>

definition verifyHash :: "exec \<Rightarrow> byte list \<Rightarrow> device \<Rightarrow> (device \<times> error_t \<times> bool option) res" where
  "verifyHash exec expected d =
     (if length expected < HASH_LENGTH then Inl Out_of_bounds
      else bindR (encode_buffer (take HASH_LENGTH expected)) (\<lambda>encoded.
        query exec (request_param ''firmware/verifyHash'' ''expected'' encoded) GetBool d))"

definition commitUpdate :: "exec \<Rightarrow> device \<Rightarrow> (device \<times> error_t) res" where
  "commitUpdate exec d = perform exec (request_method ''firmware/commitUpdate'') d"

section \<open>The content of the requests\<close>

lemma b64_digit_no_NUL: "i < 64 \<Longrightarrow> b64_digit i \<noteq> CHR 0x00"
proof -
  assume "i < 64"
  then have "b64_digit i \<in> set basis_64" by (simp add: b64_digit_def word_less_nat_alt)
  moreover have "CHR 0x00 \<notin> set basis_64" by code_simp
  ultimately show ?thesis by metis
qed

lemma Base64Encode_no_NUL: "CHR 0x00 \<notin> set (Base64Encode bs)"
  using sextets_less [THEN b64_digit_no_NUL]
  by (induction bs rule: Base64Encode.induct) (simp_all add: eq_commute [of "CHR 0x00"])

lemma encode_buffer_eq: "encode_buffer content = Inr (Base64Encode content)"
  using Base64Encode_no_NUL [of content]
  by (simp add: encode_buffer_def writeR_fits length_Base64Encode c_str_id)

section \<open>Properties\<close>


end
