(* ===== verification/Device_Calls.thy ===== *)
theory Device_Calls
  imports Scan_Data Bootloader
begin

text \<open>
  The interface of \<open>Device\<close> and \<open>Bootloader\<close> as data: every method of the two classes and of their base is a call, and \<open>device_call\<close>
  carries it out.  Every getter has the type of result it reads and is shown to be one query, every other command to be one request.
\<close>

section \<open>Calls\<close>

datatype getter =
    QueryOperationMode | QueryModel | QuerySerial | QueryFirmwareVersion | QueryHardwareVersion | QueryState | QueryMotorFrequency
  | ReadTimestamp | GetUserMacAddress | GetNetworkAddress | GetSubnetMask | GetHostName | GetScanFrequency | IsShadowFilterEnabled
  | GetShadowFilterStrength | IsOobEnabled | GetOobAutoStartStreaming | GetOobTargetAddress | GetOobTargetPort
  | GetScanResolution | GetAngularFov | VerifyHash "byte list"

datatype action =
    ResetTimestamp | StartMeasurement | StopMeasurement | StartStreaming | StopStreaming
  | SetUserMacAddress "byte list" | SetNetworkAddress in_addr_t | SetSubnetMask in_addr_t | SetHostName string | SetScanFrequency int
  | SetShadowFilterEnabled bool | SetShadowFilterStrength int | SetOobEnabled bool | SetOobAutoStartStreaming bool
  | SetOobTargetAddress in_addr_t | SetOobTargetPort in_port_t | SetScanResolution scan_resolution_t | SetAngularFov angular_fov_t
  | PersistSettings | BeginUpdate | WriteData "byte list" | EndUpdate | CommitUpdate

text \<open>The values of the output arguments.\<close>

datatype output_value =
    Text string | Real_number rat | Time "32 word" | Bytes "byte list" | Address in_addr_t | Whole int | Flag bool | Port in_port_t
  | Resolution scan_resolution_t | Fov angular_fov_t

definition boxed :: "('a \<Rightarrow> output_value) \<Rightarrow> (device \<times> error_t \<times> 'a option) res \<Rightarrow> (device \<times> error_t \<times> output_value option) res" where
  "boxed box r = bindR r (\<lambda>(d, e, v). Inr (d, e, map_option box v))"

fun get_value :: "pton \<Rightarrow> exec \<Rightarrow> getter \<Rightarrow> device \<Rightarrow> (device \<times> error_t \<times> output_value option) res" where
  "get_value pton exec QueryOperationMode d = boxed Text (queryOperationMode exec d)"
| "get_value pton exec QueryModel d = boxed Text (queryModel exec d)"
| "get_value pton exec QuerySerial d = boxed Text (querySerial exec d)"
| "get_value pton exec QueryFirmwareVersion d = boxed Text (queryFirmwareVersion exec d)"
| "get_value pton exec QueryHardwareVersion d = boxed Text (queryHardwareVersion exec d)"
| "get_value pton exec QueryState d = boxed Text (queryState exec d)"
| "get_value pton exec QueryMotorFrequency d = boxed Real_number (queryMotorFrequency exec d)"
| "get_value pton exec ReadTimestamp d = boxed Time (readTimestamp exec d)"
| "get_value pton exec GetUserMacAddress d = boxed Bytes (getUserMacAddress exec d)"
| "get_value pton exec GetNetworkAddress d = boxed Address (getNetworkAddress pton exec d)"
| "get_value pton exec GetSubnetMask d = boxed Address (getSubnetMask pton exec d)"
| "get_value pton exec GetHostName d = boxed Text (getHostName exec d)"
| "get_value pton exec GetScanFrequency d = boxed Whole (getScanFrequency exec d)"
| "get_value pton exec IsShadowFilterEnabled d = boxed Flag (isShadowFilterEnabled exec d)"
| "get_value pton exec GetShadowFilterStrength d = boxed Whole (getShadowFilterStrength exec d)"
| "get_value pton exec IsOobEnabled d = boxed Flag (isOobEnabled exec d)"
| "get_value pton exec GetOobAutoStartStreaming d = boxed Flag (getOobAutoStartStreaming exec d)"
| "get_value pton exec GetOobTargetAddress d = boxed Address (getOobTargetAddress pton exec d)"
| "get_value pton exec GetOobTargetPort d = boxed Port (getOobTargetPort exec d)"
| "get_value pton exec GetScanResolution d = boxed Resolution (getScanResolution exec d)"
| "get_value pton exec GetAngularFov d = boxed Fov (getAngularFov exec d)"
| "get_value pton exec (VerifyHash expected) d = boxed Flag (verifyHash exec expected d)"

fun do_action :: "ntop \<Rightarrow> exec \<Rightarrow> action \<Rightarrow> device \<Rightarrow> (device \<times> error_t) res" where
  "do_action ntop exec ResetTimestamp d = resetTimestamp exec d"
| "do_action ntop exec StartMeasurement d = startMeasurement exec d"
| "do_action ntop exec StopMeasurement d = stopMeasurement exec d"
| "do_action ntop exec StartStreaming d = startStreaming exec d"
| "do_action ntop exec StopStreaming d = stopStreaming exec d"
| "do_action ntop exec (SetUserMacAddress addr) d = setUserMacAddress exec addr d"
| "do_action ntop exec (SetNetworkAddress a) d = setNetworkAddress ntop exec a d"
| "do_action ntop exec (SetSubnetMask a) d = setSubnetMask ntop exec a d"
| "do_action ntop exec (SetHostName s) d = setHostName exec s d"
| "do_action ntop exec (SetScanFrequency i) d = setScanFrequency exec i d"
| "do_action ntop exec (SetShadowFilterEnabled b) d = setShadowFilterEnabled exec b d"
| "do_action ntop exec (SetShadowFilterStrength i) d = setShadowFilterStrength exec i d"
| "do_action ntop exec (SetOobEnabled b) d = setOobEnabled exec b d"
| "do_action ntop exec (SetOobAutoStartStreaming b) d = setOobAutoStartStreaming exec b d"
| "do_action ntop exec (SetOobTargetAddress a) d = setOobTargetAddress ntop exec a d"
| "do_action ntop exec (SetOobTargetPort p) d = setOobTargetPort exec p d"
| "do_action ntop exec (SetScanResolution r) d = setScanResolution exec r d"
| "do_action ntop exec (SetAngularFov f) d = setAngularFov exec f d"
| "do_action ntop exec PersistSettings d = persistSettings exec d"
| "do_action ntop exec BeginUpdate d = beginUpdate exec d"
| "do_action ntop exec (WriteData content) d = writeData exec content d"
| "do_action ntop exec EndUpdate d = endUpdate exec d"
| "do_action ntop exec CommitUpdate d = commitUpdate exec d"

text \<open>
  A call with the traffic that arrives while it waits and what Asio reports to it.  \<open>Background\<close> is traffic between two calls.
\<close>

datatype call =
    Get getter "io_event list list"
  | Do action "io_event list list"
  | Reboot
  | Reboot_to_bootloader
  | Set_timeout int
  | Open "asio_error option option" "asio_error option" "asio_error option" "io_event list list" "io_event list list"
  | Close "asio_error option"
  | Read_block "io_event list list" scan_block
  | Read_frame "io_event list list list" scan_frame
  | Background "io_event list"

datatype reply =
    Nothing
  | Code error_t
  | Answer error_t "output_value option"
  | Block scan_block error_t
  | Frame scan_frame frame_result

fun device_call :: "json_writer \<Rightarrow> json_reader \<Rightarrow> pton \<Rightarrow> ntop \<Rightarrow> call \<Rightarrow> device \<Rightarrow> (device \<times> reply) res" where
  "device_call wr rd pton ntop (Get g evss) d =
     bindR (get_value pton (executeCommand_response wr rd evss) g d) (\<lambda>(d, e, v). Inr (d, Answer e v))"
| "device_call wr rd pton ntop (Do a evss) d =
     bindR (do_action ntop (executeCommand_response wr rd evss) a d) (\<lambda>(d, e). Inr (d, Code e))"
| "device_call wr rd pton ntop Reboot d = bindR (reboot wr d) (\<lambda>(d, _). Inr (d, Nothing))"
| "device_call wr rd pton ntop Reboot_to_bootloader d = bindR (rebootToBootloader wr d) (\<lambda>(d, _). Inr (d, Nothing))"
| "device_call wr rd pton ntop (Set_timeout ms) d = bindR (device_setTimeout ms d) (\<lambda>(d, _). Inr (d, Nothing))"
| "device_call wr rd pton ntop (Open outcome bind_result shutdown_result evss1 evss2) d =
     bindR (Device_open (executeCommand_response wr rd evss1) (executeCommand_response wr rd evss2) outcome bind_result shutdown_result d)
       (\<lambda>(d, e). Inr (d, Code e))"
| "device_call wr rd pton ntop (Close shutdown_result) d = bindR (device_close shutdown_result d) (\<lambda>(d, _). Inr (d, Nothing))"
| "device_call wr rd pton ntop (Read_block evss b) d = bindR (readScanBlock wr rd evss b d) (\<lambda>(d, b, e). Inr (d, Block b e))"
| "device_call wr rd pton ntop (Read_frame evsss f) d = bindR (readScanFrame wr rd evsss f d) (\<lambda>(d, f, r). Inr (d, Frame f r))"
| "device_call wr rd pton ntop (Background evs) d =
     on_session (\<lambda>s. bindR (session_io wr rd evs s) (\<lambda>s. Inr (s, Nothing))) d"

section \<open>What the device promises\<close>

text \<open>The types of the results, as the code reads them.\<close>

datatype result_type = A_string | A_number | An_int | An_int64 | A_bool | A_mac | An_address

fun has_type :: "pton \<Rightarrow> result_type \<Rightarrow> json \<Rightarrow> bool" where
  "has_type pton A_string v \<longleftrightarrow> (case v of JString _ \<Rightarrow> True | _ \<Rightarrow> False)"
| "has_type pton A_number v \<longleftrightarrow> (case v of JInt _ \<Rightarrow> True | JDouble _ \<Rightarrow> True | _ \<Rightarrow> False)"
| "has_type pton An_int v \<longleftrightarrow> IsInt v"
| "has_type pton An_int64 v \<longleftrightarrow> (case v of JInt i \<Rightarrow> - (2 ^ 63) \<le> i \<and> i < 2 ^ 63 | _ \<Rightarrow> False)"
| "has_type pton A_bool v \<longleftrightarrow> (case v of JBool _ \<Rightarrow> True | _ \<Rightarrow> False)"
| "has_type pton A_mac v \<longleftrightarrow>
     (case v of
        JString s \<Rightarrow> 15 \<le> length (c_str s) \<and> (\<forall>i \<in> set [0..<6]. stoi16 (take 2 (drop (i * 3) (c_str s))) \<noteq> None)
      | _ \<Rightarrow> False)"
| "has_type pton An_address v \<longleftrightarrow> (case v of JString s \<Rightarrow> pton (c_str s) \<noteq> None | _ \<Rightarrow> False)"

fun getter_type :: "getter \<Rightarrow> result_type" where
  "getter_type QueryMotorFrequency = A_number"
| "getter_type ReadTimestamp = An_int64"
| "getter_type GetUserMacAddress = A_mac"
| "getter_type GetNetworkAddress = An_address"
| "getter_type GetSubnetMask = An_address"
| "getter_type GetScanFrequency = An_int"
| "getter_type IsShadowFilterEnabled = A_bool"
| "getter_type GetShadowFilterStrength = An_int"
| "getter_type IsOobEnabled = A_bool"
| "getter_type GetOobAutoStartStreaming = A_bool"
| "getter_type GetOobTargetAddress = An_address"
| "getter_type GetOobTargetPort = An_int"
| "getter_type (VerifyHash expected) = A_bool"
| "getter_type g = A_string"

section \<open>One query for every getter, one request for every other command\<close>

text \<open>A fault the JSON accessors or the conversions of text raise: the process ends, and no memory is touched that is not its own.\<close>

definition orderly :: "fault \<Rightarrow> bool" where
  "orderly f \<longleftrightarrow> f = Assertion \<or> (\<exists>w. f = Uncaught w)"

lemma orderly_simps [simp]: "orderly Assertion" "orderly (Uncaught w)"
  by (simp_all add: orderly_def)

text \<open>
  All getters follow one scheme: a request, a query whose value is decoded, and for two of them a table of names at the end, in
  which a name may be missing.
\<close>

definition query_scheme :: "pton \<Rightarrow> result_type \<Rightarrow> (exec \<Rightarrow> device \<Rightarrow> (device \<times> error_t \<times> output_value option) res) \<Rightarrow> bool" where
  "query_scheme pton \<tau> command \<longleftrightarrow>
     (\<exists>r (decode :: json \<Rightarrow> output_value res) finish. IsObject r \<and>
       (\<forall>exec d. command exec d = bindR (query exec (Inr r) decode d) (\<lambda>(d, e, v). Inr (d, finish e v))) \<and>
       (\<forall>v. has_type pton \<tau> v \<longrightarrow> (\<exists>x. decode v = Inr x)) \<and> (\<forall>v f. decode v = Inl f \<longrightarrow> orderly f) \<and>
       (\<forall>e v. (v = None \<longleftrightarrow> e \<noteq> no_error) \<longrightarrow> (snd (finish e v) = None \<longleftrightarrow> fst (finish e v) \<noteq> no_error)))"

lemma query_schemeE:
  assumes "query_scheme pton \<tau> command"
  obtains r and decode :: "json \<Rightarrow> output_value res" and finish where "IsObject r"
    and "\<forall>exec d. command exec d = bindR (query exec (Inr r) decode d) (\<lambda>(d, e, v). Inr (d, finish e v))"
    and "\<forall>v. has_type pton \<tau> v \<longrightarrow> (\<exists>x. decode v = Inr x)" and "\<forall>v f. decode v = Inl f \<longrightarrow> orderly f"
    and "\<forall>e v. (v = None \<longleftrightarrow> e \<noteq> no_error) \<longrightarrow> (snd (finish e v) = None \<longleftrightarrow> fst (finish e v) \<noteq> no_error)"
  using assms unfolding query_scheme_def by (elim exE conjE) (rule that; assumption)

lemma boxed_query:
  "boxed box (query exec request decode d) = query exec request (\<lambda>v. bindR (decode v) (\<lambda>x. Inr (box x))) d"
  by (auto simp: boxed_def query_def bindR_assoc intro!: bindR_cong)

lemma query_schemeI:
  assumes "\<And>exec d. command exec d = boxed box (query exec request decode d)" and "request = Inr r" and "IsObject r"
    and "\<And>v. has_type pton \<tau> v \<Longrightarrow> \<exists>x. decode v = Inr x" and "\<And>v f. decode v = Inl f \<Longrightarrow> orderly f"
  shows "query_scheme pton \<tau> command"
proof -
  let ?decode = "\<lambda>v. bindR (decode v) (\<lambda>x. Inr (box x))"
  have "command exec d = bindR (query exec (Inr r) ?decode d) (\<lambda>(d, e, v). Inr (d, e, v))" for exec d
    by (simp add: assms(1,2) boxed_query bindR_Inr_id)
  moreover have "\<exists>x. ?decode v = Inr x" if "has_type pton \<tau> v" for v using assms(4) [OF that] by auto
  moreover have "orderly f" if "?decode v = Inl f" for v f using that assms(5) by (auto simp: bindR_Inl_iff)
  ultimately show ?thesis
    unfolding query_scheme_def using assms(3) by (intro exI [of _ r] exI [of _ ?decode] exI [of _ Pair]) simp
qed

lemma decode_string_typed: "has_type pton A_string v \<Longrightarrow> \<exists>x. decode_string v = Inr x"
  by (cases v) (simp_all add: decode_string_def)

lemma decode_string_fault: "decode_string v = Inl f \<Longrightarrow> orderly f"
  by (cases v) (auto simp: decode_string_def GetString_def bindR_Inl_iff)

definition finish_name :: "(string \<Rightarrow> 'a option) \<Rightarrow> ('a \<Rightarrow> output_value) \<Rightarrow> error_t \<Rightarrow> output_value option \<Rightarrow> error_t \<times> output_value option" where
  "finish_name f box e v =
     (case v of Some (Text s) \<Rightarrow> (case f s of Some x \<Rightarrow> (e, Some (box x)) | None \<Rightarrow> (device_error, None)) | _ \<Rightarrow> (e, v))"

lemma named_finish:
  "boxed box (bindR (query exec request decode_string d) (named f)) =
    bindR (boxed Text (query exec request decode_string d)) (\<lambda>(d, e, v). Inr (d, finish_name f box e v))"
proof (cases "query exec request decode_string d")
  case (Inr r)
  obtain d' e v where "r = (d', e, v)" by (cases r)
  with Inr show ?thesis by (cases v) (simp_all add: boxed_def named_def finish_name_def split: option.split)
qed (simp add: boxed_def)

lemma named_scheme:
  assumes "\<And>exec d. command exec d = boxed box (bindR (query exec request decode_string d) (named f))" and "request = Inr r" and "IsObject r"
  shows "query_scheme pton A_string command"
proof -
  let ?decode = "\<lambda>v. bindR (decode_string v) (\<lambda>s. Inr (Text s))"
  have "command exec d = bindR (query exec (Inr r) ?decode d) (\<lambda>(d, e, v). Inr (d, finish_name f box e v))" for exec d
    by (simp add: assms(1,2) named_finish boxed_query)
  moreover have "snd (finish_name f box e v) = None \<longleftrightarrow> fst (finish_name f box e v) \<noteq> no_error" if "v = None \<longleftrightarrow> e \<noteq> no_error" for e v
    using that by (auto simp: finish_name_def split: option.split output_value.split)
  moreover have "\<exists>x. ?decode v = Inr x" if "has_type pton A_string v" for v using decode_string_typed [OF that] by auto
  moreover have "orderly g" if "?decode v = Inl g" for v g using that decode_string_fault by (auto simp: bindR_Inl_iff)
  ultimately show ?thesis
    unfolding query_scheme_def using assms(3) by (intro exI [of _ r] exI [of _ ?decode] exI [of _ "finish_name f box"]) simp
qed

lemma decode_typed:
  "has_type pton A_number v \<Longrightarrow> \<exists>x. GetDouble v = Inr x" "has_type pton An_int v \<Longrightarrow> \<exists>x. GetInt v = Inr x"
  "has_type pton An_int64 v \<Longrightarrow> \<exists>x. decode_timestamp v = Inr x" "has_type pton A_bool v \<Longrightarrow> \<exists>x. GetBool v = Inr x"
  "has_type pton An_int v \<Longrightarrow> \<exists>x. decode_port v = Inr x" "has_type pton An_address v \<Longrightarrow> \<exists>x. decode_address pton v = Inr x"
  by (cases v; auto simp: GetDouble_def IsInt_def decode_timestamp_def GetInt64_def decode_port_def decode_address_def decode_string_def)+

lemma decode_mac_typed: "has_type pton A_mac v \<Longrightarrow> \<exists>x. decode_mac v = Inr x"
proof (cases v)
  case (JString s)
  assume t: "has_type pton A_mac v"
  have "mac_byte (c_str s) i = Inr (word_of_int (the (stoi16 (take 2 (drop (i * 3) (c_str s))))))" if "i \<in> set [0..<6]" for i
    using t that JString by (auto simp: mac_byte_def split: option.split)
  then have "mapR (mac_byte (c_str s)) [0..<6] = Inr (map (\<lambda>i. word_of_int (the (stoi16 (take 2 (drop (i * 3) (c_str s)))))) [0..<6])"
    by (rule mapR_total)
  then show ?thesis using JString by (simp add: decode_mac_def decode_string_def)
qed auto

lemma decode_fault:
  "GetDouble v = Inl f \<Longrightarrow> orderly f" "GetInt v = Inl f \<Longrightarrow> orderly f" "decode_timestamp v = Inl f \<Longrightarrow> orderly f"
  "GetBool v = Inl f \<Longrightarrow> orderly f" "decode_port v = Inl f \<Longrightarrow> orderly f" "decode_address pton v = Inl f \<Longrightarrow> orderly f"
  by (cases v; auto simp: GetDouble_def GetInt_def decode_timestamp_def GetInt64_def GetBool_def decode_port_def decode_address_def
      decode_string_def GetString_def bindR_Inl_iff split: if_splits option.splits)+

lemma mapR_orderly: "mapR g xs = Inl f \<Longrightarrow> (\<And>x f. g x = Inl f \<Longrightarrow> orderly f) \<Longrightarrow> orderly f"
  by (induction xs) (auto simp: bindR_Inl_iff)

lemma decode_mac_fault: "decode_mac v = Inl f \<Longrightarrow> orderly f"
proof -
  assume "decode_mac v = Inl f"
  then consider "decode_string v = Inl f" | s where "mapR (mac_byte s) [0..<6] = Inl f" by (auto simp: decode_mac_def bindR_Inl_iff)
  then show ?thesis
  proof cases
    case 2
    then show ?thesis by (rule mapR_orderly) (auto simp: mac_byte_def split: if_splits option.splits)
  qed (rule decode_string_fault)
qed

text \<open>The arguments the caller has to give.\<close>

fun getter_arguments :: "getter \<Rightarrow> bool" where
  "getter_arguments (VerifyHash expected) \<longleftrightarrow> HASH_LENGTH \<le> length expected"
| "getter_arguments g \<longleftrightarrow> True"

fun action_arguments :: "action \<Rightarrow> bool" where
  "action_arguments (SetUserMacAddress addr) \<longleftrightarrow> 6 \<le> length addr"
| "action_arguments a \<longleftrightarrow> True"

lemmas query_defs = queryOperationMode_def queryModel_def querySerial_def queryFirmwareVersion_def queryHardwareVersion_def
  queryState_def queryMotorFrequency_def readTimestamp_def getUserMacAddress_def verifyHash_def encode_buffer_eq request_param_def

lemmas request_eqs = request_entry_eq request_method_eq request_value_eq request_appended_eq

lemmas results_typed = decode_string_typed decode_typed decode_mac_typed

lemmas results_fault = decode_string_fault decode_fault decode_mac_fault

lemma getter_query_scheme:
  assumes "getter_arguments g"
  shows "query_scheme pton (getter_type g) (\<lambda>exec d. get_value pton exec g d)"
proof (cases g)
  case GetScanResolution
  then show ?thesis unfolding GetScanResolution getter_type.simps
    by (intro named_scheme) (simp add: setting_defs request_eqs, rule refl, simp add: IsObject_def)
next
  case GetAngularFov
  then show ?thesis unfolding GetAngularFov getter_type.simps
    by (intro named_scheme) (simp add: setting_defs request_eqs, rule refl, simp add: IsObject_def)
next
  case (VerifyHash expected)
  with assms show ?thesis unfolding VerifyHash getter_type.simps
    by (intro query_schemeI) (simp add: query_defs request_eqs, rule refl, simp add: IsObject_def,
      erule results_typed, erule results_fault)
qed (simp only: getter_type.simps, rule query_schemeI,
    simp add: query_defs address_defs setting_defs request_eqs, rule refl, simp add: IsObject_def, erule results_typed, erule results_fault)+

text \<open>The actions are one request each.\<close>

lemmas action_defs = resetTimestamp_def startMeasurement_def stopMeasurement_def startStreaming_def stopStreaming_def setUserMacAddress_def
  persistSettings_def beginUpdate_def writeData_def endUpdate_def commitUpdate_def encode_buffer_eq request_param_def

lemma action_perform:
  assumes "action_arguments a"
  shows "\<exists>r. IsObject r \<and> (\<forall>exec d. do_action ntop exec a d = perform exec (Inr r) d)"
proof -
  have one: "\<exists>r. IsObject r \<and> (\<forall>exec d. f exec d = perform exec (Inr r) d)"
    if "\<And>exec d. f exec d = perform exec (Inr r) d" "IsObject r" for f r using that by blast
  show ?thesis
    using assms
    by (cases a) (simp only: do_action.simps, rule one,
      simp add: action_defs address_defs setting_defs request_eqs, simp add: IsObject_def)+
qed

end
