(* ===== verification/Device_Contract.thy ===== *)
theory Device_Contract
  imports Device_Calls
begin

text \<open>
  What a command gives, without and with a promise of the device about the type of its results, as two locales over the contract of
  \<open>Device_Base\<close>; the session satisfies both.  Then the rules a caller has to keep, the promises, and the replies.
\<close>

section \<open>The contract of a command, without and with a promise\<close>

text \<open>\<open>can_send\<close>: the session has a transport and the next identifier fits an \<open>int\<close>.\<close>

locale orderly_channel = command_channel +
  fixes can_send :: "session \<Rightarrow> bool"
  assumes exec_fault: "inv s \<Longrightarrow> can_send s \<Longrightarrow> IsObject r \<Longrightarrow> exec r s = Inl f \<Longrightarrow> orderly f"
begin

lemma query_orderly:
  assumes "session' d = Some s" and "inv s" and "can_send s" and "IsObject r" and "\<And>v f. decode v = Inl f \<Longrightarrow> orderly f"
    and "query exec (Inr r) decode d = Inl f"
  shows "orderly f"
  using query_fault [OF assms(1,2,6)]
proof (elim disjE exE conjE)
  assume "execute exec (Inr r) d = Inl f"
  with assms(1) have "exec r s = Inl f" by (auto simp: execute_def bindR_Inl_iff)
  with exec_fault assms(2-4) show ?thesis by blast
qed (use assms(5) in blast)

lemma scheme_orderly:
  assumes "session' d = Some s" and "inv s" and "can_send s" and "query_scheme pton \<tau> command" and "command exec d = Inl f"
  shows "orderly f"
proof -
  obtain r and decode :: "json \<Rightarrow> output_value res" and finish where sch: "IsObject r"
    "\<forall>exec d. command exec d = bindR (query exec (Inr r) decode d) (\<lambda>(d, e, v). Inr (d, finish e v))"
    "\<forall>v f. decode v = Inl f \<longrightarrow> orderly f"
    by (rule query_schemeE [OF assms(4)]) (rule that; assumption)
  with assms(5) have "query exec (Inr r) decode d = Inl f" by (auto simp: bindR_Inl_iff)
  with query_orderly [OF assms(1-3) sch(1)] sch(3) show ?thesis by blast
qed

lemma perform_orderly:
  assumes "session' d = Some s" and "inv s" and "can_send s" and "IsObject r" and "perform exec (Inr r) d = Inl f"
  shows "orderly f"
proof -
  have "exec r s = Inl f" using assms(1,5) by (auto simp: perform_def execute_def bindR_Inl_iff)
  with exec_fault assms(2-4) show ?thesis by blast
qed

lemma query_scheme_keeps:
  assumes "session' d = Some s" and "inv s" and "query_scheme pton \<tau> command" and "command exec d = Inr (d', e, v)"
  shows "\<exists>s'. d' = d\<lparr>session' := Some s'\<rparr> \<and> inv s' \<and> (v = None \<longleftrightarrow> e \<noteq> no_error)"
proof -
  obtain r and decode :: "json \<Rightarrow> output_value res" and finish where sch:
    "\<forall>exec d. command exec d = bindR (query exec (Inr r) decode d) (\<lambda>(d, e, v). Inr (d, finish e v))"
    "\<forall>e v. (v = None \<longleftrightarrow> e \<noteq> no_error) \<longrightarrow> (snd (finish e v) = None \<longleftrightarrow> fst (finish e v) \<noteq> no_error)"
    by (rule query_schemeE [OF assms(3)]) (rule that; assumption)
  have "bindR (query exec (Inr r) decode d) (\<lambda>(d, e, v). Inr (d, finish e v)) = Inr (d', e, v)"
    using assms(4) sch(1) by simp
  then obtain e0 v0 where q: "query exec (Inr r) decode d = Inr (d', e0, v0)" and "finish e0 v0 = (e, v)"
    by (cases "query exec (Inr r) decode d") auto
  from query_outcome [OF assms(1,2) q] obtain s' where "d' = d\<lparr>session' := Some s'\<rparr>" "inv s'"
    and v0: "if e0 = no_error then \<exists>response x. execute exec (Inr r) d = Inr (d', e0, response) \<and>
      decode (the_member response ''result'') = Inr x \<and> v0 = Some x else v0 = None"
    by (elim exE conjE) (rule that; assumption)
  moreover have "v0 = None \<longleftrightarrow> e0 \<noteq> no_error"
  proof (cases "e0 = no_error")
    case True
    with v0 obtain x where "v0 = Some x" unfolding if_P [OF True] by (elim exE conjE)
    with True show ?thesis by simp
  qed (use v0 in simp)
  moreover from this have "snd (finish e0 v0) = None \<longleftrightarrow> fst (finish e0 v0) \<noteq> no_error" by (rule sch(2) [rule_format])
  then have "v = None \<longleftrightarrow> e \<noteq> no_error" using \<open>finish e0 v0 = (e, v)\<close> by simp
  ultimately show ?thesis by blast
qed

lemma perform_keeps:
  assumes "session' d = Some s" and "inv s" and "perform exec request d = Inr (d', e)"
  shows "\<exists>s'. d' = d\<lparr>session' := Some s'\<rparr> \<and> inv s'"
proof -
  from assms(3) obtain response where "execute exec request d = Inr (d', e, response)" by (auto simp: perform_def bindR_Inr_iff)
  from execute_outcome [OF assms(1,2) this] show ?thesis by blast
qed

end

locale typed_channel = orderly_channel +
  fixes pton :: pton and \<tau> :: result_type
  assumes exec_returns: "inv s \<Longrightarrow> can_send s \<Longrightarrow> IsObject r \<Longrightarrow> \<exists>x. exec r s = Inr x"
    and exec_promise: "inv s \<Longrightarrow> can_send s \<Longrightarrow> exec r s = Inr (s', e, Some m) \<Longrightarrow> has_type pton \<tau> (the_member m ''result'')"
begin

lemma perform_returns:
  assumes "session' d = Some s" and "inv s" and "can_send s" and "IsObject r"
  shows "\<exists>x. perform exec (Inr r) d = Inr x"
  using exec_returns [OF assms(2-4)] assms(1) by (auto simp: perform_def execute_def)

lemma query_returns:
  assumes "session' d = Some s" and "inv s" and "can_send s" and "IsObject r" and "\<And>v. has_type pton \<tau> v \<Longrightarrow> \<exists>x. decode v = Inr x"
  shows "\<exists>x. query exec (Inr r) decode d = Inr x"
proof -
  obtain s' e m where x: "exec r s = Inr (s', e, m)" using exec_returns [OF assms(2-4)] by auto
  show ?thesis
  proof (cases m)
    case None
    with exec_code [OF assms(2) x] x assms(1) show ?thesis by (simp add: query_def execute_def)
  next
    case (Some d0)
    with exec_promise [OF assms(2,3)] exec_result [OF assms(2)] x assms(5) obtain y where
      "has d0 ''result''" "decode (the_member d0 ''result'') = Inr y" by blast
    with Some x assms(1) show ?thesis by (simp add: query_def execute_def member_the)
  qed
qed

lemma scheme_returns:
  assumes "session' d = Some s" and "inv s" and "can_send s" and "query_scheme pton \<tau> command"
  shows "\<exists>x. command exec d = Inr x"
proof -
  obtain r and decode :: "json \<Rightarrow> output_value res" and finish where sch: "IsObject r"
    "\<forall>exec d. command exec d = bindR (query exec (Inr r) decode d) (\<lambda>(d, e, v). Inr (d, finish e v))"
    "\<forall>v. has_type pton \<tau> v \<longrightarrow> (\<exists>x. decode v = Inr x)"
    by (rule query_schemeE [OF assms(4)]) (rule that; assumption)
  then have "\<exists>x. query exec (Inr r) decode d = Inr x" by (intro query_returns [OF assms(1-3)]) blast+
  with sch(2) show ?thesis by (auto split: prod.split)
qed

end

section \<open>The session satisfies both\<close>

definition can_send :: "session \<Rightarrow> bool" where
  "can_send s \<longleftrightarrow> isOpened s \<and> id' s < 2 ^ 31 - 1"

text \<open>Of the answers to request \<open>i\<close> the device promises the type of the result.\<close>

definition answers_typed :: "json_reader \<Rightarrow> pton \<Rightarrow> int \<Rightarrow> result_type \<Rightarrow> bool" where
  "answers_typed rd pton i \<tau> \<longleftrightarrow>
     (\<forall>buf m. fst (rd buf) = Some m \<longrightarrow> answers i m \<longrightarrow> has m ''result'' \<longrightarrow> has_type pton \<tau> (the_member m ''result''))"

interpretation any_device: orderly_channel "executeCommand_response wr rd evss" "\<lambda>s. session_ok s \<and> session_path wr rd s0 s" can_send
  for wr rd evss s0
proof
  fix s r s' e resp assume s: "session_ok s \<and> session_path wr rd s0 s" and run: "executeCommand_response wr rd evss r s = Inr (s', e, resp)"
  then show "session_ok s' \<and> session_path wr rd s0 s'"
    using executeCommand_ok [OF _ run] path_step [OF _ step_command [OF run], of s0] by simp
  show "resp = None \<longleftrightarrow> e \<noteq> no_error" using executeCommand_channel [OF _ run] s by simp
next
  fix s r s' e d assume "session_ok s \<and> session_path wr rd s0 s" "executeCommand_response wr rd evss r s = Inr (s', e, Some d)"
  then show "has d ''result''" using executeCommand_channel by blast
next
  fix s r f assume "session_ok s \<and> session_path wr rd s0 s" "can_send s" "IsObject r" "executeCommand_response wr rd evss r s = Inl f"
  then show "orderly f" using executeCommand_fault [of s r wr rd evss f] by (simp add: can_send_def)
qed

lemma executeCommand_promise:
  assumes "session_ok s" and "answers_typed rd pton (id' s + 1) \<tau>" and run: "executeCommand_response wr rd evss r s = Inr (s', e, Some m)"
  shows "has_type pton \<tau> (the_member m ''result'')"
proof -
  obtain cbs where c: "command_result (id' s + 1) (response_queue s) (messages cbs) e (Some m) (response_queue s')"
    and rdr: "list_all (from_reader rd) cbs"
    by (rule executeCommand_run [OF assms(1) run]) (rule that; assumption)
  then have "m = last (filter (answers (id' s + 1)) (messages cbs))" "filter (answers (id' s + 1)) (messages cbs) \<noteq> []" "has m ''result''"
    by (auto simp: command_result_def Let_def split: if_splits)
  with last_in_set [of "filter (answers (id' s + 1)) (messages cbs)"] have "m \<in> set (messages cbs)" "answers (id' s + 1) m" by auto
  with messages_from_reader [OF rdr] assms(2) \<open>has m ''result''\<close> show ?thesis unfolding answers_typed_def by blast
qed

text \<open>The invariant of a session that has only met identifiers that fit.\<close>

definition session_typed :: "json_reader \<Rightarrow> session \<Rightarrow> bool" where
  "session_typed rd s \<longleftrightarrow> int_ids rd \<and> session_ok s \<and> kept_int s"

interpretation typed_device: typed_channel "executeCommand_response wr rd evss" "session_typed rd"
    "\<lambda>s. can_send s \<and> answers_typed rd pton (id' s + 1) \<tau>" pton \<tau>
  for wr rd evss pton \<tau>
proof
  fix s r s' e resp assume s: "session_typed rd s" and run: "executeCommand_response wr rd evss r s = Inr (s', e, resp)"
  then show "session_typed rd s'" using executeCommand_ok executeCommand_kept by (simp add: session_typed_def) blast
  show "resp = None \<longleftrightarrow> e \<noteq> no_error" using executeCommand_channel [OF _ run] s by (simp add: session_typed_def)
next
  fix s r s' e d assume "session_typed rd s" and run: "executeCommand_response wr rd evss r s = Inr (s', e, Some d)"
  then show "has d ''result''" using executeCommand_channel [OF _ run] by (simp add: session_typed_def)
next
  fix s r assume s: "session_typed rd s" "can_send s \<and> answers_typed rd pton (id' s + 1) \<tau>" "IsObject r"
  then obtain t where "transport' s = Some t" by (auto simp: can_send_def isOpened_def split: option.splits)
  with s show ret: "\<exists>x. executeCommand_response wr rd evss r s = Inr x"
    using executeCommand_returns [of rd s r t wr evss] by (auto simp: session_typed_def can_send_def)
  fix f assume "executeCommand_response wr rd evss r s = Inl f"
  with ret show "orderly f" by simp
next
  fix s r s' e m assume "session_typed rd s" "can_send s \<and> answers_typed rd pton (id' s + 1) \<tau>"
    "executeCommand_response wr rd evss r s = Inr (s', e, Some m)"
  then show "has_type pton \<tau> (the_member m ''result'')" using executeCommand_promise by (auto simp: session_typed_def)
qed

section \<open>The rules for a call\<close>

text \<open>
  What the documentation leaves to the caller: commands only on an open device, \<open>open\<close> only on a closed one, arrays of the
  required length; the socket can be shut down.  Scan data has to be decodable.
\<close>

fun allowed_on :: "json_reader \<Rightarrow> call \<Rightarrow> session \<Rightarrow> bool" where
  "allowed_on rd (Get g evss) s \<longleftrightarrow> isOpened s \<and> getter_arguments g"
| "allowed_on rd (Do a evss) s \<longleftrightarrow> isOpened s \<and> action_arguments a"
| "allowed_on rd Reboot s \<longleftrightarrow> isOpened s"
| "allowed_on rd Reboot_to_bootloader s \<longleftrightarrow> isOpened s"
| "allowed_on rd (Set_timeout ms) s \<longleftrightarrow> True"
| "allowed_on rd (Open outcome bind_result shutdown_result evss1 evss2) s \<longleftrightarrow>
     \<not> isOpened s \<and> shutdown_result = None"
| "allowed_on rd (Close shutdown_result) s \<longleftrightarrow> shutdown_result = None"
| "allowed_on rd (Read_block evss b) s \<longleftrightarrow> scan_all decodable rd (concat evss) s"
| "allowed_on rd (Read_frame evsss f) s \<longleftrightarrow> (\<exists>m. scan_all (samples_in m) rd (concat (concat evsss)) s)"
| "allowed_on rd (Background evs) s \<longleftrightarrow> True"

text \<open>The promises of the device a call relies on.\<close>

fun promised_on :: "json_reader \<Rightarrow> pton \<Rightarrow> call \<Rightarrow> session \<Rightarrow> bool" where
  "promised_on rd pton (Get g evss) s \<longleftrightarrow> answers_typed rd pton (id' s + 1) (getter_type g)"
| "promised_on rd pton (Open outcome bind_result shutdown_result evss1 evss2) s \<longleftrightarrow>
     answers_typed rd pton (id' s + 1) A_bool \<and> answers_typed rd pton (id' s + 2) An_int"
| "promised_on rd pton c s \<longleftrightarrow> True"

definition allowed :: "json_reader \<Rightarrow> call \<Rightarrow> device \<Rightarrow> bool" where
  "allowed rd c d \<longleftrightarrow> (case session' d of None \<Rightarrow> False | Some s \<Rightarrow> allowed_on rd c s)"

text \<open>The identifiers that are left allow for another call.\<close>

definition ids_used :: "device \<Rightarrow> int" where
  "ids_used d = (case session' d of None \<Rightarrow> 0 | Some s \<Rightarrow> id' s)"

abbreviation room :: "device \<Rightarrow> bool" where
  "room d \<equiv> ids_used d + int 2 < 2 ^ 31"

definition promised :: "json_reader \<Rightarrow> pton \<Rightarrow> call \<Rightarrow> device \<Rightarrow> bool" where
  "promised rd pton c d \<longleftrightarrow> (case session' d of None \<Rightarrow> False | Some s \<Rightarrow> promised_on rd pton c s)"

text \<open>Replies of the right kind; a value comes exactly with \<open>no_error\<close>.\<close>

fun fits_call :: "call \<Rightarrow> reply \<Rightarrow> bool" where
  "fits_call (Get g evss) (Answer e v) \<longleftrightarrow> (v = None \<longleftrightarrow> e \<noteq> no_error)"
| "fits_call (Do a evss) (Code e) \<longleftrightarrow> True"
| "fits_call (Open outcome bind_result shutdown_result evss1 evss2) (Code e) \<longleftrightarrow> True"
| "fits_call (Read_block evss b) (Block b' e) \<longleftrightarrow> True"
| "fits_call (Read_frame evsss f) (Frame f' r) \<longleftrightarrow> True"
| "fits_call Reboot Nothing \<longleftrightarrow> True"
| "fits_call Reboot_to_bootloader Nothing \<longleftrightarrow> True"
| "fits_call (Set_timeout ms) Nothing \<longleftrightarrow> True"
| "fits_call (Close shutdown_result) Nothing \<longleftrightarrow> True"
| "fits_call (Background evs) Nothing \<longleftrightarrow> True"
| "fits_call c r \<longleftrightarrow> False"

definition device_ok :: "(session \<Rightarrow> bool) \<Rightarrow> device \<Rightarrow> bool" where
  "device_ok keeps d \<longleftrightarrow> (\<exists>s. session' d = Some s \<and> keeps s) \<and> (\<exists>a p. location' d = Some (NetworkLocation a p))"

end
