(* ===== verification/Device_Programs.thy ===== *)
theory Device_Programs
  imports Device_Contract
begin

text \<open>
  Programs over the interface: every call leaves the device where it was with a session that has come on by its own steps, and faults
  only as it may.  So a list of calls that keeps to the rules runs to its end, against a device that keeps its
  promises, or ends in the JSON library or an exception, against any other.
\<close>

lemma session_path_typed:
  "session_path wr rd s0 s \<Longrightarrow> session_typed rd s0 \<Longrightarrow> session_typed rd s"
proof (induction rule: session_path.induct)
  case (path_step s s')
  then show ?case using session_step_ok [of wr rd s s'] session_step_kept [of wr rd s s'] by (simp add: session_typed_def)
qed

section \<open>What a call leaves behind\<close>

text \<open>The device is where it was, and its session has come on by steps of its own, which took at most \<open>n\<close> identifiers.\<close>

definition comes_on :: "json_writer \<Rightarrow> json_reader \<Rightarrow> nat \<Rightarrow> device \<Rightarrow> device \<Rightarrow> bool" where
  "comes_on wr rd n d d' \<longleftrightarrow>
    (\<exists>s s'. session' d = Some s \<and> session' d' = Some s' \<and> session_path wr rd s s' \<and> (session_ok s \<longrightarrow> id' s' \<le> id' s + int n)) \<and>
    location' d' = location' d"

lemma comes_on_trans: "comes_on wr rd m d1 d2 \<Longrightarrow> comes_on wr rd n d2 d3 \<Longrightarrow> comes_on wr rd (m + n) d1 d3"
  unfolding comes_on_def using session_path_trans session_path_ok by fastforce

lemma comes_on_weaken: "comes_on wr rd m d d' \<Longrightarrow> m \<le> n \<Longrightarrow> comes_on wr rd n d d'"
  unfolding comes_on_def by fastforce

lemma comes_on_ids:
  assumes "comes_on wr rd n d d'" and "device_ok session_ok d"
  shows "ids_used d' \<le> ids_used d + int n"
  using assms by (auto simp: comes_on_def device_ok_def ids_used_def)

lemma comes_on_ok:
  assumes "comes_on wr rd n d d'" and "device_ok session_ok d"
  shows "device_ok session_ok d'"
  using assms session_path_ok by (auto simp: comes_on_def device_ok_def)

lemma comes_on_typed:
  assumes "comes_on wr rd n d d'" and "device_ok (session_typed rd) d"
  shows "device_ok (session_typed rd) d'"
  using assms session_path_typed by (auto simp: comes_on_def device_ok_def)

lemma on_session_step:
  assumes "on_session f d = Inr (d', x)"
    and "\<And>s s'. f s = Inr (s', x) \<Longrightarrow> session_path wr rd s s' \<and> (session_ok s \<longrightarrow> id' s' \<le> id' s + int n)"
  shows "comes_on wr rd n d d'"
  using assms by (auto simp: on_session_def comes_on_def bindR_Inr_iff split: option.splits)

lemma send_request_id: "send_request wr request s = Inr s' \<Longrightarrow> id' s' = id' s + 1"
  by (auto simp: send_request_def Let_def bindR_Inr_iff split: if_splits option.splits)

lemma close_session_id: "close_session x s = Inr s' \<Longrightarrow> id' s' = id' s"
  by (auto simp: close_session_def bindR_Inr_iff)

lemma post_comes_on: "post wr request d = Inr (d', u) \<Longrightarrow> comes_on wr rd 1 d d'"
  unfolding post_def
  by (erule on_session_step)
    (auto simp: bindR_Inr_iff executeCommand_def dest: send_request_id intro: path_step [OF path_start step_request [unfolded executeCommand_def]])

lemma device_close_comes_on: "device_close x d = Inr (d', u) \<Longrightarrow> comes_on wr rd 0 d d'"
  unfolding device_close_def
  by (erule on_session_step) (auto simp: bindR_Inr_iff dest: close_session_id intro: path_step [OF path_start step_close])

lemma execute_comes_on:
  assumes "execute (executeCommand_response wr rd evss) request d = Inr (d', e, x)"
  shows "comes_on wr rd 1 d d'"
proof -
  from assms obtain s r s' resp where "session' d = Some s" "executeCommand_response wr rd evss r s = Inr (s', e, resp)"
    "d' = d\<lparr>session' := Some s'\<rparr>"
    by (auto simp: execute_def bindR_Inr_iff split: option.splits)
  with path_step [OF path_start step_command [OF this(2)]] executeCommand_ok [OF _ this(2)] show ?thesis by (simp add: comes_on_def)
qed

lemma query_comes_on:
  assumes "query (executeCommand_response wr rd evss) request decode d = Inr (d', e, v)"
  shows "comes_on wr rd 1 d d'"
proof -
  from assms obtain x where "execute (executeCommand_response wr rd evss) request d = Inr (d', e, x)"
    by (auto simp: query_def bindR_Inr_iff split: if_splits)
  then show ?thesis by (rule execute_comes_on)
qed

lemma perform_comes_on:
  assumes "perform (executeCommand_response wr rd evss) request d = Inr (d', e)"
  shows "comes_on wr rd 1 d d'"
proof -
  from assms obtain x where "execute (executeCommand_response wr rd evss) request d = Inr (d', e, x)"
    by (auto simp: perform_def bindR_Inr_iff)
  then show ?thesis by (rule execute_comes_on)
qed

lemma open_oob_comes_on:
  assumes "open_oob (executeCommand_response wr rd evss) bind_result x d = Inr (d', e)"
  shows "comes_on wr rd 1 d d'"
proof -
  obtain d1 e1 v1 where q: "getOobTargetPort (executeCommand_response wr rd evss) d = Inr (d1, e1, v1)"
    and rest: "(if e1 = no_error then
         bindR (on_session (enableOobTransport (NetworkLocation (htonl INADDR_ANY) (case v1 of Some p \<Rightarrow> p | None \<Rightarrow> 0)) bind_result) d1)
           (\<lambda>(d, result). if result \<noteq> no_error then bindR (device_close x d) (\<lambda>(d, _). Inr (d, result)) else Inr (d, result))
       else bindR (device_close x d1) (\<lambda>(d, _). Inr (d, unknown))) = Inr (d', e)"
    using assms unfolding open_oob_def bindR_Inr_iff by auto
  have d1: "comes_on wr rd 1 d d1" by (rule query_comes_on [OF q [unfolded getOobTargetPort_def]])
  have close: "comes_on wr rd 0 d2 d'" if "bindR (device_close x d2) (\<lambda>(d, _). Inr (d, r)) = Inr (d', e)" for d2 r
    using that device_close_comes_on by (auto simp: bindR_Inr_iff)
  show ?thesis
  proof (cases "e1 = no_error")
    case False
    with rest close [of d1 unknown] comes_on_trans [OF d1] show ?thesis by simp
  next
    case True
    with rest obtain d2 e2 where en: "on_session (enableOobTransport (NetworkLocation (htonl INADDR_ANY) (case v1 of Some p \<Rightarrow> p | None \<Rightarrow> 0))
        bind_result) d1 = Inr (d2, e2)"
      and fin: "(if e2 \<noteq> no_error then bindR (device_close x d2) (\<lambda>(d, _). Inr (d, e2)) else Inr (d2, e2)) = Inr (d', e)"
      by (auto simp: bindR_Inr_iff)
    have "comes_on wr rd 0 d1 d2"
      using en by (rule on_session_step) (use enableOobTransport_ok in \<open>auto intro: path_step [OF path_start step_enable_oob]\<close>)
    with comes_on_trans [OF d1] have d2: "comes_on wr rd 1 d d2" by fastforce
    show ?thesis
    proof (cases "e2 = no_error")
      case True
      with fin d2 show ?thesis by simp
    next
      case False
      with fin close [of d2 e2] comes_on_trans [OF d2] show ?thesis by simp
    qed
  qed
qed

lemma Device_open_comes_on:
  assumes "Device_open (executeCommand_response wr rd evss1) (executeCommand_response wr rd evss2) outcome bind_result x d = Inr (d', e)"
  shows "comes_on wr rd 2 d d'"
proof -
  obtain d1 e1 where b: "base_open outcome d = Inr (d1, e1)" and rest: "(if e1 = no_error then
       bindR (isOobEnabled (executeCommand_response wr rd evss1) d1) (\<lambda>(d, e, oob_enabled).
         if e = no_error \<and> oob_enabled = Some True then open_oob (executeCommand_response wr rd evss2) bind_result x d
         else Inr (d, e1))
     else Inr (d1, e1)) = Inr (d', e)"
    using assms unfolding Device_open_def bindR_Inr_iff by auto
  have d1: "comes_on wr rd 0 d d1"
    using b unfolding base_open_def
    by (elim on_session_step) (use open_session_ok in \<open>auto intro: path_step [OF path_start step_open] split: option.splits\<close>)
  show ?thesis
  proof (cases "e1 = no_error")
    case False
    with rest d1 show ?thesis using comes_on_weaken [OF d1, of 2] by simp
  next
    case True
    with rest obtain d2 e2 v2 where q: "isOobEnabled (executeCommand_response wr rd evss1) d1 = Inr (d2, e2, v2)"
      and fin: "(if e2 = no_error \<and> v2 = Some True then open_oob (executeCommand_response wr rd evss2) bind_result x d2
        else Inr (d2, e1)) = Inr (d', e)"
      by (auto simp: bindR_Inr_iff)
    have d2: "comes_on wr rd 1 d d2" using comes_on_trans [OF d1 query_comes_on [OF q [unfolded isOobEnabled_def]]] by simp
    show ?thesis
    proof (cases "e2 = no_error \<and> v2 = Some True")
      case True
      with fin have "comes_on wr rd 1 d2 d'" using open_oob_comes_on by simp
      from comes_on_trans [OF d2 this] show ?thesis by (simp add: numeral_2_eq_2)
    next
      case False
      with fin comes_on_weaken [OF d2, of 2] show ?thesis by auto
    qed
  qed
qed

lemma query_scheme_comes_on:
  assumes "query_scheme pton \<tau> command" and "command (executeCommand_response wr rd evss) d = Inr (d', e, v)"
  shows "comes_on wr rd 1 d d'"
proof -
  obtain r and decode :: "json \<Rightarrow> output_value res" and finish where
    "\<forall>exec d. command exec d = bindR (query exec (Inr r) decode d) (\<lambda>(d, e, v). Inr (d, finish e v))"
    by (rule query_schemeE [OF assms(1)]) (rule that; assumption)
  with assms(2) have "bindR (query (executeCommand_response wr rd evss) (Inr r) decode d) (\<lambda>(d, e, v). Inr (d, finish e v)) = Inr (d', e, v)"
    by simp
  then obtain e0 v0 where "query (executeCommand_response wr rd evss) (Inr r) decode d = Inr (d', e0, v0)"
    by (cases "query (executeCommand_response wr rd evss) (Inr r) decode d") auto
  then show ?thesis by (rule query_comes_on)
qed

lemma device_okE:
  assumes "device_ok keeps d"
  obtains s a p where "session' d = Some s" "keeps s" "location' d = Some (NetworkLocation a p)"
  using assms by (auto simp: device_ok_def)

lemma read_call_returns:
  assumes "device_ok session_ok d" and "allowed rd (Read_block evss b) d"
  shows "\<exists>d' r. device_call wr rd pton ntop (Read_block evss b) d = Inr (d', r) \<and> comes_on wr rd 0 d d' \<and> fits_call (Read_block evss b) r"
proof -
  obtain s where s: "session' d = Some s" "session_ok s" using assms(1) by (auto elim: device_okE)
  with assms(2) have "scan_all decodable rd (concat evss) s" by (simp add: allowed_def)
  from read_block_returns [OF s(2) this, of wr b] obtain s' b' e where
    "read_block wr rd evss s b = Inr (s', b', e)" "session_path wr rd s s'" "id' s' = id' s" by blast
  with s(1) show ?thesis by (simp add: readScanBlock_def on_session_def comes_on_def)
qed

lemma frame_call_returns:
  assumes "device_ok session_ok d" and "allowed rd (Read_frame evsss f) d"
  shows "\<exists>d' r. device_call wr rd pton ntop (Read_frame evsss f) d = Inr (d', r) \<and> comes_on wr rd 0 d d' \<and> fits_call (Read_frame evsss f) r"
proof -
  obtain s where s: "session' d = Some s" "session_ok s" using assms(1) by (auto elim: device_okE)
  with assms(2) obtain m where "scan_all (samples_in m) rd (concat (concat evsss)) s" by (auto simp: allowed_def)
  from read_frame_returns [OF s(2) this, of wr f] obtain s' f' r where
    "read_frame wr rd evsss s f = Inr (s', f', r)" "session_path wr rd s s'" "id' s' = id' s" by blast
  with s(1) show ?thesis by (simp add: readScanFrame_def on_session_def comes_on_def)
qed

lemma device_call_keeps:
  assumes ok: "device_ok session_ok d" and "allowed rd c d" and run: "device_call wr rd pton ntop c d = Inr (d', r)"
  shows "comes_on wr rd 2 d d' \<and> fits_call c r"
proof (cases c)
  case (Get g evss)
  obtain s where s: "session' d = Some s" "session_ok s" using ok by (auto elim: device_okE)
  with Get assms(2) have g: "getter_arguments g" by (simp add: allowed_def)
  from run Get obtain e v where v: "get_value pton (executeCommand_response wr rd evss) g d = Inr (d', e, v)" and "r = Answer e v"
    by (auto simp: bindR_Inr_iff)
  with any_device.query_scheme_keeps [OF s(1) _ getter_query_scheme [OF g] v, of s] s(2) path_start [of wr rd s]
  show ?thesis using comes_on_weaken [OF query_scheme_comes_on [OF getter_query_scheme [OF g] v], of 2] Get by auto
next
  case (Do a evss)
  then have "action_arguments a" using assms(2) by (simp add: allowed_def split: option.splits)
  then obtain req where "\<forall>exec d. do_action ntop exec a d = perform exec (Inr req) d" using action_perform by metis
  with run Do show ?thesis by (auto simp: bindR_Inr_iff intro: comes_on_weaken [OF perform_comes_on])
next
  case (Set_timeout ms)
  with run show ?thesis
    by (auto simp: device_setTimeout_def bindR_Inr_iff setTimeout_def elim!: on_session_step
        intro: path_step [OF path_start step_timeout [unfolded setTimeout_def]])
next
  case (Background evs)
  with run have on: "on_session (\<lambda>s. bindR (session_io wr rd evs s) (\<lambda>s. Inr (s, Nothing))) d = Inr (d', r)" by simp
  then have "r = Nothing" by (auto simp: on_session_def bindR_Inr_iff split: option.splits)
  with Background on_session_step [OF on] session_io_id show ?thesis
    by (auto simp: bindR_Inr_iff intro: path_step [OF path_start step_io])
next
  case (Read_block evss b)
  with read_call_returns [OF ok, of rd evss b wr pton ntop] assms(2) run comes_on_weaken [of wr rd 0 d d' 2] show ?thesis by auto
next
  case (Read_frame evsss f)
  with frame_call_returns [OF ok, of rd evsss f wr pton ntop] assms(2) run comes_on_weaken [of wr rd 0 d d' 2] show ?thesis by auto
qed (use run in \<open>auto simp: reboot_def rebootToBootloader_def bindR_Inr_iff
  intro: comes_on_weaken [OF post_comes_on] comes_on_weaken [OF device_close_comes_on] Device_open_comes_on\<close>)

lemma room_can_send: "room d \<Longrightarrow> session' d = Some s \<Longrightarrow> isOpened s \<Longrightarrow> can_send s"
  by (simp add: ids_used_def can_send_def)

text \<open>Requests without a response, and closing.\<close>

lemma post_returns:
  assumes "session' d = Some s" and "can_send s" and "request = Inr r" "IsObject r"
  shows "\<exists>d'. post wr request d = Inr (d', ())"
proof -
  obtain t where "transport' s = Some t" using assms(2) by (auto simp: can_send_def isOpened_def split: option.splits)
  with send_request_eq [OF assms(4), of s t wr] assms show ?thesis
    by (simp add: post_def on_session_def executeCommand_def can_send_def)
qed

lemma device_close_returns: "session' d = Some s \<Longrightarrow> \<exists>d'. device_close None d = Inr (d', ())"
  by (auto simp: device_close_def on_session_def close_session_def disconnect_def split: option.split)

text \<open>The traffic of a command does not touch the datagram socket, and takes one identifier.\<close>

lemma query_socket:
  assumes s: "session' d = Some s" "session_ok s" "transport' s = Some t"
    and run: "query (executeCommand_response wr rd evss) request decode d = Inr (d', e, v)"
  shows "\<exists>s' t'. d' = d\<lparr>session' := Some s'\<rparr> \<and> session_ok s' \<and> transport' s' = Some t' \<and> oob_open t' = oob_open t \<and> id' s' = id' s + 1"
proof -
  from s(1) run obtain r s' resp where x: "executeCommand_response wr rd evss r s = Inr (s', e, resp)" and d': "d' = d\<lparr>session' := Some s'\<rparr>"
    by (auto simp: query_def execute_def bindR_Inr_iff split: if_splits)
  obtain t0 n t' cbs where t0: "transport' s = Some t0"
    and io: "io_run wr rd (concat (take n evss)) (transmitMessage wr (with_id r (id' s + 1)) t0) = Inr (t', cbs)"
    and s': "s' = (after_io t' cbs (sent wr r s t0))\<lparr>response_queue := response_queue s'\<rparr>"
    by (rule executeCommand_run [OF s(2) x]) (rule that; assumption)
  let ?t = "transmitMessage wr (with_id r (id' s + 1)) t0"
  have tx: "same_callbacks t0 ?t" by (rule transmitMessage_owner)
  then have "received_message_callback ?t" using s(2) t0 by (simp add: session_ok_def same_callbacks_def)
  from io_run_owner [OF this, of wr rd "concat (take n evss)"] io have "same_callbacks ?t t'" by auto
  with tx t0 s(3) have "oob_open t' = oob_open t" by (simp add: same_callbacks_def)
  moreover have "transport' s' = Some t'" by (subst s') simp
  ultimately show ?thesis using executeCommand_ok [OF s(2) x] d' by auto
qed

text \<open>Opening a closed session gives no session, or one with a fresh transport.\<close>

lemma base_open_returns:
  assumes "session' d = Some s" and "session_ok s" and "location' d = Some (NetworkLocation a p)" and "\<not> isOpened s"
  shows "\<exists>s1 e. base_open outcome d = Inr (d\<lparr>session' := Some s1\<rparr>, e) \<and> session_ok s1 \<and> id' s1 = id' s \<and> open_session (NetworkLocation a p) outcome s = Inr (s1, e) \<and>
    (e = no_error \<longrightarrow> (\<exists>t. transport' s1 = Some t \<and> \<not> oob_open t \<and> isOpened s1))"
proof -
  have "transport' s = None" using assms(2,4) by (auto simp: session_ok_def isOpened_def isConnected_def split: option.splits)
  then obtain s1 e where o: "open_session (NetworkLocation a p) outcome s = Inr (s1, e)"
    by (auto simp: open_session_def Transport_create_def Let_def)
  moreover have "e = no_error \<longrightarrow> (\<exists>t. transport' s1 = Some t \<and> \<not> oob_open t)"
    using o by (auto simp: opens split: option.splits asio_error.splits if_splits)
  ultimately show ?thesis
    using open_session_ok [OF assms(2) o] open_session_opened [OF o] assms(1,3) by (auto simp: base_open_def on_session_def)
qed

lemma open_oob_returns:
  assumes d: "session' d = Some s" "session_ok s" "transport' s = Some t" and "\<not> oob_open t"
    and q: "getOobTargetPort (executeCommand_response wr rd evss) d = Inr x"
  shows "\<exists>y. open_oob (executeCommand_response wr rd evss) bind_result None d = Inr y"
proof -
  obtain d1 e1 v1 where x: "x = (d1, e1, v1)" by (cases x)
  from query_socket [OF d q [unfolded getOobTargetPort_def x]] \<open>\<not> oob_open t\<close> obtain s1 t1 where
    s1: "session' d1 = Some s1" "transport' s1 = Some t1" "\<not> oob_open t1" by auto
  obtain s2 e2 where en: "on_session (enableOobTransport (NetworkLocation (htonl INADDR_ANY) (case v1 of Some p \<Rightarrow> p | None \<Rightarrow> 0)) bind_result) d1 =
      Inr (d1\<lparr>session' := Some s2\<rparr>, e2)"
    using s1 by (cases bind_result) (auto simp: on_session_def enableOobTransport_def enableOob_def)
  obtain d3 where "device_close None d1 = Inr (d3, ())" using device_close_returns [OF s1(1)] by blast
  moreover obtain d4 where "device_close None (d1\<lparr>session' := Some s2\<rparr>) = Inr (d4, ())"
    using device_close_returns [of "d1\<lparr>session' := Some s2\<rparr>" s2] by auto
  ultimately show ?thesis using q x en by (cases "e1 = no_error"; cases "e2 = no_error") (simp_all add: open_oob_def)
qed

text \<open>\<open>open\<close> can only fault in one of its two queries.\<close>

lemma Device_open_fault:
  assumes d: "session' d = Some s" "session_ok s" "location' d = Some (NetworkLocation a p)" "\<not> isOpened s"
    and run: "Device_open (executeCommand_response wr rd evss1) (executeCommand_response wr rd evss2) outcome bind_result None d = Inl f"
  shows "\<exists>s1. session_ok s1 \<and> session_path wr rd s s1 \<and> isOpened s1 \<and>
    (id' s1 = id' s \<and> isOobEnabled (executeCommand_response wr rd evss1) (d\<lparr>session' := Some s1\<rparr>) = Inl f \<or>
     id' s1 = id' s + 1 \<and> getOobTargetPort (executeCommand_response wr rd evss2) (d\<lparr>session' := Some s1\<rparr>) = Inl f)"
proof -
  from base_open_returns [OF d, of outcome] obtain s1 e where b: "base_open outcome d = Inr (d\<lparr>session' := Some s1\<rparr>, e)"
    and s1: "session_ok s1" "id' s1 = id' s" and o: "open_session (NetworkLocation a p) outcome s = Inr (s1, e)" and t: "e = no_error \<longrightarrow> (\<exists>t. transport' s1 = Some t \<and> \<not> oob_open t \<and> isOpened s1)" by blast
  from run b have e: "e = no_error" by (auto simp: Device_open_def split: if_splits)
  with t obtain t where t: "transport' s1 = Some t" "\<not> oob_open t" "isOpened s1" by blast
  let ?d1 = "d\<lparr>session' := Some s1\<rparr>" and ?q = "isOobEnabled (executeCommand_response wr rd evss1) (d\<lparr>session' := Some s1\<rparr>)"
  have path: "session_path wr rd s s1" by (rule path_step [OF path_start step_open [OF o]])
  show ?thesis
  proof (cases ?q)
    case (Inl g)
    with run b e have "g = f" by (simp add: Device_open_def)
    with Inl s1 t(3) path show ?thesis by blast
  next
    case (Inr x)
    obtain d2 e2 v2 where x: "x = (d2, e2, v2)" by (cases x)
    have s1d: "session' ?d1 = Some s1" by simp
    from query_socket [OF s1d s1(1) t(1) Inr [unfolded isOobEnabled_def x]] t(2) obtain s2 t2 where
      s2: "d2 = ?d1\<lparr>session' := Some s2\<rparr>" "session_ok s2" "transport' s2 = Some t2" "\<not> oob_open t2" "id' s2 = id' s1 + 1" by blast
    have "comes_on wr rd 1 ?d1 d2" by (rule query_comes_on [OF Inr [unfolded isOobEnabled_def x]])
    with s2(1) have "session_path wr rd s1 s2" by (simp add: comes_on_def)
    with path have path2: "session_path wr rd s s2" using session_path_trans by blast
    have open2: "isOpened s2" using s2(2,3) by (simp add: session_ok_def isOpened_def isConnected_def)
    from run b e Inr x have oob: "open_oob (executeCommand_response wr rd evss2) bind_result None d2 = Inl f"
      by (simp add: Device_open_def split: if_splits)
    have s2d: "session' d2 = Some s2" using s2(1) by simp
    obtain g where g: "getOobTargetPort (executeCommand_response wr rd evss2) d2 = Inl g"
    proof (cases "getOobTargetPort (executeCommand_response wr rd evss2) d2")
      case (Inr y)
      with open_oob_returns [OF s2d s2(2-4) Inr, of bind_result] oob show thesis by simp
    qed (rule that)
    with oob have "g = f" by (simp add: open_oob_def)
    with g s2(1,2,5) s1(2) path2 open2 show ?thesis by auto
  qed
qed

text \<open>The requests of the two queries of \<open>open\<close>.\<close>

definition get_request :: "string \<Rightarrow> json" where
  "get_request entry = JObject [(''jsonrpc'', JString ''2.0''), (''method'', JString ''settings/get''),
     (''params'', JObject [(''entry'', JString entry)])]"

lemma open_queries:
  "IsObject (get_request entry)"
  "isOobEnabled exec d = query exec (Inr (get_request ''transport.oob.enabled'')) GetBool d"
  "getOobTargetPort exec d = query exec (Inr (get_request ''transport.oob.targetPort'')) decode_port d"
  by (simp_all add: get_request_def IsObject_def isOobEnabled_def getOobTargetPort_def request_entry_eq)

lemma reboot_returns:
  assumes "session' d = Some s" and "can_send s"
  shows "\<exists>d'. reboot wr d = Inr (d', ())" "\<exists>d'. rebootToBootloader wr d = Inr (d', ())"
  unfolding reboot_def rebootToBootloader_def by (rule post_returns [OF assms request_method_eq], simp add: IsObject_def)+

section \<open>Calls that wait for no response\<close>

lemma other_call_returns:
  assumes ok: "device_ok session_ok d" and "allowed rd c d" and "room d"
  obtains (get) g evss where "c = Get g evss" | (act) a evss where "c = Do a evss"
    | (opens) outcome bind_result x evss1 evss2 where "c = Open outcome bind_result x evss1 evss2"
    | (returns) x where "device_call wr rd pton ntop c d = Inr x"
proof -
  obtain s where s: "session' d = Some s" "session_ok s" using ok by (auto elim: device_okE)
  have al: "allowed_on rd c s" using assms(2) s(1) by (simp add: allowed_def)
  note send = room_can_send [OF assms(3) s(1)]
  show thesis
  proof (cases c)
    case Reboot
    with al send reboot_returns(1) [OF s(1), of wr] returns show ?thesis by auto
  next
    case Reboot_to_bootloader
    with al send reboot_returns(2) [OF s(1), of wr] returns show ?thesis by auto
  next
    case (Set_timeout ms)
    with s(1) returns show ?thesis by (simp add: device_setTimeout_def on_session_def)
  next
    case (Close x)
    with al device_close_returns [OF s(1)] returns show ?thesis by auto
  next
    case (Read_block evss b)
    with read_call_returns [OF ok, of rd evss b wr pton ntop] assms(2) returns show ?thesis by blast
  next
    case (Read_frame evsss f)
    with frame_call_returns [OF ok, of rd evsss f wr pton ntop] assms(2) returns show ?thesis by blast
  next
    case (Background evs)
    with s session_io_total [of s wr rd evs] returns show ?thesis by (auto simp: on_session_def)
  qed (rule that; assumption)+
qed

text \<open>Where \<open>open\<close> can fault.\<close>

lemma open_call_fault:
  assumes s: "session' d = Some s" "session_ok s" and l: "location' d = Some (NetworkLocation a p)"
    and al: "allowed_on rd (Open outcome bind_result x evss1 evss2) s" and room: "room d"
    and run: "device_call wr rd pton ntop (Open outcome bind_result x evss1 evss2) d = Inl f"
  obtains (enabled) s1 where "session_ok s1" "session_path wr rd s s1" "can_send s1" "id' s1 = id' s"
      "isOobEnabled (executeCommand_response wr rd evss1) (d\<lparr>session' := Some s1\<rparr>) = Inl f"
    | (port) s1 where "session_ok s1" "session_path wr rd s s1" "can_send s1" "id' s1 = id' s + 1"
      "getOobTargetPort (executeCommand_response wr rd evss2) (d\<lparr>session' := Some s1\<rparr>) = Inl f"
proof -
  from al room s(1) have o: "\<not> isOpened s" "id' s < 2 ^ 31 - 2" "x = None" by (simp_all add: ids_used_def)
  from run o(3) have "Device_open (executeCommand_response wr rd evss1) (executeCommand_response wr rd evss2) outcome bind_result None d = Inl f"
    by (auto simp: bindR_Inl_iff)
  from Device_open_fault [OF s l o(1) this] obtain s1 where s1: "session_ok s1" "session_path wr rd s s1" "isOpened s1"
    and q: "id' s1 = id' s \<and> isOobEnabled (executeCommand_response wr rd evss1) (d\<lparr>session' := Some s1\<rparr>) = Inl f \<or>
      id' s1 = id' s + 1 \<and> getOobTargetPort (executeCommand_response wr rd evss2) (d\<lparr>session' := Some s1\<rparr>) = Inl f" by blast
  then have "can_send s1" using o(2) by (auto simp: can_send_def)
  with q s1 that show thesis by blast
qed

section \<open>Any device\<close>

lemma device_call_orderly:
  assumes ok: "device_ok session_ok d" and allowed: "allowed rd c d" and room: "room d" and run: "device_call wr rd pton ntop c d = Inl f"
  shows "orderly f"
proof -
  obtain s a p where s: "session' d = Some s" "session_ok s" and l: "location' d = Some (NetworkLocation a p)"
    using ok by (auto elim: device_okE)
  have path: "session_ok s \<and> session_path wr rd s s" using s(2) path_start by blast
  have al: "allowed_on rd c s" using allowed s(1) by (simp add: allowed_def)
  note send = room_can_send [OF room s(1)]
  from ok allowed room show ?thesis
  proof (cases rule: other_call_returns [where wr = wr and pton = pton and ntop = ntop])
    case (get g evss)
    with al send have g: "can_send s" "getter_arguments g" by simp_all
    from run get have "get_value pton (executeCommand_response wr rd evss) g d = Inl f" by (auto simp: bindR_Inl_iff)
    with any_device.scheme_orderly [OF s(1) path g(1) getter_query_scheme [OF g(2), of pton], of evss f] show ?thesis by simp
  next
    case (act a evss)
    with al send obtain req where c: "can_send s" "IsObject req" "\<forall>exec d. do_action ntop exec a d = perform exec (Inr req) d"
      using action_perform [of a ntop] by auto
    with run act have "perform (executeCommand_response wr rd evss) (Inr req) d = Inl f" by (auto simp: bindR_Inl_iff)
    with any_device.perform_orderly [OF s(1) path c(1,2)] show ?thesis by simp
  next
    case (opens outcome bind_result x evss1 evss2)
    have set: "session' (d\<lparr>session' := Some s1\<rparr>) = Some s1" for s1 by simp
    from s l al room run show ?thesis unfolding opens
    proof (cases rule: open_call_fault)
      case (enabled s1)
      then show ?thesis using set decode_fault(4) open_queries(1) unfolding open_queries(2) by (metis any_device.query_orderly)
    next
      case (port s1)
      then show ?thesis using set decode_fault(5) open_queries(1) unfolding open_queries(3) by (metis any_device.query_orderly)
    qed
  qed (use run in simp)
qed

section \<open>A device that keeps its promises\<close>

lemma open_call_returns:
  assumes "session' d = Some s" and t: "session_typed rd s" and "location' d = Some (NetworkLocation a p)"
    and "allowed_on rd (Open outcome bind_result x evss1 evss2) s" and "room d"
    and pr: "promised_on rd pton (Open outcome bind_result x evss1 evss2) s"
  shows "device_call wr rd pton ntop (Open outcome bind_result x evss1 evss2) d \<noteq> Inl f"
proof
  assume run: "device_call wr rd pton ntop (Open outcome bind_result x evss1 evss2) d = Inl f"
  have set: "session' (d\<lparr>session' := Some s1\<rparr>) = Some s1" for s1 by simp
  have "session_ok s" using t by (simp add: session_typed_def)
  from assms(1) this assms(3-5) run show False
  proof (cases rule: open_call_fault)
    case (enabled s1)
    with pr have "can_send s1 \<and> answers_typed rd pton (id' s1 + 1) A_bool" by simp
    then have "\<exists>x. isOobEnabled (executeCommand_response wr rd evss1) (d\<lparr>session' := Some s1\<rparr>) = Inr x"
      unfolding open_queries(2)
      by (rule typed_device.query_returns [OF set session_path_typed [OF enabled(2) t] _ open_queries(1) decode_typed(4)])
    with enabled(5) show False by simp
  next
    case (port s1)
    with pr have "can_send s1 \<and> answers_typed rd pton (id' s1 + 1) An_int" by (simp add: add.commute)
    then have "\<exists>x. getOobTargetPort (executeCommand_response wr rd evss2) (d\<lparr>session' := Some s1\<rparr>) = Inr x"
      unfolding open_queries(3)
      by (rule typed_device.query_returns [OF set session_path_typed [OF port(2) t] _ open_queries(1) decode_typed(5)])
    with port(5) show False by simp
  qed
qed

lemma device_call_returns:
  assumes ok: "device_ok (session_typed rd) d" and allowed: "allowed rd c d" and "promised rd pton c d" and room: "room d"
  shows "\<exists>x. device_call wr rd pton ntop c d = Inr x"
proof -
  obtain s a p where s: "session' d = Some s" "session_typed rd s" and l: "location' d = Some (NetworkLocation a p)"
    using ok by (auto elim: device_okE)
  have al: "allowed_on rd c s" and pr: "promised_on rd pton c s" using allowed assms(3) s(1) by (simp_all add: allowed_def promised_def)
  have "device_ok session_ok d" using ok by (auto simp: session_typed_def device_ok_def)
  note send = room_can_send [OF room s(1)]
  from \<open>device_ok session_ok d\<close> allowed room show ?thesis
  proof (cases rule: other_call_returns [where wr = wr and pton = pton and ntop = ntop])
    case (get g evss)
    with al pr send have g: "can_send s \<and> answers_typed rd pton (id' s + 1) (getter_type g)" "getter_arguments g" by simp_all
    from typed_device.scheme_returns [OF s g(1) getter_query_scheme [OF g(2)], of wr evss] get show ?thesis
      by (auto split: prod.splits)
  next
    case (act a evss)
    with al send obtain req where c: "can_send s" "IsObject req" "\<forall>exec d. do_action ntop exec a d = perform exec (Inr req) d"
      using action_perform [of a ntop] by auto
    with s(2) executeCommand_returns [of rd s req _ wr evss] have "\<exists>x. executeCommand_response wr rd evss req s = Inr x"
      by (auto simp: session_typed_def can_send_def isOpened_def split: option.splits)
    with act c(3) s(1) show ?thesis by (auto simp: perform_def execute_def)
  next
    case (opens outcome bind_result x evss1 evss2)
    with open_call_returns [OF s l _ room] al pr show ?thesis by (cases "device_call wr rd pton ntop c d") blast+
  qed blast
qed

text \<open>The calls use up identifiers, at most two each.\<close>

lemma device_call_ok:
  assumes "device_ok session_ok d" and "allowed rd c d" and "device_call wr rd pton ntop c d = Inr (d', r)"
  shows "device_ok session_ok d' \<and> ids_used d' \<le> ids_used d + int 2"
  using device_call_keeps [OF assms] comes_on_ok [OF _ assms(1)] comes_on_ids [OF _ assms(1)] by blast

interpretation identifiers: budgeted_steps "device_call wr rd pton ntop" "allowed rd" "device_ok session_ok" ids_used 2
  for wr rd pton ntop
  by unfold_locales (rule device_call_ok)

interpretation any_program: sound_steps "device_call wr rd pton ntop" "\<lambda>c d. allowed rd c d \<and> room d" "device_ok session_ok" fits_call orderly
  for wr rd pton ntop
proof
  fix d c d' r assume d: "device_ok session_ok d" "allowed rd c d \<and> room d" "device_call wr rd pton ntop c d = Inr (d', r)"
  from device_call_ok [OF d(1) _ d(3)] device_call_keeps [OF d(1) _ d(3)] d(2) show "device_ok session_ok d' \<and> fits_call c r" by blast
next
  fix d c f assume "device_ok session_ok d" "allowed rd c d \<and> room d" "device_call wr rd pton ntop c d = Inl f"
  then show "orderly f" using device_call_orderly by blast
qed

interpretation typed_program: sound_steps "device_call wr rd pton ntop" "\<lambda>c d. (allowed rd c d \<and> promised rd pton c d) \<and> room d"
    "device_ok (session_typed rd)" fits_call "\<lambda>f. False"
  for wr rd pton ntop
proof
  fix d c d' r
  assume d: "device_ok (session_typed rd) d" "(allowed rd c d \<and> promised rd pton c d) \<and> room d"
    "device_call wr rd pton ntop c d = Inr (d', r)"
  then have "device_ok session_ok d" by (auto simp: device_ok_def session_typed_def)
  from device_call_keeps [OF this _ d(3)] comes_on_typed [OF _ d(1)] d(2) show "device_ok (session_typed rd) d' \<and> fits_call c r" by blast
next
  fix d c f
  assume "device_ok (session_typed rd) d" "(allowed rd c d \<and> promised rd pton c d) \<and> room d" "device_call wr rd pton ntop c d = Inl f"
  then show False using device_call_returns [of rd d c pton wr ntop] by auto
qed

lemma DeviceBase_ok:
  "device_ok session_ok (DeviceBase (NetworkLocation a p))"
  "int_ids rd \<Longrightarrow> device_ok (session_typed rd) (DeviceBase (NetworkLocation a p))"
  using session_ok_Session by (simp_all add: device_ok_def DeviceBase_def keep_network_def session_typed_def kept_int_def Session_def)

text \<open>A program on a new device cannot run out of identifiers in 2^30 calls.\<close>

lemma enough_identifiers:
  assumes "length cs \<le> 2 ^ 30" and "along (device_call wr rd pton ntop) (\<lambda>c d. allowed rd c d \<and> extra c d) cs (DeviceBase (NetworkLocation a p))"
  shows "along (device_call wr rd pton ntop) (\<lambda>c d. (allowed rd c d \<and> extra c d) \<and> room d) cs (DeviceBase (NetworkLocation a p))"
proof (rule identifiers.along_budget [OF DeviceBase_ok(1) _ assms(2)])
  show "ids_used (DeviceBase (NetworkLocation a p)) + int (2 * length cs) < 2 ^ 31"
    using assms(1) by (simp add: ids_used_def DeviceBase_def Session_def)
qed

section \<open>A program for the witnesses\<close>

definition no_pton :: pton where
  "no_pton s = None"

definition no_ntop :: ntop where
  "no_ntop a = []"

definition answer_example :: "json \<Rightarrow> json" where
  "answer_example v = JObject [(''jsonrpc'', JString ''2.0''), (''id'', JInt 1), (''result'', v)]"

definition program_example :: "call list" where
  "program_example = [Open (Some None) None None [] [], Get GetScanFrequency [[line_example]], Close None]"

definition asked_example :: session where
  "asked_example = sent wr_example (get_request ''transport.oob.enabled'') opened_example opened_transport"

lemma open_call_example:
  "device_call wr_example rd no_pton no_ntop (Open (Some None) None None [] []) (DeviceBase (NetworkLocation 1 2)) =
    Inr (\<lparr>location' = Some (NetworkLocation 1 2), session' = Some asked_example\<rparr>, Code no_error)"
proof -
  have "executeCommand_response wr_example rd [] (get_request ''transport.oob.enabled'') opened_example = Inr (asked_example, timed_out, None)"
    unfolding asked_example_def using opened_example opened_idle(5) open_queries(1) by (intro command_unanswered) simp_all
  then show ?thesis
    by (simp add: Device_open_def base_open_def on_session_def DeviceBase_def keep_network_def opened_example(1) open_queries(2)
        query_def execute_def)
qed

lemma asked_example:
  "can_send asked_example" "id' asked_example = 0" "isOpened asked_example" "response_queue asked_example = []"
  using opened_example opened_idle(5)
  by (simp_all add: asked_example_def can_send_def isOpened_def isConnected_def transmitMessage_def start_write_def
      opened_transport_def opens)

lemma get_call_example:
  "device_call wr_example (rd_doc (answer_example v)) no_pton no_ntop (Get GetScanFrequency [[line_example]])
      \<lparr>location' = Some (NetworkLocation 1 2), session' = Some asked_example\<rparr> =
    bindR (GetInt v) (\<lambda>i. Inr (\<lparr>location' = Some (NetworkLocation 1 2),
      session' = Some (sent wr_example (get_request ''scan.frequency'') asked_example (the (transport' asked_example)))\<rparr>,
      Answer no_error (Some (Whole i))))"
proof -
  let ?t = "the (transport' asked_example)"
  have t: "transport' asked_example = Some ?t" "received_message_callback ?t" "reading ?t" "\<not> io_stopped ?t" "incoming_message_buffer ?t = []"
    by (simp_all add: asked_example_def transmitMessage_def start_write_def opened_transport_def opens)
  have r: "IsObject (answer_example v)" "answers (id' asked_example + 1) (answer_example v)"
    "the_member (answer_example v) ''id'' = JInt (id' asked_example + 1)" "has (answer_example v) ''result''"
    "member (answer_example v) ''result'' = Inr v"
    by (simp_all add: answer_example_def IsObject_def answers_def the_member_def has_def eq_int_def asked_example)
  have i: "- 1 \<le> id' asked_example" "id' asked_example < 2 ^ 31 - 1" by (simp_all add: asked_example)
  have "executeCommand_response wr_example (rd_doc (answer_example v)) [[line_example]] (get_request ''scan.frequency'') asked_example =
      Inr (sent wr_example (get_request ''scan.frequency'') asked_example ?t, no_error, Some (answer_example v))"
    by (rule command_reply_doc [OF open_queries(1) t(1) asked_example(4) i t(2-5) r(1-4)])
  then show ?thesis
    by (simp add: getScanFrequency_def query_def execute_def request_entry_eq get_request_def [symmetric] boxed_def bindR_assoc r(5))
qed

definition device_example :: device where
  "device_example = \<lparr>location' = Some (NetworkLocation 1 2), session' = Some asked_example\<rparr>"

lemma calls_allowed:
  "allowed rd (Open (Some None) None None [] []) (DeviceBase (NetworkLocation 1 2))"
  "allowed rd (Get GetScanFrequency evss) device_example"
  "allowed rd (Close None) (device_example\<lparr>session' := Some s\<rparr>)"
  by (simp_all add: allowed_def device_example_def DeviceBase_def keep_network_def Session_def isOpened_def
      asked_example(3) [unfolded isOpened_def])

lemma program_example_short: "length program_example \<le> 2 ^ 30"
  by (simp add: program_example_def)

lemma program_example_along:
  assumes "rule (Open (Some None) None None [] []) (DeviceBase (NetworkLocation 1 2))"
    and "rule (Get GetScanFrequency [[line_example]]) device_example"
    and "\<And>s. rule (Close None) (device_example\<lparr>session' := Some s\<rparr>)"
  shows "along (device_call wr_example (rd_doc (answer_example v)) no_pton no_ntop) rule program_example (DeviceBase (NetworkLocation 1 2))"
proof -
  let ?s = "sent wr_example (get_request ''scan.frequency'') asked_example (the (transport' asked_example))"
  have "rule (Close None) \<lparr>location' = Some (NetworkLocation 1 2), session' = Some ?s\<rparr>"
    using assms(3) [of ?s] by (simp add: device_example_def)
  with assms(1,2) show ?thesis
    by (cases "GetInt v")
      (simp_all add: program_example_def open_call_example get_call_example device_example_def
        del: device_call.simps split: sum.split prod.split)
qed

section \<open>Properties\<close>



text \<open>
  C8: Whatever a device answers to commands (values of any type, numbers that are no identifiers, text that is no address) and
  at whatever time, a program of at most 2^30 calls that keeps to the rules ends with its replies, with a failed assertion of
  the JSON library or with an uncaught exception: no answer makes a command access memory out of bounds or through a null
  pointer, or overflow an identifier. Of the scan data that a program reads it is assumed that it can be decoded.
\<close>

theorem hostile_answers_end_orderly:
  assumes "length cs \<le> 2 ^ 30" and "along (device_call wr rd pton ntop) (allowed rd) cs (DeviceBase (NetworkLocation a p))"
  shows "case run_program (device_call wr rd pton ntop) cs (DeviceBase (NetworkLocation a p)) of
      Inl f \<Rightarrow> f = Assertion \<or> (\<exists>w. f = Uncaught w)
    | Inr (d, rs) \<Rightarrow> list_all2 fits_call cs rs"
proof -
  have "along (device_call wr rd pton ntop) (\<lambda>c d. (allowed rd c d \<and> True) \<and> room d) cs (DeviceBase (NetworkLocation a p))"
    by (rule enough_identifiers [OF assms(1)]) (use assms(2) in simp)
  then have "along (device_call wr rd pton ntop) (\<lambda>c d. allowed rd c d \<and> room d) cs (DeviceBase (NetworkLocation a p))" by simp
  from any_program.run_program_sound [OF DeviceBase_ok(1) this] show ?thesis by (auto simp: orderly_def split: sum.splits)
qed

theorem hostile_answers_end_orderly_witness:
  "run_program (device_call wr_example (rd_doc (answer_example (JString ''fast''))) no_pton no_ntop) program_example
     (DeviceBase (NetworkLocation 1 2)) = Inl Assertion"
  using hostile_answers_end_orderly [OF program_example_short program_example_along [of "allowed (rd_doc (answer_example (JString ''fast'')))", OF calls_allowed]]
  by (simp add: program_example_def open_call_example get_call_example GetInt_def del: device_call.simps)

end
