(* ===== verification/Pending_Documents.thy ===== *)
theory Pending_Documents
  imports Device_Base
begin

text \<open>
  A document in the outgoing queue is turned into characters when its turn comes.  This theory compares two runs of the stack: in
  one the writer sees the documents through a function \<open>f\<close>, in the other \<open>f\<close> was applied when they were submitted.  As long
  as \<open>f\<close> does not change, nobody sees a difference: the relations below are kept by every event and every command.
\<close>

section \<open>The transport\<close>

text \<open>The document at the front has already been written out, so only the others have to agree.\<close>

definition rest_agrees :: "(json \<Rightarrow> json) \<Rightarrow> json list \<Rightarrow> json list \<Rightarrow> bool" where
  "rest_agrees f q q' \<longleftrightarrow> length q' = length q \<and> tl q' = map f (tl q)"

definition sim_transport :: "(json \<Rightarrow> json) \<Rightarrow> transport \<Rightarrow> transport \<Rightarrow> bool" where
  "sim_transport f t u \<longleftrightarrow>
     u = t\<lparr>outgoing_message_queue := outgoing_message_queue u\<rparr> \<and> rest_agrees f (outgoing_message_queue t) (outgoing_message_queue u)"

lemma rest_agrees_simps [simp]:
  "rest_agrees f [] q \<longleftrightarrow> q = []"
  "rest_agrees f [d] [d']"
  "rest_agrees f (d # ds) (d' # ds') \<longleftrightarrow> ds' = map f ds"
  by (auto simp: rest_agrees_def)

lemma rest_agrees_Cons: "rest_agrees f (d # ds) q \<longleftrightarrow> (\<exists>d'. q = d' # map f ds)"
  by (cases q) (auto simp: rest_agrees_def)

lemma rest_agrees_snoc: "rest_agrees f q q' \<Longrightarrow> q \<noteq> [] \<Longrightarrow> rest_agrees f (q @ [d]) (q' @ [f d])"
  by (cases q; cases q') (auto simp: rest_agrees_def)

lemma rest_agrees_short: "length q \<le> 1 \<Longrightarrow> length q' = length q \<Longrightarrow> rest_agrees f q q'"
  by (cases q; cases q') (auto simp: rest_agrees_def)

lemma sim_transportE:
  assumes "sim_transport f t u"
  obtains q where "u = t\<lparr>outgoing_message_queue := q\<rparr>" and "rest_agrees f (outgoing_message_queue t) q"
  using assms unfolding sim_transport_def by blast

lemma sim_transportI: "rest_agrees f (outgoing_message_queue t) q \<Longrightarrow> sim_transport f t (t\<lparr>outgoing_message_queue := q\<rparr>)"
  by (simp add: sim_transport_def)

text \<open>The update of the queue moves behind the other updates.\<close>

lemma queue_behind:
  "t\<lparr>outgoing_message_queue := q, reading := b\<rparr> = t\<lparr>reading := b, outgoing_message_queue := q\<rparr>"
  "t\<lparr>outgoing_message_queue := q, write_op := w\<rparr> = t\<lparr>write_op := w, outgoing_message_queue := q\<rparr>"
  "t\<lparr>outgoing_message_queue := q, wire := x\<rparr> = t\<lparr>wire := x, outgoing_message_queue := q\<rparr>"
  "t\<lparr>outgoing_message_queue := q, incoming_message_buffer := x\<rparr> = t\<lparr>incoming_message_buffer := x, outgoing_message_queue := q\<rparr>"
  by simp_all

lemma incomingMessageHandler_queue:
  "incomingMessageHandler rd e n (t\<lparr>outgoing_message_queue := q\<rparr>) =
     map_prod (\<lambda>t. t\<lparr>outgoing_message_queue := q\<rparr>) id (incomingMessageHandler rd e n t)"
  by (auto simp: incomingMessageHandler_def split: option.split prod.split)

lemma drain_queue:
  "drain rd (t\<lparr>outgoing_message_queue := q\<rparr>) = map_prod (\<lambda>t. t\<lparr>outgoing_message_queue := q\<rparr>) id (drain rd t)"
proof (induction rd t rule: drain.induct)
  case (1 rd t)
  show ?case
  proof (cases "crlf_end (incoming_message_buffer t)")
    case (Some n)
    show ?thesis
    proof (cases "received_message_callback t")
      case True
      with 1 [OF Some True refl] True Some incomingMessageHandler_queue [of rd None n q "t\<lparr>reading := False\<rparr>"] show ?thesis
        by (simp add: drain.simps [of rd t] drain.simps [of rd "t\<lparr>outgoing_message_queue := q\<rparr>"] queue_behind Let_def)
    qed (use Some in \<open>simp add: drain.simps [of rd t] drain.simps [of rd "t\<lparr>outgoing_message_queue := q\<rparr>"]\<close>)
  qed (simp add: drain_none)
qed

lemma settle_queue: "settle (t\<lparr>outgoing_message_queue := q\<rparr>) = (settle t)\<lparr>outgoing_message_queue := q\<rparr>"
  by (simp add: settle_def)

lemma settle_sim: "sim_transport f t u \<Longrightarrow> sim_transport f (settle t) (settle u)"
  by (elim sim_transportE, simp only: settle_queue) (rule sim_transportI, simp add: settle_def)

lemma start_write_sim:
  assumes "outgoing_message_queue t = d # ds"
  shows "sim_transport f (start_write (wr \<circ> f) t) (start_write wr (t\<lparr>outgoing_message_queue := map f (d # ds)\<rparr>))"
  using assms
  by (simp add: start_write_def sim_transport_def encapsulateOutgoingMessage_def Let_def split: prod.split)

lemma transmitMessage_sim:
  assumes "sim_transport f t u"
  shows "sim_transport f (transmitMessage (wr \<circ> f) d t) (transmitMessage wr (f d) u)"
proof -
  obtain q where u: "u = t\<lparr>outgoing_message_queue := q\<rparr>" and q: "rest_agrees f (outgoing_message_queue t) q"
    by (rule sim_transportE [OF assms])
  show ?thesis
  proof (cases "io_stopped t \<or> outgoing_message_queue t \<noteq> []")
    case True
    moreover from q have "q = [] \<longleftrightarrow> outgoing_message_queue t = []" by (auto simp: rest_agrees_def)
    ultimately show ?thesis
      using assms q rest_agrees_snoc [OF q, of d] unfolding u by (auto simp: transmitMessage_def sim_transport_def)
  next
    case False
    with q start_write_sim [of "t\<lparr>outgoing_message_queue := [d]\<rparr>" d "[]" f wr] show ?thesis
      unfolding u by (simp add: transmitMessage_def)
  qed
qed

lemma outgoingMessageHandler_sim:
  assumes "sim_transport f t u"
  shows "rel_prod (\<lambda>t u. sim_transport f (settle t) (settle u)) (=) (outgoingMessageHandler (wr \<circ> f) e t) (outgoingMessageHandler wr e u)"
proof -
  obtain q where u: "u = t\<lparr>outgoing_message_queue := q\<rparr>" and q: "rest_agrees f (outgoing_message_queue t) q"
    by (rule sim_transportE [OF assms])
  show ?thesis
  proof (cases e)
    case (Some x)
    with settle_sim [OF assms] show ?thesis by (simp add: outgoingMessageHandler_def u)
  next
    case None
    let ?t = "t\<lparr>outgoing_message_buffers := ([], [], []), outgoing_message_queue := tl (outgoing_message_queue t)\<rparr>"
    show ?thesis
    proof (cases "tl (outgoing_message_queue t)")
      case Nil
      with q have "tl q = []" by (simp add: rest_agrees_def)
      with Nil None settle_sim [of f ?t "?t\<lparr>outgoing_message_queue := []\<rparr>"] show ?thesis
        by (simp add: outgoingMessageHandler_def u sim_transport_def)
    next
      case (Cons d ds)
      with q have "tl q = map f (d # ds)" by (simp add: rest_agrees_def)
      with Cons None settle_sim [OF start_write_sim [of ?t d ds f wr]] show ?thesis
        by (simp add: outgoingMessageHandler_def u Let_def)
    qed
  qed
qed

lemma io_step_sim:
  assumes "sim_transport f t u"
  shows "rel_res (rel_prod (sim_transport f) (=)) (io_step (wr \<circ> f) rd ev t) (io_step wr rd ev u)"
proof -
  obtain q where u: "u = t\<lparr>outgoing_message_queue := q\<rparr>" and q: "rest_agrees f (outgoing_message_queue t) q"
    by (rule sim_transportE [OF assms])
  have same: "sim_transport f x (x\<lparr>outgoing_message_queue := q\<rparr>)" if "outgoing_message_queue x = outgoing_message_queue t" for x
    using that q by (simp add: sim_transport_def)
  show ?thesis
  proof (cases ev)
    case (Tcp_bytes s)
    let ?t = "t\<lparr>incoming_message_buffer := incoming_message_buffer t @ s\<rparr>"
    have "u\<lparr>incoming_message_buffer := incoming_message_buffer u @ s\<rparr> = ?t\<lparr>outgoing_message_queue := q\<rparr>" by (simp add: u)
    then have "drain rd (u\<lparr>incoming_message_buffer := incoming_message_buffer u @ s\<rparr>) =
        map_prod (\<lambda>t. t\<lparr>outgoing_message_queue := q\<rparr>) id (drain rd ?t)" by (simp only: drain_queue)
    with Tcp_bytes assms same [of "fst (drain rd ?t)"] drain_same [of ?t rd] show ?thesis
      by (cases "drain rd ?t") (auto simp: u same_tx_def)
  next
    case (Tcp_error x)
    then show ?thesis using assms q
      by (auto simp: u incomingMessageHandler_def settle_def sim_transport_def)
  next
    case Write_done
    show ?thesis
    proof (cases "write_op t")
      case (Some x)
      let ?t = "t\<lparr>write_op := None, wire := wire t @ x\<rparr>"
      have "sim_transport f ?t (?t\<lparr>outgoing_message_queue := q\<rparr>)" by (rule sim_transportI) (simp add: q)
      from outgoingMessageHandler_sim [OF this, of wr None] assms Write_done Some show ?thesis
        by (auto simp: u queue_behind elim!: rel_prod.cases)
    qed (use Write_done assms in \<open>simp add: u\<close>)
  next
    case (Write_error x n)
    then show ?thesis
      using assms q by (auto simp: u outgoingMessageHandler_def settle_def sim_transport_def split: option.split)
  next
    case (Udp_packet a p)
    then show ?thesis using assms q by (auto simp: u oobPacketHandler_def sim_transport_def split: prod.split)
  next
    case (Udp_error x)
    then show ?thesis using assms q by (auto simp: u oobPacketHandler_def settle_def sim_transport_def)
  qed
qed

lemma io_run_sim:
  "sim_transport f t u \<Longrightarrow> rel_res (rel_prod (sim_transport f) (=)) (io_run (wr \<circ> f) rd evs t) (io_run wr rd evs u)"
proof (induction evs arbitrary: t u)
  case (Cons ev evs)
  show ?case
    unfolding io_run.simps
    by (rule bindR_rel [OF io_step_sim [OF Cons.prems]])
      (auto elim!: rel_prod.cases intro!: bindR_rel [OF Cons.IH])
qed simp

section \<open>The session\<close>

definition sim_session :: "(json \<Rightarrow> json) \<Rightarrow> session \<Rightarrow> session \<Rightarrow> bool" where
  "sim_session f s u \<longleftrightarrow> u = s\<lparr>transport' := transport' u\<rparr> \<and> rel_option (sim_transport f) (transport' s) (transport' u)"

lemma sim_sessionI: "rel_option (sim_transport f) (transport' s) x \<Longrightarrow> sim_session f s (s\<lparr>transport' := x\<rparr>)"
  by (simp add: sim_session_def)

lemma sim_sessionE:
  assumes "sim_session f s u"
  obtains x where "u = s\<lparr>transport' := x\<rparr>" and "rel_option (sim_transport f) (transport' s) x"
  using assms unfolding sim_session_def by blast

lemma onMessageReceived_transport:
  "onMessageReceived d (s\<lparr>transport' := x\<rparr>) = map_sum id (\<lambda>s. s\<lparr>transport' := x\<rparr>) (onMessageReceived d s)"
  by (auto simp: onMessageReceived_def bindR_def Let_def split: sum.split)

lemma deliver_transport: "deliver cb (s\<lparr>transport' := x\<rparr>) = map_sum id (\<lambda>s. s\<lparr>transport' := x\<rparr>) (deliver cb s)"
  by (cases cb) (simp_all add: onMessageReceived_transport onOobPacketReceived_def Let_def)

lemma onMessageReceived_keeps: "onMessageReceived d s = Inr s' \<Longrightarrow> transport' s' = transport' s"
  by (auto simp: onMessageReceived_def bindR_Inr_iff Let_def split: if_splits)

lemma deliver_keeps: "deliver cb s = Inr s' \<Longrightarrow> transport' s' = transport' s"
  by (cases cb) (auto simp: onOobPacketReceived_def Let_def dest: onMessageReceived_keeps)

lemma deliver_all_sim: "sim_session f s u \<Longrightarrow> rel_res (sim_session f) (deliver_all cbs s) (deliver_all cbs u)"
proof (induction cbs arbitrary: s u)
  case (Cons cb cbs)
  obtain x where u: "u = s\<lparr>transport' := x\<rparr>" and x: "rel_option (sim_transport f) (transport' s) x"
    by (rule sim_sessionE [OF Cons.prems])
  have "rel_res (sim_session f) (deliver cb s) (deliver cb u)"
    unfolding u deliver_transport
    by (cases "deliver cb s") (auto intro!: sim_sessionI simp: x dest: deliver_keeps)
  then show ?case by (simp add: bindR_rel Cons.IH)
qed simp

lemma session_io_sim:
  assumes "sim_session f s u"
  shows "rel_res (sim_session f) (session_io (wr \<circ> f) rd evs s) (session_io wr rd evs u)"
proof -
  obtain x where u: "u = s\<lparr>transport' := x\<rparr>" and x: "rel_option (sim_transport f) (transport' s) x"
    by (rule sim_sessionE [OF assms])
  show ?thesis
  proof (cases "transport' s")
    case None
    with x assms show ?thesis by (simp add: session_io_def u)
  next
    case (Some t)
    with x obtain t' where t': "x = Some t'" "sim_transport f t t'" by (auto simp: option_rel_Some1)
    show ?thesis
      unfolding session_io_def u using Some t'
      by (simp, intro bindR_rel [OF io_run_sim [OF t'(2)]])
        (auto elim!: rel_prod.cases intro!: deliver_all_sim simp: sim_session_def)
  qed
qed

lemma response_ready_sim:
  assumes "sim_session f s u"
  shows "rel_res (rel_prod (sim_session f) (=)) (response_ready s) (response_ready u)"
proof -
  obtain x where u: "u = s\<lparr>transport' := x\<rparr>" and x: "rel_option (sim_transport f) (transport' s) x"
    by (rule sim_sessionE [OF assms])
  have q: "sim_session f (s\<lparr>response_queue := q\<rparr>) (u\<lparr>response_queue := q\<rparr>)" for q
    using x by (simp add: u sim_session_def)
  show ?thesis
    unfolding response_ready_def u using q [unfolded u]
    by (auto simp: bindR_def Let_def split: sum.split list.split)
qed

interpretation pending: related_waits response_ready response_ready "session_io (wr \<circ> f) rd" "session_io wr rd" id "sim_session f"
  for wr f rd
  by unfold_locales (simp_all add: response_ready_sim session_io_sim)

text \<open>\<open>f\<close> acts on the members of a document.\<close>

definition memberwise :: "(json \<Rightarrow> json) \<Rightarrow> bool" where
  "memberwise f \<longleftrightarrow> (\<forall>ms. f (JObject ms) = JObject (map (map_prod id f) ms)) \<and> (\<forall>i. f (JInt i) = JInt i) \<and>
     (\<forall>v. IsObject (f v) \<longrightarrow> IsObject v)"

lemma AddMember_memberwise: "memberwise f \<Longrightarrow> AddMember (f v) name (f x) = map_sum id f (AddMember v name x)"
  by (cases "IsObject v") (auto simp: memberwise_def IsObject_iff AddMember_def split: json.split)

lemma send_request_sim:
  assumes "memberwise f" and "sim_session f s u"
  shows "rel_res (sim_session f) (send_request (wr \<circ> f) request s) (send_request wr (f request) u)"
proof -
  obtain x where u: "u = s\<lparr>transport' := x\<rparr>" and x: "rel_option (sim_transport f) (transport' s) x"
    by (rule sim_sessionE [OF assms(2)])
  have i: "AddMember (f request) ''id'' (JInt j) = map_sum id f (AddMember request ''id'' (JInt j))" for j
    using AddMember_memberwise [OF assms(1), of request "''id''" "JInt j"] assms(1) by (simp add: memberwise_def)
  show ?thesis
    using x by (cases "AddMember request ''id'' (JInt (id' s + 1))"; cases "transport' s"; cases x)
      (auto simp: send_request_def u i Let_def sim_session_def intro: transmitMessage_sim)
qed

lemma executeCommand_sim:
  assumes "memberwise f" and "sim_session f s u"
  shows "rel_res (rel_prod (sim_session f) (=)) (executeCommand_response (wr \<circ> f) rd evss request s)
    (executeCommand_response wr rd evss (f request) u)"
  unfolding executeCommand_response_def executeCommand_among_def
proof (rule bindR_rel [OF send_request_sim [OF assms]], rule bindR_rel)
  fix s u assume "sim_session f s u"
  from pending.wait_rel [OF this, of wr rd evss]
  show "rel_res (rel_prod (sim_session f) (=)) (wait_for response_ready (session_io (wr \<circ> f) rd) evss s)
    (wait_for response_ready (session_io wr rd) evss u)" by simp
next
  fix p q :: "session \<times> bool" assume "rel_prod (sim_session f) (=) p q"
  then obtain s u b where pq: "p = (s, b)" "q = (u, b)" and r: "sim_session f s u" by (auto elim!: rel_prod.cases)
  obtain x where u: "u = s\<lparr>transport' := x\<rparr>" and x: "rel_option (sim_transport f) (transport' s) x"
    by (rule sim_sessionE [OF r])
  then have "sim_session f (s\<lparr>response_queue := y\<rparr>) (u\<lparr>response_queue := y\<rparr>)" for y by (simp add: sim_session_def)
  with r show "rel_res (rel_prod (sim_session f) (=))
      (case p of (s, wait_result) \<Rightarrow> if wait_result then let message = hd (response_queue s) in
         bindR (HasMember message ''result'') (\<lambda>ok. if ok then Inr (s\<lparr>response_queue := tl (response_queue s)\<rparr>, no_error, Some message)
           else bindR (error_of_response message) (\<lambda>e. Inr (s, e, None)))
       else Inr (s, timed_out, None))
      (case q of (s, wait_result) \<Rightarrow> if wait_result then let message = hd (response_queue s) in
         bindR (HasMember message ''result'') (\<lambda>ok. if ok then Inr (s\<lparr>response_queue := tl (response_queue s)\<rparr>, no_error, Some message)
           else bindR (error_of_response message) (\<lambda>e. Inr (s, e, None)))
       else Inr (s, timed_out, None))"
    unfolding pq by (auto simp: u bindR_def Let_def split: sum.split)
qed

section \<open>The device\<close>

definition sim_device :: "(json \<Rightarrow> json) \<Rightarrow> device \<Rightarrow> device \<Rightarrow> bool" where
  "sim_device f d e \<longleftrightarrow> location' e = location' d \<and> rel_option (sim_session f) (session' d) (session' e)"

lemma execute_sim:
  assumes "memberwise f" and "sim_device f d e" and "request' = map_sum id f request"
  shows "rel_res (rel_prod (sim_device f) (=)) (execute (executeCommand_response (wr \<circ> f) rd evss) request d)
    (execute (executeCommand_response wr rd evss) request' e)"
proof (cases "session' d")
  case None
  with assms(2) show ?thesis by (simp add: execute_def sim_device_def)
next
  case (Some s)
  with assms(2) obtain u where u: "session' e = Some u" "sim_session f s u" by (auto simp: sim_device_def option_rel_Some1)
  show ?thesis
  proof (cases request)
    case (Inl x)
    with assms(3) Some u show ?thesis by (simp add: execute_def)
  next
    case (Inr r)
    show ?thesis
      unfolding execute_def using Some u Inr assms(2,3)
      by (simp, intro bindR_rel [OF executeCommand_sim [OF assms(1) u(2)]])
        (auto elim!: rel_prod.cases simp: sim_device_def)
  qed
qed

lemma perform_sim:
  assumes "memberwise f" and "sim_device f d e" and "request' = map_sum id f request"
  shows "rel_res (rel_prod (sim_device f) (=)) (perform (executeCommand_response (wr \<circ> f) rd evss) request d)
    (perform (executeCommand_response wr rd evss) request' e)"
  unfolding perform_def
  by (rule bindR_rel [OF execute_sim [OF assms]]) (auto elim!: rel_prod.cases)

lemma query_sim:
  assumes "memberwise f" and "sim_device f d e" and "request' = map_sum id f request"
  shows "rel_res (rel_prod (sim_device f) (=)) (query (executeCommand_response (wr \<circ> f) rd evss) request decode d)
    (query (executeCommand_response wr rd evss) request' decode e)"
  unfolding query_def
  by (rule bindR_rel [OF execute_sim [OF assms]])
    (auto elim!: rel_prod.cases simp: bindR_def split: sum.split)

end
