(* ===== verification/Shared_Text.thy ===== *)
theory Shared_Text
  imports Pending_Documents Bootloader Device
begin

text \<open>
  The memory behind \<open>StringRef\<close>.  \<open>writeData\<close> and \<open>verifyHash\<close> (src/bootloader.cpp) put their text in a \<open>static std::string\<close>,
  \<open>setScanResolution\<close> and \<open>setAngularFov\<close> (src/device.cpp) in a local one, and the request only refers to its characters.
  They are read when the transport writes the request out, which may be after the command has timed out.  The operations of
  this theory are the same commands with that memory; those of \<open>Bootloader\<close> and \<open>Device\<close>, where a request has a copy of
  its text, are what they refine as long as no request is left waiting behind another one.
\<close>

section \<open>Memory\<close>

record memory =
  heap_blocks :: "nat \<Rightarrow> string option"
  heap_next :: nat

definition allocate :: "string \<Rightarrow> memory \<Rightarrow> nat \<times> memory" where
  "allocate chars m = (heap_next m, m\<lparr>heap_blocks := (heap_blocks m)(heap_next m \<mapsto> chars), heap_next := heap_next m + 1\<rparr>)"

definition release :: "nat \<Rightarrow> memory \<Rightarrow> memory" where
  "release b m = m\<lparr>heap_blocks := (heap_blocks m)(b := None)\<rparr>"

definition heap_block :: "memory \<Rightarrow> nat \<Rightarrow> string res" where
  "heap_block m b = (case heap_blocks m b of None \<Rightarrow> Inl Dangling | Some chars \<Rightarrow> Inr chars)"

text \<open>
  A \<open>std::string\<close>: its characters with the NUL behind them are in a block, which is as long as the capacity and one more.
  \<open>resize\<close> stays in the block when the new size fits; otherwise the characters move to a new block, and the old one is
  released.  By how much a library lets the capacity grow (\<open>grow\<close> of the old capacity and the new size) is left open.
\<close>

record string_object =
  so_block :: nat
  so_size :: nat

definition new_string :: "string \<Rightarrow> memory \<Rightarrow> string_object \<times> memory" where
  "new_string s m = (case allocate (s @ [CHR 0x00]) m of (b, m) \<Rightarrow> (\<lparr>so_block = b, so_size = length s\<rparr>, m))"

definition resized :: "nat \<Rightarrow> nat \<Rightarrow> string \<Rightarrow> string" where
  "resized old n chars = take (min old n) chars @ replicate (n - old) CHR 0x00 @ [CHR 0x00]"

definition resize :: "(nat \<Rightarrow> nat \<Rightarrow> nat) \<Rightarrow> nat \<Rightarrow> string_object \<Rightarrow> memory \<Rightarrow> (string_object \<times> memory) res" where
  "resize grow n v m =
     bindR (heap_block m (so_block v)) (\<lambda>chars.
       let new = resized (so_size v) n chars in
       if n < length chars then
         Inr (v\<lparr>so_size := n\<rparr>, m\<lparr>heap_blocks := (heap_blocks m)(so_block v \<mapsto> new @ drop (n + 1) chars)\<rparr>)
       else
         case allocate (new @ replicate (grow (length chars - 1) n - n) CHR 0x00) m of
           (b, m) \<Rightarrow> Inr (\<lparr>so_block = b, so_size = n\<rparr>, release (so_block v) m))"

text \<open>Stores through \<open>&v[0]\<close>, and \<open>StringRef(v.c_str())\<close> with the length it takes from the characters up to the NUL.\<close>

definition store_chars :: "string \<Rightarrow> string_object \<Rightarrow> memory \<Rightarrow> memory res" where
  "store_chars s v m =
     bindR (heap_block m (so_block v)) (\<lambda>chars. bindR (writeR chars 0 s) (\<lambda>chars.
       Inr (m\<lparr>heap_blocks := (heap_blocks m)(so_block v \<mapsto> chars)\<rparr>)))"

definition StringRef :: "string_object \<Rightarrow> memory \<Rightarrow> json res" where
  "StringRef v m = bindR (heap_block m (so_block v)) (\<lambda>chars. Inr (JStringRef (so_block v) (length (c_str chars))))"

text \<open>
  The document the writer sees: references are followed at that time.  \<open>freed b n\<close> is what a read of \<open>n\<close> characters finds in a
  block that has been released, which can be anything.
\<close>

primrec resolve :: "(nat \<Rightarrow> nat \<Rightarrow> string) \<Rightarrow> memory \<Rightarrow> json \<Rightarrow> json" where
  "resolve freed m JNull = JNull"
| "resolve freed m (JBool b) = JBool b"
| "resolve freed m (JInt i) = JInt i"
| "resolve freed m (JDouble d) = JDouble d"
| "resolve freed m (JString s) = JString s"
| "resolve freed m (JArray vs) = JArray (map (resolve freed m) vs)"
| "resolve freed m (JObject ms) = JObject (map (map_prod id (resolve freed m)) ms)"
| "resolve freed m (JStringRef b n) = JString (case heap_blocks m b of Some chars \<Rightarrow> take n chars | None \<Rightarrow> freed b n)"

section \<open>The commands\<close>

text \<open>The two static strings of src/bootloader.cpp and the memory; at the start both are empty.\<close>

record program =
  data_encoded :: string_object
  hash_encoded :: string_object
  memory_of :: memory

definition program_start :: program where
  "program_start =
     (case new_string [] \<lparr>heap_blocks = \<lambda>_. None, heap_next = 0\<rparr> of (v, m) \<Rightarrow>
      case new_string [] m of (w, m) \<Rightarrow> \<lparr>data_encoded = v, hash_encoded = w, memory_of = m\<rparr>)"

text \<open>\<open>encoded.resize(...); Base64Encode(content, length, &encoded[0])\<close>\<close>

definition encode_into :: "(nat \<Rightarrow> nat \<Rightarrow> nat) \<Rightarrow> byte list \<Rightarrow> string_object \<Rightarrow> memory \<Rightarrow> (string_object \<times> memory) res" where
  "encode_into grow content v m =
     bindR (resize grow (CalculateBase64EncodedLength (length content)) v m) (\<lambda>(v, m).
     bindR (store_chars (Base64Encode content) v m) (\<lambda>m. Inr (v, m)))"

definition request_ref :: "string \<Rightarrow> string \<Rightarrow> string_object \<Rightarrow> memory \<Rightarrow> json res" where
  "request_ref method name v m =
     bindR (request_method method) (\<lambda>r. bindR (StringRef v m) (\<lambda>x. AddMember r ''params'' (JObject [(name, x)])))"

text \<open>
  While a command runs nothing else writes to the memory, so its writer follows the references in the memory as the command
  has left it before \<open>executeCommand\<close>.
\<close>

definition exec_in :: "(nat \<Rightarrow> nat \<Rightarrow> string) \<Rightarrow> json_writer \<Rightarrow> json_reader \<Rightarrow> io_event list list \<Rightarrow> memory \<Rightarrow> exec" where
  "exec_in freed wr rd evss m = executeCommand_response (wr \<circ> resolve freed m) rd evss"

definition shared_writeData ::
  "(nat \<Rightarrow> nat \<Rightarrow> nat) \<Rightarrow> (memory \<Rightarrow> exec) \<Rightarrow> byte list \<Rightarrow> program \<Rightarrow> device \<Rightarrow> (program \<times> device \<times> error_t) res" where
  "shared_writeData grow exec content p d =
     bindR (encode_into grow content (data_encoded p) (memory_of p)) (\<lambda>(v, m).
     bindR (perform (exec m) (request_ref ''firmware/writeData'' ''content'' v m) d) (\<lambda>(d, e).
       Inr (p\<lparr>data_encoded := v, memory_of := m\<rparr>, d, e)))"

definition shared_verifyHash ::
  "(nat \<Rightarrow> nat \<Rightarrow> nat) \<Rightarrow> (memory \<Rightarrow> exec) \<Rightarrow> byte list \<Rightarrow> program \<Rightarrow> device \<Rightarrow> (program \<times> device \<times> error_t \<times> bool option) res" where
  "shared_verifyHash grow exec expected p d =
     (if length expected < HASH_LENGTH then Inl Out_of_bounds
      else
        bindR (encode_into grow (take HASH_LENGTH expected) (hash_encoded p) (memory_of p)) (\<lambda>(v, m).
        bindR (query (exec m) (request_ref ''firmware/verifyHash'' ''expected'' v m) GetBool d) (\<lambda>(d, e, passed).
          Inr (p\<lparr>hash_encoded := v, memory_of := m\<rparr>, d, e, passed))))"

text \<open>A local string lives until the command returns.\<close>

definition with_local ::
  "(memory \<Rightarrow> exec) \<Rightarrow> string \<Rightarrow> string \<Rightarrow> program \<Rightarrow> device \<Rightarrow> (program \<times> device \<times> error_t) res" where
  "with_local exec entry name p d =
     (case new_string name (memory_of p) of (v, m) \<Rightarrow>
      bindR (perform (exec m) (bindR (StringRef v m) (\<lambda>x.
          request_appended ''settings/write'' [(''entry'', JString entry), (''value'', x)])) d) (\<lambda>(d, e).
        Inr (p\<lparr>memory_of := release (so_block v) m\<rparr>, d, e)))"

definition shared_setScanResolution ::
  "(memory \<Rightarrow> exec) \<Rightarrow> scan_resolution_t \<Rightarrow> program \<Rightarrow> device \<Rightarrow> (program \<times> device \<times> error_t) res" where
  "shared_setScanResolution exec resolution p d = with_local exec ''scan.resolution'' (resolution_name resolution) p d"

definition shared_setAngularFov ::
  "(memory \<Rightarrow> exec) \<Rightarrow> angular_fov_t \<Rightarrow> program \<Rightarrow> device \<Rightarrow> (program \<times> device \<times> error_t) res" where
  "shared_setAngularFov exec angular_fov p d = with_local exec ''scan.angularFov'' (angular_fov_name angular_fov) p d"

section \<open>Programs\<close>

text \<open>
  What an application may do, in any order: the four commands, each with the I/O events of its wait, and letting the I/O thread
  go on in between.  \<open>value_step\<close> is the same with the commands of \<open>Bootloader\<close> and \<open>Device\<close>.
\<close>

datatype operation =
    Write_data "byte list" "io_event list list"
  | Verify_hash "byte list" "io_event list list"
  | Set_resolution scan_resolution_t "io_event list list"
  | Set_angular_fov angular_fov_t "io_event list list"
  | Pass "io_event list"

type_synonym outcome = "error_t option \<times> bool option"

definition pass :: "json_writer \<Rightarrow> json_reader \<Rightarrow> io_event list \<Rightarrow> device \<Rightarrow> (device \<times> unit) res" where
  "pass wr rd evs d = on_session (\<lambda>s. bindR (session_io wr rd evs s) (\<lambda>s. Inr (s, ()))) d"

fun value_step :: "json_writer \<Rightarrow> json_reader \<Rightarrow> operation \<Rightarrow> device \<Rightarrow> (device \<times> outcome) res" where
  "value_step wr rd (Write_data content evss) d =
     bindR (writeData (executeCommand_response wr rd evss) content d) (\<lambda>(d, e). Inr (d, Some e, None))"
| "value_step wr rd (Verify_hash expected evss) d =
     bindR (verifyHash (executeCommand_response wr rd evss) expected d) (\<lambda>(d, e, passed). Inr (d, Some e, passed))"
| "value_step wr rd (Set_resolution r evss) d =
     bindR (setScanResolution (executeCommand_response wr rd evss) r d) (\<lambda>(d, e). Inr (d, Some e, None))"
| "value_step wr rd (Set_angular_fov a evss) d =
     bindR (setAngularFov (executeCommand_response wr rd evss) a d) (\<lambda>(d, e). Inr (d, Some e, None))"
| "value_step wr rd (Pass evs) d = bindR (pass wr rd evs d) (\<lambda>(d, _). Inr (d, None, None))"

fun shared_step ::
  "(nat \<Rightarrow> nat \<Rightarrow> nat) \<Rightarrow> (nat \<Rightarrow> nat \<Rightarrow> string) \<Rightarrow> json_writer \<Rightarrow> json_reader \<Rightarrow> operation \<Rightarrow> program \<times> device \<Rightarrow>
    ((program \<times> device) \<times> outcome) res" where
  "shared_step grow freed wr rd (Write_data content evss) (p, d) =
     bindR (shared_writeData grow (exec_in freed wr rd evss) content p d) (\<lambda>(p, d, e). Inr ((p, d), Some e, None))"
| "shared_step grow freed wr rd (Verify_hash expected evss) (p, d) =
     bindR (shared_verifyHash grow (exec_in freed wr rd evss) expected p d) (\<lambda>(p, d, e, passed). Inr ((p, d), Some e, passed))"
| "shared_step grow freed wr rd (Set_resolution r evss) (p, d) =
     bindR (shared_setScanResolution (exec_in freed wr rd evss) r p d) (\<lambda>(p, d, e). Inr ((p, d), Some e, None))"
| "shared_step grow freed wr rd (Set_angular_fov a evss) (p, d) =
     bindR (shared_setAngularFov (exec_in freed wr rd evss) a p d) (\<lambda>(p, d, e). Inr ((p, d), Some e, None))"
| "shared_step grow freed wr rd (Pass evs) (p, d) =
     bindR (pass (wr \<circ> resolve freed (memory_of p)) rd evs d) (\<lambda>(d, _). Inr ((p, d), None, None))"

fun run_all :: "('o \<Rightarrow> 's \<Rightarrow> ('s \<times> 'r) res) \<Rightarrow> 'o list \<Rightarrow> 's \<Rightarrow> ('s \<times> 'r list) res" where
  "run_all step [] x = Inr (x, [])"
| "run_all step (op # ops) x = bindR (step op x) (\<lambda>(x, r). bindR (run_all step ops x) (\<lambda>(x, rs). Inr (x, r # rs)))"

section \<open>Memory during a command\<close>

definition memory_ok :: "memory \<Rightarrow> bool" where
  "memory_ok m \<longleftrightarrow> (\<forall>b. heap_blocks m b \<noteq> None \<longrightarrow> b < heap_next m)"

definition string_in :: "string_object \<Rightarrow> memory \<Rightarrow> bool" where
  "string_in v m \<longleftrightarrow> (\<exists>chars. heap_blocks m (so_block v) = Some chars \<and> so_size v < length chars)"

definition program_ok :: "program \<Rightarrow> bool" where
  "program_ok p \<longleftrightarrow> memory_ok (memory_of p) \<and> string_in (data_encoded p) (memory_of p) \<and> string_in (hash_encoded p) (memory_of p) \<and>
     so_block (data_encoded p) \<noteq> so_block (hash_encoded p)"

lemma program_start_ok: "program_ok program_start"
  by (simp add: program_start_def program_ok_def new_string_def allocate_def memory_ok_def string_in_def)

lemma length_resized: "old < length chars \<Longrightarrow> length (resized old n chars) = n + 1"
  by (simp add: resized_def)

lemma take_resized_store: "length s = n \<Longrightarrow> old < length chars \<Longrightarrow>
    writeR (resized old n chars @ r) 0 s = Inr (s @ CHR 0x00 # r)"
  by (subst writeR_fits) (simp_all add: length_resized, simp add: resized_def)

lemma c_str_NUL: "CHR 0x00 \<notin> set s \<Longrightarrow> c_str (s @ CHR 0x00 # r) = s"
  by (auto simp: c_str_def takeWhile_eq_all_conv takeWhile_append)

text \<open>
  The text is in the block of the string, with a NUL behind it; only that block has changed, and when it is not the old one it is new.
\<close>

lemma encode_into_outcome:
  assumes "memory_ok m" and "string_in v m"
  obtains v' m' r where "encode_into grow content v m = Inr (v', m')" "heap_blocks m' (so_block v') = Some (Base64Encode content @ CHR 0x00 # r)"
    "memory_ok m'" "string_in v' m'" "so_block v' = so_block v \<or> so_block v' = heap_next m"
    "\<And>b. b \<noteq> so_block v \<Longrightarrow> b < heap_next m \<Longrightarrow> heap_blocks m' b = heap_blocks m b"
proof -
  from assms(2) obtain chars where c: "heap_blocks m (so_block v) = Some chars" "so_size v < length chars" by (auto simp: string_in_def)
  with assms(1) have old: "so_block v < heap_next m" by (auto simp: memory_ok_def)
  let ?n = "CalculateBase64EncodedLength (length content)"
  have n: "length (Base64Encode content) = ?n" by (simp add: length_Base64Encode)
  show thesis
  proof (cases "?n < length chars")
    case True
    show thesis
      by (rule that [of "v\<lparr>so_size := ?n\<rparr>" "m\<lparr>heap_blocks := (heap_blocks m)(so_block v \<mapsto> Base64Encode content @ CHR 0x00 # drop (?n + 1) chars)\<rparr>"
            "drop (?n + 1) chars"])
        (use True c assms(1) in \<open>auto simp: encode_into_def resize_def heap_block_def store_chars_def take_resized_store [OF n]
           memory_ok_def string_in_def n Let_def\<close>)
  next
    case False
    let ?r = "replicate (grow (length chars - 1) ?n - ?n) CHR 0x00"
    show thesis
      by (rule that [of "\<lparr>so_block = heap_next m, so_size = ?n\<rparr>" "m\<lparr>heap_blocks := (heap_blocks m)(heap_next m \<mapsto> Base64Encode content @ CHR 0x00 # ?r,
              so_block v := None), heap_next := heap_next m + 1\<rparr>" ?r])
        (use False c old assms(1) in \<open>auto simp: encode_into_def resize_def heap_block_def store_chars_def take_resized_store [OF n]
           allocate_def release_def memory_ok_def string_in_def n fun_upd_twist Let_def\<close>)
  qed
qed

section \<open>One command\<close>

lemma memberwise_resolve: "memberwise (resolve freed m)"
  unfolding memberwise_def
proof (intro conjI allI impI)
  fix v assume "IsObject (resolve freed m v)"
  then show "IsObject v" by (cases v) (simp_all add: IsObject_def)
qed simp_all

lemma request_method_value: "request_method name = Inr (JObject [(''jsonrpc'', JString ''2.0''), (''method'', JString name)])"
  by (simp add: request_method_def createEmptyRequestObject_def SetMember_def)

lemma request_ref_resolved:
  assumes "heap_blocks m (so_block v) = Some (s @ CHR 0x00 # r)" and "CHR 0x00 \<notin> set s"
  shows "request_param method name s = map_sum id (resolve freed m) (request_ref method name v m)"
  using assms by (simp add: request_param_def request_ref_def request_method_value StringRef_def heap_block_def c_str_NUL)

lemma resolution_name_no_NUL: "CHR 0x00 \<notin> set (resolution_name r)"
  by (cases r) (simp_all add: resolution_name_def)

lemma angular_fov_name_no_NUL: "CHR 0x00 \<notin> set (angular_fov_name a)"
  by (cases a) (simp_all add: angular_fov_name_def)

text \<open>With at most one document in the queue, the documents need not agree.\<close>

definition calm :: "device \<Rightarrow> bool" where
  "calm d \<longleftrightarrow> (\<forall>s t. session' d = Some s \<longrightarrow> transport' s = Some t \<longrightarrow> length (outgoing_message_queue t) \<le> 1)"

lemma calm_sim:
  assumes "calm d" and "sim_device f d e"
  shows "sim_device g d e"
proof -
  have "sim_transport g t u" if "sim_transport f t u" "length (outgoing_message_queue t) \<le> 1" for t u
    using that rest_agrees_short [of "outgoing_message_queue t"] by (auto simp: sim_transport_def rest_agrees_def)
  with assms show ?thesis
    by (cases "session' d"; cases "session' e") (auto simp: calm_def sim_device_def sim_session_def rel_option_iff split: option.splits)
qed

abbreviation some_sim :: "device \<Rightarrow> device \<Rightarrow> bool" where
  "some_sim d e \<equiv> \<exists>f. sim_device f d e"

lemma shared_writeData_sim:
  assumes "program_ok p" and "calm d" and "some_sim d e"
  shows "rel_res (\<lambda>(p', d', c) (e', c'). program_ok p' \<and> some_sim d' e' \<and> c = c')
    (shared_writeData grow (exec_in freed wr rd evss) content p d) (writeData (executeCommand_response wr rd evss) content e)"
proof -
  from assms(1) have ok: "memory_ok (memory_of p)" "string_in (data_encoded p) (memory_of p)" by (simp_all add: program_ok_def)
  obtain v m r where e: "encode_into grow content (data_encoded p) (memory_of p) = Inr (v, m)"
    and b: "heap_blocks m (so_block v) = Some (Base64Encode content @ CHR 0x00 # r)"
    and m: "memory_ok m" "string_in v m" "so_block v = so_block (data_encoded p) \<or> so_block v = heap_next (memory_of p)"
    and keep: "\<And>b. b \<noteq> so_block (data_encoded p) \<Longrightarrow> b < heap_next (memory_of p) \<Longrightarrow> heap_blocks m b = heap_blocks (memory_of p) b"
    by (rule encode_into_outcome [OF ok, of grow content]) (rule that; assumption)
  have "program_ok (p\<lparr>data_encoded := v, memory_of := m\<rparr>)"
    using m keep [of "so_block (hash_encoded p)"] assms(1) by (auto simp: program_ok_def string_in_def memory_ok_def)
  moreover have "rel_res (rel_prod (sim_device (resolve freed m)) (=))
      (perform (exec_in freed wr rd evss m) (request_ref ''firmware/writeData'' ''content'' v m) d)
      (perform (executeCommand_response wr rd evss) (request_param ''firmware/writeData'' ''content'' (Base64Encode content)) e)"
    unfolding exec_in_def
    by (rule perform_sim [OF memberwise_resolve]) (use assms(2,3) calm_sim in blast, rule request_ref_resolved [OF b Base64Encode_no_NUL])
  ultimately show ?thesis
    unfolding shared_writeData_def writeData_def e encode_buffer_eq bindR_simps prod.case
    by (cases "perform (exec_in freed wr rd evss m) (request_ref ''firmware/writeData'' ''content'' v m) d";
        cases "perform (executeCommand_response wr rd evss) (request_param ''firmware/writeData'' ''content'' (Base64Encode content)) e")
      (auto elim!: rel_prod.cases)
qed

lemma shared_verifyHash_sim:
  assumes "program_ok p" and "calm d" and "some_sim d e"
  shows "rel_res (\<lambda>(p', d', c) (e', c'). program_ok p' \<and> some_sim d' e' \<and> c = c')
    (shared_verifyHash grow (exec_in freed wr rd evss) expected p d) (verifyHash (executeCommand_response wr rd evss) expected e)"
proof (cases "length expected < HASH_LENGTH")
  case False
  from assms(1) have ok: "memory_ok (memory_of p)" "string_in (hash_encoded p) (memory_of p)" by (simp_all add: program_ok_def)
  let ?h = "take HASH_LENGTH expected"
  obtain v m r where e: "encode_into grow ?h (hash_encoded p) (memory_of p) = Inr (v, m)"
    and b: "heap_blocks m (so_block v) = Some (Base64Encode ?h @ CHR 0x00 # r)"
    and m: "memory_ok m" "string_in v m" "so_block v = so_block (hash_encoded p) \<or> so_block v = heap_next (memory_of p)"
    and keep: "\<And>b. b \<noteq> so_block (hash_encoded p) \<Longrightarrow> b < heap_next (memory_of p) \<Longrightarrow> heap_blocks m b = heap_blocks (memory_of p) b"
    by (rule encode_into_outcome [OF ok, of grow ?h]) (rule that; assumption)
  have "program_ok (p\<lparr>hash_encoded := v, memory_of := m\<rparr>)"
    using m keep [of "so_block (data_encoded p)"] assms(1) by (auto simp: program_ok_def string_in_def memory_ok_def)
  moreover have "rel_res (rel_prod (sim_device (resolve freed m)) (=))
      (query (exec_in freed wr rd evss m) (request_ref ''firmware/verifyHash'' ''expected'' v m) GetBool d)
      (query (executeCommand_response wr rd evss) (request_param ''firmware/verifyHash'' ''expected'' (Base64Encode ?h)) GetBool e)"
    unfolding exec_in_def
    by (rule query_sim [OF memberwise_resolve]) (use assms(2,3) calm_sim in blast, rule request_ref_resolved [OF b Base64Encode_no_NUL])
  ultimately show ?thesis
    unfolding shared_verifyHash_def verifyHash_def e encode_buffer_eq bindR_simps prod.case if_not_P [OF False]
    by (cases "query (exec_in freed wr rd evss m) (request_ref ''firmware/verifyHash'' ''expected'' v m) GetBool d";
        cases "query (executeCommand_response wr rd evss) (request_param ''firmware/verifyHash'' ''expected'' (Base64Encode ?h)) GetBool e")
      (auto elim!: rel_prod.cases)
qed (simp add: shared_verifyHash_def verifyHash_def)

lemma with_local_sim:
  assumes "program_ok p" and "calm d" and "some_sim d e" and "CHR 0x00 \<notin> set name"
  shows "rel_res (\<lambda>(p', d', c) (e', c'). program_ok p' \<and> some_sim d' e' \<and> c = c')
    (with_local (exec_in freed wr rd evss) entry name p d)
    (perform (executeCommand_response wr rd evss)
      (request_appended ''settings/write'' [(''entry'', JString entry), (''value'', JString name)]) e)"
proof -
  let ?b = "heap_next (memory_of p)"
  let ?m = "(memory_of p)\<lparr>heap_blocks := (heap_blocks (memory_of p))(?b \<mapsto> name @ [CHR 0x00]), heap_next := ?b + 1\<rparr>"
  let ?v = "\<lparr>so_block = ?b, so_size = length name\<rparr>"
  have n: "new_string name (memory_of p) = (?v, ?m)" by (simp add: new_string_def allocate_def)
  have "so_block (data_encoded p) < ?b \<and> so_block (hash_encoded p) < ?b"
    using assms(1) by (auto simp: program_ok_def string_in_def memory_ok_def)
  then have "program_ok (p\<lparr>memory_of := release ?b ?m\<rparr>)"
    using assms(1) by (auto simp: program_ok_def string_in_def memory_ok_def release_def less_Suc_eq)
  moreover have "rel_res (rel_prod (sim_device (resolve freed ?m)) (=))
      (perform (exec_in freed wr rd evss ?m) (bindR (StringRef ?v ?m) (\<lambda>x.
          request_appended ''settings/write'' [(''entry'', JString entry), (''value'', x)])) d)
      (perform (executeCommand_response wr rd evss)
        (request_appended ''settings/write'' [(''entry'', JString entry), (''value'', JString name)]) e)"
    unfolding exec_in_def
    by (rule perform_sim [OF memberwise_resolve]) (use assms(2,3) calm_sim in blast,
      simp add: StringRef_def heap_block_def request_appended_def createEmptyRequestObject_def c_str_NUL [OF assms(4), of "[]", simplified])
  ultimately show ?thesis
    unfolding with_local_def n prod.case
    by (cases "perform (exec_in freed wr rd evss ?m) (bindR (StringRef ?v ?m) (\<lambda>x.
          request_appended ''settings/write'' [(''entry'', JString entry), (''value'', x)])) d";
        cases "perform (executeCommand_response wr rd evss)
          (request_appended ''settings/write'' [(''entry'', JString entry), (''value'', JString name)]) e")
      (auto elim!: rel_prod.cases)
qed

lemma pass_sim:
  assumes "sim_device f d e"
  shows "rel_res (rel_prod (sim_device f) (=)) (pass (wr \<circ> f) rd evs d) (pass wr rd evs e)"
proof (cases "session' d")
  case None
  with assms show ?thesis by (simp add: pass_def on_session_def sim_device_def)
next
  case (Some s)
  with assms obtain u where u: "session' e = Some u" "sim_session f s u" by (auto simp: sim_device_def option_rel_Some1)
  show ?thesis
    unfolding pass_def on_session_def using Some u assms
    by (simp add: bindR_assoc, intro bindR_rel [OF session_io_sim [OF u(2)]]) (simp add: sim_device_def)
qed

lemma shared_step_sim:
  assumes "program_ok p" and "calm d" and "some_sim d e"
  shows "rel_res (\<lambda>((p', d'), c) (e', c'). program_ok p' \<and> some_sim d' e' \<and> c = c')
    (shared_step grow freed wr rd op (p, d)) (value_step wr rd op e)"
proof (cases op)
  case (Write_data content evss)
  show ?thesis
    unfolding Write_data shared_step.simps value_step.simps
    by (rule bindR_rel [OF shared_writeData_sim [OF assms]]) auto
next
  case (Verify_hash expected evss)
  show ?thesis
    unfolding Verify_hash shared_step.simps value_step.simps
    by (rule bindR_rel [OF shared_verifyHash_sim [OF assms]]) auto
next
  case (Set_resolution r evss)
  show ?thesis
    unfolding Set_resolution shared_step.simps value_step.simps shared_setScanResolution_def setScanResolution_def
    by (rule bindR_rel [OF with_local_sim [OF assms resolution_name_no_NUL]]) auto
next
  case (Set_angular_fov a evss)
  show ?thesis
    unfolding Set_angular_fov shared_step.simps value_step.simps shared_setAngularFov_def setAngularFov_def
    by (rule bindR_rel [OF with_local_sim [OF assms angular_fov_name_no_NUL]]) auto
next
  case (Pass evs)
  obtain f where f: "sim_device f d e" using assms(3) by blast
  from calm_sim [OF assms(2) this] have s: "sim_device (resolve freed (memory_of p)) d e" .
  show ?thesis
    unfolding Pass shared_step.simps value_step.simps
    by (rule bindR_rel [OF pass_sim [OF s]]) (use assms(1) in \<open>auto elim!: rel_prod.cases\<close>)
qed

section \<open>Runs\<close>

text \<open>After every step at most the document that is being written is left in the queue.\<close>

fun calm_run :: "('o \<Rightarrow> 'p \<times> device \<Rightarrow> (('p \<times> device) \<times> 'r) res) \<Rightarrow> 'o list \<Rightarrow> 'p \<times> device \<Rightarrow> bool" where
  "calm_run step [] x \<longleftrightarrow> calm (snd x)"
| "calm_run step (op # ops) x \<longleftrightarrow> calm (snd x) \<and> (case step op x of Inl _ \<Rightarrow> True | Inr (x, _) \<Rightarrow> calm_run step ops x)"

lemma run_all_sim:
  assumes "calm_run (shared_step grow freed wr rd) ops (p, d)" and "program_ok p" and "some_sim d e"
  shows "rel_res (\<lambda>((p', d'), rs) (e', rs'). calm d' \<and> some_sim d' e' \<and> rs = rs')
    (run_all (shared_step grow freed wr rd) ops (p, d)) (run_all (value_step wr rd) ops e)"
  using assms
proof (induction ops arbitrary: p d e)
  case (Cons op ops)
  have calm: "calm d" using Cons.prems(1) by simp
  show ?case
  proof (cases "shared_step grow freed wr rd op (p, d)")
    case (Inl x)
    with shared_step_sim [OF Cons.prems(2) calm Cons.prems(3), of grow freed wr rd op] show ?thesis
      by (cases "value_step wr rd op e") simp_all
  next
    case (Inr y)
    then obtain p1 d1 r where y: "shared_step grow freed wr rd op (p, d) = Inr ((p1, d1), r)" by (cases y) auto
    with shared_step_sim [OF Cons.prems(2) calm Cons.prems(3), of grow freed wr rd op] obtain e1 where
      e1: "value_step wr rd op e = Inr (e1, r)" "program_ok p1" "some_sim d1 e1"
      by (cases "value_step wr rd op e") auto
    have "calm_run (shared_step grow freed wr rd) ops (p1, d1)" using Cons.prems(1) y by simp
    from Cons.IH [OF this e1(2,3)] show ?thesis
      unfolding run_all.simps y e1(1) bindR_simps prod.case by (rule bindR_rel) auto
  qed
qed simp

text \<open>What can be seen of a device: everything but the documents that are still in its queue.\<close>

definition hide_documents :: "device \<Rightarrow> device" where
  "hide_documents d = d\<lparr>session' := map_option (\<lambda>s. s\<lparr>transport' := map_option (\<lambda>t.
     t\<lparr>outgoing_message_queue := map (\<lambda>_. JNull) (outgoing_message_queue t)\<rparr>) (transport' s)\<rparr>) (session' d)\<rparr>"

lemma hide_documents_sim: "sim_device f d e \<Longrightarrow> hide_documents d = hide_documents e"
proof -
  have t: "t\<lparr>outgoing_message_queue := map (\<lambda>_. JNull) (outgoing_message_queue t)\<rparr> =
      u\<lparr>outgoing_message_queue := map (\<lambda>_. JNull) (outgoing_message_queue u)\<rparr>" if "sim_transport f t u" for t u
    using that by (elim sim_transportE) (simp add: rest_agrees_def map_replicate_const)
  assume "sim_device f d e"
  then show ?thesis
    by (cases d; cases e) (auto simp: hide_documents_def sim_device_def sim_session_def rel_option_iff dest: t split: option.splits)
qed

section \<open>Commands that get no answer\<close>

lemma execute_stalled:
  assumes "session' d = Some s" and "transport' s = Some t" and "response_queue s = []" and "id' s \<noteq> 2 ^ 31 - 1" and "IsObject r"
  shows "perform (executeCommand_response wr rd []) (Inr r) d = Inr (d\<lparr>session' := Some (sent wr r s t)\<rparr>, timed_out)"
proof -
  have "(sent wr r s t)\<lparr>response_queue := []\<rparr> = sent wr r s t" using assms(3) by (simp add: sent_def)
  then show ?thesis
    using assms by (simp add: perform_def execute_def executeCommand_response_def executeCommand_among_def send_request_eq
        response_ready_def remove_if_in_place_def)
qed

definition ref_request :: "nat \<Rightarrow> nat \<Rightarrow> json" where
  "ref_request b n = JObject [(''jsonrpc'', JString ''2.0''), (''method'', JString ''firmware/writeData''),
     (''params'', JObject [(''content'', JStringRef b n)])]"

definition data_request :: "byte list \<Rightarrow> int \<Rightarrow> json" where
  "data_request content i = JObject [(''jsonrpc'', JString ''2.0''), (''method'', JString ''firmware/writeData''),
     (''params'', JObject [(''content'', JString (Base64Encode content))]), (''id'', JInt i)]"

lemma resolve_ref_request:
  assumes "heap_blocks m b = Some (Base64Encode content @ CHR 0x00 # r)" and "n = length (Base64Encode content)"
  shows "resolve freed m (with_id (ref_request b n) i) = data_request content i"
  using assms by (simp add: ref_request_def data_request_def with_id_def)

lemma shared_writeData_stalled:
  assumes "session' d = Some s" and "transport' s = Some t" and "response_queue s = []" and "id' s \<noteq> 2 ^ 31 - 1"
    and "encode_into grow content (data_encoded p) (memory_of p) = Inr (v, m)"
    and "heap_blocks m (so_block v) = Some (Base64Encode content @ CHR 0x00 # r)"
  shows "shared_step grow freed wr rd (Write_data content []) (p, d) =
    Inr ((p\<lparr>data_encoded := v, memory_of := m\<rparr>,
      d\<lparr>session' := Some (sent (wr \<circ> resolve freed m) (ref_request (so_block v) (length (Base64Encode content))) s t)\<rparr>), Some timed_out, None)"
proof -
  let ?r = "ref_request (so_block v) (length (Base64Encode content))"
  have "request_ref ''firmware/writeData'' ''content'' v m = Inr ?r"
    using assms(6) by (simp add: request_ref_def request_method_value StringRef_def heap_block_def c_str_NUL Base64Encode_no_NUL ref_request_def)
  moreover have "IsObject ?r" by (simp add: ref_request_def IsObject_def)
  ultimately show ?thesis
    using assms(5) execute_stalled [OF assms(1-4)] by (simp add: shared_writeData_def exec_in_def)
qed

text \<open>A text of the size of the last one is put over it.\<close>

definition overwritten :: "string_object \<Rightarrow> string \<Rightarrow> byte list \<Rightarrow> memory \<Rightarrow> memory" where
  "overwritten v r content m = m\<lparr>heap_blocks := (heap_blocks m)(so_block v \<mapsto> Base64Encode content @ CHR 0x00 # r)\<rparr>"

lemma overwritten_block [simp]:
  "heap_blocks (overwritten v r content m) (so_block v) = Some (Base64Encode content @ CHR 0x00 # r)"
  by (simp add: overwritten_def)

lemma encode_into_again:
  assumes "heap_blocks m (so_block v) = Some (s @ CHR 0x00 # r)" and "so_size v < length (s @ CHR 0x00 # r)"
    and "length (Base64Encode content) = length s"
  shows "encode_into grow content v m = Inr (v\<lparr>so_size := length s\<rparr>, overwritten v r content m)"
proof -
  have n: "CalculateBase64EncodedLength (length content) = length s" using assms(3) by (simp add: length_Base64Encode)
  show ?thesis
    using assms by (simp add: encode_into_def resize_def heap_block_def store_chars_def n take_resized_store [OF assms(3)] overwritten_def Let_def)
qed

lemma three_encodes:
  assumes "memory_ok m0" and "string_in v0 m0" and "length b = length a" and "length c = length a"
  obtains v m r where "encode_into grow a v0 m0 = Inr (v, m)" and "heap_blocks m (so_block v) = Some (Base64Encode a @ CHR 0x00 # r)"
    and "encode_into grow b v m = Inr (v\<lparr>so_size := length (Base64Encode a)\<rparr>, overwritten v r b m)"
    and "encode_into grow c (v\<lparr>so_size := length (Base64Encode a)\<rparr>) (overwritten v r b m) =
      Inr (v\<lparr>so_size := length (Base64Encode a)\<rparr>, overwritten v r c (overwritten v r b m))"
proof (rule encode_into_outcome [OF assms(1,2), of grow a])
  fix v m r
  assume e: "encode_into grow a v0 m0 = Inr (v, m)" and m: "heap_blocks m (so_block v) = Some (Base64Encode a @ CHR 0x00 # r)"
    and "string_in v m"
  then have v: "so_size v < length (Base64Encode a @ CHR 0x00 # r)" by (simp add: string_in_def)
  have n: "length (Base64Encode b) = length (Base64Encode a)" "length (Base64Encode c) = length (Base64Encode a)"
    using assms(3,4) by (simp_all add: length_Base64Encode)
  have "encode_into grow c (v\<lparr>so_size := length (Base64Encode a)\<rparr>) (overwritten v r b m) =
      Inr (v\<lparr>so_size := length (Base64Encode a)\<rparr>, overwritten v r c (overwritten v r b m))"
    using encode_into_again [of "overwritten v r b m" "v\<lparr>so_size := length (Base64Encode a)\<rparr>" "Base64Encode b" r c grow] n
    by (simp add: overwritten_def)
  with e m encode_into_again [OF m v n(1), of grow] show thesis by (rule that)
qed

text \<open>A whole write, after which the next document, if there is one, is formatted with what it refers to by then.\<close>

lemma write_done_last:
  assumes "write_op t = Some x" and "\<not> io_stopped t" and "reading t" and "outgoing_message_queue t = [d]"
  shows "io_step wr rd Write_done t = Inr (t\<lparr>write_op := None, wire := wire t @ x, outgoing_message_buffers := ([], [], []),
    outgoing_message_queue := []\<rparr>, [])"
  using assms by (simp add: outgoingMessageHandler_def settle_def)

lemma write_done_next:
  assumes "write_op t = Some x" and "\<not> io_stopped t" and "reading t" and "outgoing_message_queue t = d # e # ds"
  shows "io_step wr rd Write_done t = Inr (t\<lparr>write_op := Some (frame_of wr e), wire := wire t @ x,
    outgoing_message_buffers := encapsulateOutgoingMessage wr e ([], [], []), outgoing_message_queue := e # ds\<rparr>, [])"
  using assms by (simp add: outgoingMessageHandler_def settle_def start_write_def frame_of_def Let_def)

lemma transmit_idle:
  assumes "outgoing_message_queue t = []" and "outgoing_message_buffers t = ([], [], [])" and "\<not> io_stopped t"
  shows "transmitMessage wr d t = t\<lparr>write_op := Some (frame_of wr d),
    outgoing_message_buffers := encapsulateOutgoingMessage wr d ([], [], []), outgoing_message_queue := [d]\<rparr>"
  using assms by (simp add: transmitMessage_def start_write_def frame_of_def Let_def)

lemma transmit_busy:
  assumes "outgoing_message_queue t \<noteq> []" and "\<not> io_stopped t"
  shows "transmitMessage wr d t = t\<lparr>outgoing_message_queue := outgoing_message_queue t @ [d]\<rparr>"
  using assms by (simp add: transmitMessage_def)

lemma frame_of_resolved: "frame_of (wr \<circ> resolve freed m) d = frame_of wr (resolve freed m d)"
  by (simp add: frame_of_frame)

lemma three_writes:
  assumes "outgoing_message_queue t = []" and "outgoing_message_buffers t = ([], [], [])" and "\<not> io_stopped t" and "reading t"
  shows "\<exists>t'. io_run w3 rd [Write_done, Write_done, Write_done]
      (transmitMessage w3 d3 (transmitMessage w2 d2 (transmitMessage w1 d1 t))) = Inr (t', []) \<and>
    wire t' = wire t @ frame_of w1 d1 @ frame_of w3 d2 @ frame_of w3 d3"
  using assms by (simp del: io_step.simps add: transmit_idle transmit_busy write_done_next write_done_last)

section \<open>Properties\<close>

text \<open>
  C9: The texts the requests only refer to reach the device: for every program of the four commands, whatever arrives and however the
  library lets strings grow, if after every step no request is left waiting behind another one, then all codes and results, the
  characters on the stream and the whole state of the device (but for the documents in its queue) are those
  of the commands whose requests own their text.  No string is read after its end, and no fault is added.
\<close>

theorem shared_text_refines:
  assumes "calm_run (shared_step grow freed wr rd) ops (program_start, d)"
  shows "map_sum id (\<lambda>((p, d), rs). (hide_documents d, rs)) (run_all (shared_step grow freed wr rd) ops (program_start, d)) =
    map_sum id (\<lambda>(d, rs). (hide_documents d, rs)) (run_all (value_step wr rd) ops d)"
proof -
  have "sim_device id d d"
    using calm_run.simps(1) assms by (cases ops)
      (auto simp: sim_device_def sim_session_def sim_transport_def rest_agrees_def intro!: option.rel_refl)
  then have "some_sim d d" by blast
  from run_all_sim [OF assms program_start_ok this] show ?thesis
    by (cases "run_all (shared_step grow freed wr rd) ops (program_start, d)"; cases "run_all (value_step wr rd) ops d")
      (auto dest: hide_documents_sim)
qed

theorem shared_text_refines_witness:
  "\<exists>p d rs. run_all (shared_step (\<lambda>c n. n) (\<lambda>_ _. []) wr_example rd_example) [Write_data [1, 2, 3] [], Pass [Write_done]]
      (program_start, \<lparr>location' = None, session' = Some opened_example\<rparr>) = Inr ((p, d), rs) \<and>
    map_sum id (\<lambda>(d, rs). (hide_documents d, rs)) (run_all (value_step wr_example rd_example) [Write_data [1, 2, 3] [], Pass [Write_done]]
      \<lparr>location' = None, session' = Some opened_example\<rparr>) = Inr (hide_documents d, rs)"
proof -
  let ?d = "\<lparr>location' = None, session' = Some opened_example\<rparr>"
  let ?step = "shared_step (\<lambda>c n. n) (\<lambda>_ _. []) wr_example rd_example"
  have ok: "memory_ok (memory_of program_start)" "string_in (data_encoded program_start) (memory_of program_start)"
    using program_start_ok by (simp_all add: program_ok_def)
  obtain v m r where "encode_into (\<lambda>c n. n) [1, 2, 3] (data_encoded program_start) (memory_of program_start) = Inr (v, m)"
    and "heap_blocks m (so_block v) = Some (Base64Encode [1, 2, 3] @ CHR 0x00 # r)"
    by (rule encode_into_outcome [OF ok, of "\<lambda>c n. n" "[1, 2, 3]"]) (rule that; assumption)
  note w = shared_writeData_stalled [OF _ opened_example(2) opened_idle(5) _ this, of ?d "\<lambda>_ _. []" wr_example rd_example]
  let ?r = "ref_request (so_block v) (length (Base64Encode [1, 2, 3]))"
  let ?t = "transmitMessage (wr_example \<circ> resolve (\<lambda>_ _. []) m) (with_id ?r 0) opened_transport"
  let ?s = "sent (wr_example \<circ> resolve (\<lambda>_ _. []) m) ?r opened_example opened_transport"
  have step1: "?step (Write_data [1, 2, 3] []) (program_start, ?d) =
      Inr ((program_start\<lparr>data_encoded := v, memory_of := m\<rparr>, ?d\<lparr>session' := Some ?s\<rparr>), Some timed_out, None)"
    using w opened_example(3) by simp
  have "\<exists>t'. io_run (wr_example \<circ> resolve (\<lambda>_ _. []) m) rd_example [Write_done] ?t = Inr (t', []) \<and> outgoing_message_queue t' = []"
    using opened_idle by (simp del: io_step.simps add: transmit_idle write_done_last)
  then obtain t' where "session_io (wr_example \<circ> resolve (\<lambda>_ _. []) m) rd_example [Write_done] ?s = Inr (?s\<lparr>transport' := Some t'\<rparr>)"
    and t': "outgoing_message_queue t' = []"
    using opened_example(3) by (auto simp: session_io_def)
  then have step2: "?step (Pass [Write_done]) (program_start\<lparr>data_encoded := v, memory_of := m\<rparr>, ?d\<lparr>session' := Some ?s\<rparr>) =
      Inr ((program_start\<lparr>data_encoded := v, memory_of := m\<rparr>, ?d\<lparr>session' := Some (?s\<lparr>transport' := Some t'\<rparr>)\<rparr>), None, None)"
    by (simp add: pass_def on_session_def)
  have calm: "calm_run ?step [Write_data [1, 2, 3] [], Pass [Write_done]] (program_start, ?d)"
    using step1 step2 opened_idle t' opened_example(2,3) by (simp del: shared_step.simps add: calm_def transmit_idle)
  have run: "run_all ?step [Write_data [1, 2, 3] [], Pass [Write_done]] (program_start, ?d) =
      Inr ((program_start\<lparr>data_encoded := v, memory_of := m\<rparr>, ?d\<lparr>session' := Some (?s\<lparr>transport' := Some t'\<rparr>)\<rparr>),
        [(Some timed_out, None), (None, None)])"
    by (simp only: run_all.simps step1 step2 bindR_simps prod.case)
  show ?thesis
    by (intro exI conjI, rule run, subst shared_text_refines [OF calm, symmetric], simp only: run map_sum.simps prod.case id_apply)
qed

text \<open>
  C14: When the device is slow and commands time out, requests wait behind each other and share one buffer: of three blocks of the
  same size that are submitted while nothing is written out, the second never reaches the device.  Its request
  goes out with the third block, which is then transferred twice.
\<close>

theorem overlapping_writes_lose_data:
  assumes "session' d = Some s" and "transport' s = Some t" and "response_queue s = []" and "id' s < 2 ^ 31 - 4"
    and "outgoing_message_queue t = []" and "outgoing_message_buffers t = ([], [], [])" and "\<not> io_stopped t" and "reading t"
    and "length b = length a" and "length c = length a"
  shows "\<exists>p d' s' t'. run_all (shared_step grow freed wr rd)
      [Write_data a [], Write_data b [], Write_data c [], Pass [Write_done, Write_done, Write_done]] (program_start, d) =
      Inr ((p, d'), [(Some timed_out, None), (Some timed_out, None), (Some timed_out, None), (None, None)]) \<and>
    session' d' = Some s' \<and> transport' s' = Some t' \<and>
    wire t' = wire t @ frame_of wr (data_request a (id' s + 1)) @ frame_of wr (data_request c (id' s + 2)) @
      frame_of wr (data_request c (id' s + 3))"
proof -
  have ok: "memory_ok (memory_of program_start)" "string_in (data_encoded program_start) (memory_of program_start)"
    using program_start_ok by (simp_all add: program_ok_def)
  obtain v m r where e1: "encode_into grow a (data_encoded program_start) (memory_of program_start) = Inr (v, m)"
    and m: "heap_blocks m (so_block v) = Some (Base64Encode a @ CHR 0x00 # r)"
    and e2: "encode_into grow b v m = Inr (v\<lparr>so_size := length (Base64Encode a)\<rparr>, overwritten v r b m)"
    and e3: "encode_into grow c (v\<lparr>so_size := length (Base64Encode a)\<rparr>) (overwritten v r b m) =
      Inr (v\<lparr>so_size := length (Base64Encode a)\<rparr>, overwritten v r c (overwritten v r b m))"
    by (rule three_encodes [OF ok assms(9,10), of grow]) (rule that; assumption)
  let ?n = "length (Base64Encode a)" and ?m2 = "overwritten v r b m"
  let ?v = "v\<lparr>so_size := ?n\<rparr>" and ?m3 = "overwritten v r c ?m2" and ?r = "ref_request (so_block v) ?n"
  have n: "length (Base64Encode b) = ?n" "length (Base64Encode c) = ?n" using assms(9,10) by (simp_all add: length_Base64Encode)
  let ?w = "\<lambda>m. wr \<circ> resolve freed m" and ?p = "\<lambda>v m. program_start\<lparr>data_encoded := v, memory_of := m\<rparr>"
  let ?t1 = "transmitMessage (?w m) (with_id ?r (id' s + 1)) t" and ?s1 = "sent (?w m) ?r s t"
  let ?t2 = "transmitMessage (?w ?m2) (with_id ?r (id' s + 1 + 1)) ?t1" and ?s2 = "sent (?w ?m2) ?r ?s1 ?t1"
  let ?t3 = "transmitMessage (?w ?m3) (with_id ?r (id' s + 1 + 1 + 1)) ?t2" and ?s3 = "sent (?w ?m3) ?r ?s2 ?t2"
  have step1: "shared_step grow freed wr rd (Write_data a []) (program_start, d) =
      Inr ((?p v m, d\<lparr>session' := Some ?s1\<rparr>), Some timed_out, None)"
    using assms(4) by (intro shared_writeData_stalled [OF assms(1-3) _ e1 m]) simp
  have step2: "shared_step grow freed wr rd (Write_data b []) (?p v m, d\<lparr>session' := Some ?s1\<rparr>) =
      Inr ((?p ?v ?m2, d\<lparr>session' := Some ?s2\<rparr>), Some timed_out, None)"
    using shared_writeData_stalled [of "d\<lparr>session' := Some ?s1\<rparr>" ?s1 ?t1 grow b "?p v m" ?v ?m2 r freed wr rd] assms(3,4) e2 n
    by (simp add: overwritten_def)
  have step3: "shared_step grow freed wr rd (Write_data c []) (?p ?v ?m2, d\<lparr>session' := Some ?s2\<rparr>) =
      Inr ((?p ?v ?m3, d\<lparr>session' := Some ?s3\<rparr>), Some timed_out, None)"
    using shared_writeData_stalled [of "d\<lparr>session' := Some ?s2\<rparr>" ?s2 ?t2 grow c "?p ?v ?m2" ?v ?m3 r freed wr rd] assms(3,4) e3 n
    by (simp add: overwritten_def)
  obtain t' where io: "io_run (?w ?m3) rd [Write_done, Write_done, Write_done] ?t3 = Inr (t', [])"
    and wire: "wire t' = wire t @ frame_of wr (data_request a (id' s + 1)) @ frame_of wr (data_request c (id' s + 2)) @
      frame_of wr (data_request c (id' s + 3))"
    using three_writes [OF assms(5-8)] n
    by (fastforce simp: frame_of_resolved resolve_ref_request [OF m] resolve_ref_request [OF overwritten_block] add.assoc)
  have step4: "shared_step grow freed wr rd (Pass [Write_done, Write_done, Write_done]) (?p ?v ?m3, d\<lparr>session' := Some ?s3\<rparr>) =
      Inr ((?p ?v ?m3, d\<lparr>session' := Some (?s3\<lparr>transport' := Some t'\<rparr>)\<rparr>), None, None)"
    using io by (simp add: pass_def on_session_def session_io_def)
  have "session' (d\<lparr>session' := Some (?s3\<lparr>transport' := Some t'\<rparr>)\<rparr>) = Some (?s3\<lparr>transport' := Some t'\<rparr>)"
    "transport' (?s3\<lparr>transport' := Some t'\<rparr>) = Some t'" by simp_all
  with wire show ?thesis unfolding run_all.simps step1 step2 step3 step4 bindR_simps prod.case by blast
qed

theorem overlapping_writes_lose_data_witness:
  "\<exists>p d' s' t'. run_all (shared_step (\<lambda>c n. n) (\<lambda>_ _. []) wr_example rd_example)
      [Write_data [1] [], Write_data [2] [], Write_data [3] [], Pass [Write_done, Write_done, Write_done]]
      (program_start, \<lparr>location' = None, session' = Some opened_example\<rparr>) = Inr ((p, d'), replicate 3 (Some timed_out, None) @ [(None, None)]) \<and>
    session' d' = Some s' \<and> transport' s' = Some t' \<and> wire t' = frame_of wr_example (data_request [1] 0) @
      frame_of wr_example (data_request [3] 1) @ frame_of wr_example (data_request [3] 2)"
proof -
  have r: "replicate 3 x @ [y] = [x, x, x, y]" for x y :: outcome by (simp add: numeral_3_eq_3)
  have i: "- 1 + 1 = (0 :: int)" "- 1 + 2 = (1 :: int)" "- 1 + 3 = (2 :: int)" "- 1 < (2 :: int) ^ 31 - 4" by simp_all
  show ?thesis
    unfolding r
    using overlapping_writes_lose_data [where d = "\<lparr>location' = None, session' = Some opened_example\<rparr>" and a = "[1]" and b = "[2]" and c = "[3]",
        OF _ opened_example(2) opened_idle(5) _ opened_idle(1-4), of "\<lambda>c n. n" "\<lambda>_ _. []" wr_example rd_example]
    by (simp only: opened_example(3) opened_idle(6) i append_Nil list.size device.simps refl True_implies_equals)
qed

end
