(* ===== verification/Scan_Stream.thy ===== *)
theory Scan_Stream
  imports Device
begin

text \<open>
  Scan data on the main connection: from the frame a device has measured, through its notifications as characters of the TCP
  stream, to the frame \<open>readScanFrame\<close> returns.
\<close>

section \<open>Notifications\<close>

text \<open>The notification of block \<open>k\<close> with one layer, and what it is decoded to.\<close>

definition scan_notification :: "nat \<Rightarrow> int \<Rightarrow> 16 word list \<Rightarrow> byte list \<Rightarrow> json" where
  "scan_notification k ts rs ws = JObject [(''jsonrpc'', JString ''2.0''), (''method'', JString ''notification/laserScan''),
     (''params'', JObject [(''block'', JInt (int k)), (''timestamp'', JInt ts), (''layers'', JArray [layer_json (rs, ws)])])]"

definition notified_block :: "nat \<Rightarrow> int \<Rightarrow> 16 word list \<Rightarrow> byte list \<Rightarrow> scan_block" where
  "notified_block k ts rs ws = \<lparr>sb_block_index = Some (int k), sb_block_count = Some 8, sb_block_length = Some (int (length rs)),
     sb_timestamp = Some (word_of_int ts), sb_angular_fov = Some ANGULAR_FOV_270DEG, sb_layers = [layer_data (rs, ws)]\<rparr>"

lemma laser_scan_notification [simp]: "laser_scan (scan_notification k ts rs ws)"
  by (simp add: laser_scan_def scan_notification_def the_member_def has_def)

lemma decode_scan_notification:
  assumes "k < 8" and "- (2 ^ 63) \<le> ts" "ts < 2 ^ 63" and "rs \<noteq> []" "ws \<noteq> []"
  shows "decode_block (Notification (scan_notification k ts rs ws)) b = Inr (notified_block k ts rs ws)"
  using assms decode_layers_json [of "[(rs, ws)]" "vector_resize 1 empty_data (sb_layers b)" "[]" "sb_block_length b"]
  by (simp add: decode_block_def decode_notification_def scan_notification_def IsNull_def GetInt64_def ArraySize_def notified_block_def)

section \<open>One read\<close>

lemma poll_notification:
  assumes t: "transport' s = Some t" "received_message_callback t" "reading t" "\<not> io_stopped t" "incoming_message_buffer t = []"
    and q: "scan_block_queue_primary s = []" "scan_block_queue_oob s = []"
    and ms: "\<forall>m \<in> set ms. reads_back wr rd m \<and> \<not> laser_scan m \<and> \<not> answers (id' s) m" and n: "reads_back wr rd n" "laser_scan n"
    and chunks: "concat chunks = concat (map (frame_of wr) (ms @ [n]))"
  shows "pollForScanBlock wr rd [map Tcp_bytes chunks] s = Inr (s, no_error, Notification n)"
proof -
  have "t\<lparr>incoming_message_buffer := []\<rparr> = t" using t(5) by (cases t) simp
  then have io: "io_run wr rd (map Tcp_bytes chunks) t = Inr (t, map Message (ms @ [n]))"
    using io_run_chunks [of "ms @ [n]" wr rd t chunks] ms n(1) chunks t by auto
  have none: "filter laser_scan ms = []" "filter (answers (id' s)) ms = []" using ms by (simp_all add: filter_empty_conv)
  have "\<forall>d \<in> set (messages (map Message (ms @ [n]))). IsObject d"
    using ms n(1) by (auto simp: reads_back_def simp del: map_append)
  moreover have "scan_bounded s" using q by (simp add: scan_bounded_def)
  ultimately have "deliver_all (map Message (ms @ [n])) s = Inr (s\<lparr>scan_block_queue_primary := [n]\<rparr>)"
    using deliver_all_eq [of "map Message (ms @ [n])" s] none n(2) q laser_scan_no_answer [OF n(2)]
    by (cases s) (simp add: latest_def SCAN_BLOCK_BUFFERING_COUNT_def del: map_append)
  moreover have same: "s\<lparr>transport' := Some t\<rparr> = s" "s\<lparr>scan_block_queue_primary := []\<rparr> = s" using t(1) q(1) by (cases s; simp)+
  ultimately have "session_io wr rd (map Tcp_bytes chunks) s = Inr (s\<lparr>scan_block_queue_primary := [n]\<rparr>)"
    by (simp add: session_io_def t(1) io same(1) del: map_append)
  then show ?thesis
    using q by (simp add: pollForScanBlock_def block_ready_def front_block_def same(2))
qed

section \<open>A frame\<close>

text \<open>The stream during read \<open>k\<close>: some other messages, then the notification of block \<open>k\<close>, cut into \<open>chunks\<close> anywhere.\<close>

definition streamed :: "json_writer \<Rightarrow> json_reader \<Rightarrow> int \<Rightarrow> json list \<Rightarrow> string list \<Rightarrow> json \<Rightarrow> bool" where
  "streamed wr rd i others chunks n \<longleftrightarrow>
     (\<forall>m \<in> set others. reads_back wr rd m \<and> \<not> laser_scan m \<and> \<not> answers i m) \<and> reads_back wr rd n \<and>
     concat chunks = concat (map (frame_of wr) (others @ [n]))"

lemma reads_notifications:
  assumes t: "transport' s = Some t" "received_message_callback t" "reading t" "\<not> io_stopped t" "incoming_message_buffer t = []"
    and q: "scan_block_queue_primary s = []" "scan_block_queue_oob s = []"
    and k: "\<And>k. k \<in> set ks \<Longrightarrow> k < 8 \<and> - (2 ^ 63) \<le> ts k \<and> ts k < 2 ^ 63 \<and> rs k \<noteq> [] \<and> ws k \<noteq> [] \<and>
      streamed wr rd (id' s) (others k) (chunks k) (scan_notification k (ts k) (rs k) (ws k))"
  shows "\<exists>b'. reads wr rd s b (map (\<lambda>k. [map Tcp_bytes (chunks k)]) ks) (map (\<lambda>k. notified_block k (ts k) (rs k) (ws k)) ks) s b'"
  using k
proof (induction ks arbitrary: b)
  case Nil
  show ?case by (auto intro: reads.intros)
next
  case (Cons k ks)
  have k: "k < 8" "- (2 ^ 63) \<le> ts k" "ts k < 2 ^ 63" "rs k \<noteq> []" "ws k \<noteq> []"
    "streamed wr rd (id' s) (others k) (chunks k) (scan_notification k (ts k) (rs k) (ws k))"
    using Cons.prems [of k] by simp_all
  let ?n = "scan_notification k (ts k) (rs k) (ws k)"
  have "pollForScanBlock wr rd [map Tcp_bytes (chunks k)] s = Inr (s, no_error, Notification ?n)"
    using k(6) by (intro poll_notification [OF t q, of "others k"]) (simp_all add: streamed_def)
  then have "read_block wr rd [map Tcp_bytes (chunks k)] s b = Inr (s, notified_block k (ts k) (rs k) (ws k), no_error)"
    using decode_scan_notification [OF k(1-5)] by (simp add: read_block_def)
  moreover obtain b' where "reads wr rd s (notified_block k (ts k) (rs k) (ws k)) (map (\<lambda>k. [map Tcp_bytes (chunks k)]) ks)
      (map (\<lambda>k. notified_block k (ts k) (rs k) (ws k)) ks) s b'"
    using Cons.IH Cons.prems by force
  ultimately show ?case by (auto intro: reads.intros)
qed

lemma whole_notified:
  assumes "\<And>k. k < 8 \<Longrightarrow> length (rs k) = m \<and> length (ws k) = m"
  shows "whole_frame 8 m (map (\<lambda>k. notified_block k (ts k) (rs k) (ws k)) [0..<8])"
  using assms by (auto simp: whole_frame_def hd_map notified_block_def enough_def layer_data_def)

lemma part_notified:
  assumes "\<And>k. k < 8 \<Longrightarrow> length (sel (layer_data (rs k, ws k))) = m" and "0 < m"
  shows "part m sel (map (\<lambda>k. notified_block k (ts k) (rs k) (ws k)) [0..<8]) =
    concat (map (\<lambda>k. sel (layer_data (rs k, ws k))) [0..<8])"
  using assms by (auto simp: part_def notified_block_def intro!: arg_cong [where f = concat])


text \<open>A codec for the blocks of a small frame: block \<open>k\<close> is written as \<open>k + 1\<close> times an x.\<close>

definition wr_blocks :: json_writer where
  "wr_blocks d = (case the_member (the_member d ''params'') ''block'' of JInt k \<Rightarrow> replicate (Suc (nat k)) CHR ''x'' | _ \<Rightarrow> ''x'')"

definition rd_blocks :: json_reader where
  "rd_blocks buf = (let n = length (takeWhile (\<lambda>c. c = CHR ''x'') buf) in
     (if n = 0 then None else Some (scan_notification (n - 1) 1000 [of_nat n] [7]), n))"

lemma reads_back_blocks: "k < 8 \<Longrightarrow> reads_back wr_blocks rd_blocks (scan_notification k 1000 [of_nat (Suc k)] [7])"
  by (simp add: reads_back_def wr_blocks_def rd_blocks_def scan_notification_def the_member_def IsObject_def MESSAGE_LENGTH_MAX_def
      takeWhile_append del: replicate.simps)


end
