(* ===== verification/Connecting.thy ===== *)
theory Connecting
  imports Net_Transport
begin

text \<open>
  The two threads of \<open>NetworkTransport::connect\<close> (src/transport.cpp).  The caller waits on the condition variable, the I/O thread runs
  the handler of \<open>async_connect\<close>; both work on local variables of the function under its mutex.  The steps of this theory are
  what the mutex makes atomic.  \<open>Net_Transport.connect\<close>, which takes the outcome at once, is what they refine.
\<close>

section \<open>Steps\<close>

datatype connect_pc = Waiting | Closing | Returned

text \<open>\<open>cn_connect_result\<close> is \<open>None\<close> for \<open>would_block\<close>; \<open>cn_pending\<close> says that the handler has not run yet.\<close>

record connecting =
  cn_transport :: transport
  cn_result :: error_t
  cn_connect_result :: "asio_error option option"
  cn_pending :: bool
  cn_pc :: connect_pc

definition connect_begin :: "transport \<Rightarrow> connecting" where
  "connect_begin t = \<lparr>cn_transport = t\<lparr>primary_open := True, io_stopped := False\<rparr>, cn_result = no_error, cn_connect_result = None,
     cn_pending = True, cn_pc = Waiting\<rparr>"

definition connect_handler :: "asio_error option \<Rightarrow> connecting \<Rightarrow> connecting" where
  "connect_handler error c =
     (let c = c\<lparr>cn_pending := False\<rparr> in
      if cn_result c = no_error then
        let c = (if error \<noteq> Some operation_aborted then c\<lparr>cn_connect_result := Some error\<rparr> else c)
        in if error = None then c\<lparr>cn_transport := (cn_transport c)\<lparr>reading := True\<rparr>\<rparr> else c
      else c)"

text \<open>What the caller does after the wait, still under the mutex, and the closing of the socket after a failure.\<close>

definition after_wait :: "bool \<Rightarrow> connecting \<Rightarrow> connecting" where
  "after_wait wait_result c =
     (let result =
        (if wait_result \<and> cn_connect_result c = Some None then no_error
         else if \<not> wait_result then timed_out
         else if cn_connect_result c = Some (Some err_connection_refused) then connection_refused
         else unknown)
      in if result \<noteq> no_error then
           c\<lparr>cn_result := result, cn_transport := (cn_transport c)\<lparr>primary_open := False\<rparr>, cn_pc := Closing\<rparr>
         else c\<lparr>cn_result := result, cn_pc := Returned\<rparr>)"

text \<open>
  The handler runs once, with any outcome; after the socket was closed this is \<open>operation_aborted\<close>, or an outcome that was on its way
  already.  A wait ends when its condition holds or at the timeout, where the condition is evaluated once more.  The caller of a
  failed attempt joins the thread, which ends when the handler has run.
\<close>

datatype connect_event = Handler "asio_error option" | Wake | Time_out | Joined

inductive connect_step :: "connecting \<Rightarrow> connect_event \<Rightarrow> connecting \<Rightarrow> bool" where
  handler: "cn_pending c \<Longrightarrow> connect_step c (Handler e) (connect_handler e c)"
| wake: "cn_pc c = Waiting \<Longrightarrow> cn_connect_result c \<noteq> None \<Longrightarrow> connect_step c Wake (after_wait True c)"
| time_out: "cn_pc c = Waiting \<Longrightarrow> connect_step c Time_out (after_wait (cn_connect_result c \<noteq> None) c)"
| joined: "cn_pc c = Closing \<Longrightarrow> \<not> cn_pending c \<Longrightarrow>
    connect_step c Joined (c\<lparr>cn_transport := (cn_transport c)\<lparr>io_stopped := True\<rparr>, cn_pc := Returned\<rparr>)"

inductive_cases connect_stepE: "connect_step c ev c'"

inductive_simps connect_step_simps:
  "connect_step c (Handler e) c'" "connect_step c Wake c'" "connect_step c Time_out c'" "connect_step c Joined c'"

inductive connect_path :: "connecting \<Rightarrow> connect_event list \<Rightarrow> connecting \<Rightarrow> bool" for c0 where
  connect_here: "connect_path c0 [] c0"
| connect_more: "connect_path c0 evs c \<Longrightarrow> connect_step c ev c' \<Longrightarrow> connect_path c0 (evs @ [ev]) c'"

text \<open>The outcome that counts: the one of the handler, if it ran before the wait ended.\<close>

fun outcome_of :: "connect_event list \<Rightarrow> asio_error option option" where
  "outcome_of (Handler e # evs) = Some e"
| "outcome_of evs = None"

section \<open>Invariant\<close>

definition connect_inv :: "transport \<Rightarrow> connect_event list \<Rightarrow> connecting \<Rightarrow> bool" where
  "connect_inv t evs c \<longleftrightarrow>
     (case cn_pc c of
        Waiting \<Rightarrow> cn_result c = no_error \<and>
          (evs = [] \<and> c = connect_begin t \<or> (\<exists>e. evs = [Handler e] \<and> c = connect_handler e (connect_begin t)))
      | Closing \<Rightarrow> evs \<noteq> [] \<and> cn_result c \<noteq> no_error \<and> length evs \<le> (if cn_pending c then 1 else 2) \<and>
          (cn_transport c)\<lparr>io_stopped := True\<rparr> = fst (connect (outcome_of evs) t) \<and> cn_result c = snd (connect (outcome_of evs) t)
      | Returned \<Rightarrow> evs \<noteq> [] \<and> length evs \<le> 3 \<and> \<not> cn_pending c \<and> (cn_transport c, cn_result c) = connect (outcome_of evs) t)"

lemma outcome_of_append: "evs \<noteq> [] \<Longrightarrow> outcome_of (evs @ evs') = outcome_of evs"
  by (cases evs rule: outcome_of.cases) auto

text \<open>The end of the wait, before and after the handler.\<close>

lemma after_wait_begin:
  assumes "\<not> reading t"
  shows "connect_inv t [Time_out] (after_wait False (connect_begin t))"
  using assms by (cases t) (simp add: connect_inv_def after_wait_def connect_begin_def connect_def)

lemma after_wait_handler:
  assumes "\<not> reading t" and "ev \<noteq> Joined"
  shows "connect_inv t [Handler e, ev] (after_wait (e \<noteq> Some operation_aborted) (connect_handler e (connect_begin t)))"
  using assms by (cases t) (auto simp: connect_inv_def after_wait_def connect_begin_def connect_handler_def connect_def Let_def split: option.split)

lemma connect_step_inv:
  assumes "connect_inv t evs c" and "connect_step c ev c'" and "\<not> reading t"
  shows "connect_inv t (evs @ [ev]) c'"
proof (cases "cn_pc c")
  case Waiting
  have r: "cn_connect_result (connect_begin t) = None"
    "cn_connect_result (connect_handler e (connect_begin t)) = (if e = Some operation_aborted then None else Some e)"
    "\<not> cn_pending (connect_handler e (connect_begin t))" for e
    by (simp_all add: connect_begin_def connect_handler_def Let_def)
  from assms(1) Waiting have "evs = [] \<and> c = connect_begin t \<or> (\<exists>e. evs = [Handler e] \<and> c = connect_handler e (connect_begin t))"
    by (simp add: connect_inv_def)
  then show ?thesis
  proof (elim disjE exE conjE)
    assume evs: "evs = []" and c: "c = connect_begin t"
    from assms(2) show ?thesis
    proof (cases rule: connect_step.cases)
      case (handler e)
      have "cn_pc (connect_handler e (connect_begin t)) = Waiting" "cn_result (connect_handler e (connect_begin t)) = no_error"
        by (simp_all add: connect_begin_def connect_handler_def Let_def)
      with handler show ?thesis by (simp add: evs c connect_inv_def)
    qed (use Waiting after_wait_begin [OF assms(3)] r(1) in \<open>simp_all add: evs c\<close>)
  next
    fix e assume evs: "evs = [Handler e]" and c: "c = connect_handler e (connect_begin t)"
    from assms(2) show ?thesis
      by (cases rule: connect_step.cases)
        (use Waiting after_wait_handler [OF assms(3), of _ e] r in \<open>simp_all add: evs c split: if_splits\<close>)
  qed
next
  case Closing
  from assms(2) show ?thesis
    by (cases rule: connect_step.cases)
      (use assms(1) Closing outcome_of_append [of evs "[ev]"] in \<open>auto simp: connect_inv_def connect_handler_def Let_def prod_eq_iff\<close>)
next
  case Returned
  from assms(2) show ?thesis
    by (cases rule: connect_step.cases) (use assms(1) Returned in \<open>simp_all add: connect_inv_def\<close>)
qed

lemma connect_path_inv:
  assumes "connect_path (connect_begin t) evs c" and "\<not> reading t"
  shows "connect_inv t evs c"
  using assms(1)
proof induction
  case connect_here
  show ?case by (simp add: connect_inv_def connect_begin_def)
next
  case (connect_more evs c ev c')
  then show ?case by (intro connect_step_inv assms(2))
qed

section \<open>Properties\<close>

text \<open>
  C12: However the handler of the connection, the wake-up and the timeout interleave, \<open>connect\<close> returns after at most three steps,
  cannot get stuck before, and then the transport and the code are those of the outcome the handler had before the wait
  ended.  In particular a connection that succeeds too late is dropped: no read is left behind on a transport whose
  \<open>connect\<close> has failed.
\<close>

theorem connect_steps_refine:
  assumes "connect_path (connect_begin t) evs c" and "\<not> reading t"
  shows "length evs \<le> 3 \<and> (cn_pc c = Returned \<longleftrightarrow> (\<nexists>ev c'. connect_step c ev c')) \<and>
    (cn_pc c = Returned \<longrightarrow> (cn_transport c, cn_result c) = connect (outcome_of evs) t)"
proof -
  have inv: "connect_inv t evs c" using assms by (rule connect_path_inv)
  then have "length evs \<le> 3" by (auto simp: connect_inv_def split: connect_pc.splits if_splits)
  moreover have "\<exists>ev c'. connect_step c ev c'" if "cn_pc c \<noteq> Returned"
    using that handler [of c] time_out [of c] joined [of c] by (cases "cn_pc c"; cases "cn_pending c") blast+
  moreover have "\<nexists>ev c'. connect_step c ev c'" if "cn_pc c = Returned"
    using that inv by (auto simp: connect_inv_def elim: connect_stepE)
  moreover have "cn_pc c = Returned \<longrightarrow> (cn_transport c, cn_result c) = connect (outcome_of evs) t"
    using inv by (auto simp: connect_inv_def)
  ultimately show ?thesis by blast
qed

text \<open>The connection is established just after the timeout.\<close>

theorem connect_steps_refine_witness:
  "\<exists>c. connect_path (connect_begin (NetworkTransport (NetworkLocation 1 2))) [Time_out, Handler None, Joined] c \<and>
    cn_result c = timed_out \<and> \<not> reading (cn_transport c) \<and> \<not> primary_open (cn_transport c)"
proof -
  let ?t = "NetworkTransport (NetworkLocation 1 2)"
  let ?c1 = "after_wait False (connect_begin ?t)"
  let ?c2 = "connect_handler None ?c1"
  let ?c3 = "?c2\<lparr>cn_transport := (cn_transport ?c2)\<lparr>io_stopped := True\<rparr>, cn_pc := Returned\<rparr>"
  have "connect_step (connect_begin ?t) Time_out ?c1" "connect_step ?c1 (Handler None) ?c2" "connect_step ?c2 Joined ?c3"
    by (simp_all add: connect_step_simps connect_begin_def after_wait_def connect_handler_def)
  then have path: "connect_path (connect_begin ?t) ((([] @ [Time_out]) @ [Handler None]) @ [Joined]) ?c3"
    by (intro connect_more [OF connect_more [OF connect_more [OF connect_here]]])
  have "\<not> reading ?t" by (simp add: NetworkTransport_def)
  from connect_steps_refine [OF path this] have "(cn_transport ?c3, cn_result ?c3) = connect None ?t" by simp
  then have "cn_result ?c3 = timed_out \<and> \<not> reading (cn_transport ?c3) \<and> \<not> primary_open (cn_transport ?c3)"
    by (simp add: connect_def NetworkTransport_def)
  with path show ?thesis by auto
qed

end
