(* ===== verification/Session_Threads.thy ===== *)
theory Session_Threads
  imports Session
begin

text \<open>
  A session used by two threads of the application: one reads scan data while the other executes commands.  While a command
  waits, the other thread may take blocks out of the scan queues, between any events of the I/O thread; while the reading thread
  waits for a block, the other may execute whole commands.
\<close>

datatype other = Io_events "io_event list" | Take_block

fun other_step :: "json_writer \<Rightarrow> json_reader \<Rightarrow> other \<Rightarrow> session \<Rightarrow> session res" where
  "other_step wr rd (Io_events evs) s = session_io wr rd evs s"
| "other_step wr rd Take_block s = Inr (fst (front_block s))"

fun io_part :: "other list \<Rightarrow> io_event list" where
  "io_part [] = []"
| "io_part (Io_events evs # os) = evs @ io_part os"
| "io_part (Take_block # os) = io_part os"

text \<open>What commands see of a session: everything but the scan queues.\<close>

definition command_view :: "session \<Rightarrow> session" where
  "command_view s = s\<lparr>scan_block_queue_primary := [], scan_block_queue_oob := []\<rparr>"

lemma command_view_eq:
  "command_view s = command_view u \<longleftrightarrow>
     timeout' s = timeout' u \<and> transport' s = transport' u \<and> id' s = id' u \<and> response_queue s = response_queue u"
  by (cases s; cases u) (simp add: command_view_def)

lemma front_block_view [simp]: "command_view (fst (front_block s)) = command_view s"
  by (simp add: front_block_def command_view_def split: list.split)

lemma session_io_view:
  assumes "session_ok s" and "session_ok u" and "command_view s = command_view u"
  shows "\<exists>s' u'. session_io wr rd evs s = Inr s' \<and> session_io wr rd evs u = Inr u' \<and> session_ok s' \<and> session_ok u' \<and>
    command_view s' = command_view u'"
proof (cases "transport' s")
  case None
  moreover from this assms(3) have "transport' u = None" by (simp add: command_view_eq)
  ultimately show ?thesis using assms by (simp add: session_io_def)
next
  case (Some t)
  with assms(3) have u: "transport' u = Some t" by (simp add: command_view_eq)
  obtain t1 cbs1 where 1: "io_run wr rd evs t = Inr (t1, cbs1)" "session_io wr rd evs s = Inr (after_io t1 cbs1 s)"
    "session_ok (after_io t1 cbs1 s)" by (rule session_io_after [OF assms(1) Some])
  obtain t2 cbs2 where 2: "io_run wr rd evs t = Inr (t2, cbs2)" "session_io wr rd evs u = Inr (after_io t2 cbs2 u)"
    "session_ok (after_io t2 cbs2 u)" by (rule session_io_after [OF assms(2) u])
  have "command_view (after_io t1 cbs1 s) = command_view (after_io t1 cbs1 u)"
    using assms(3) by (simp add: command_view_eq after_io_def)
  with 1 2 show ?thesis by simp
qed

lemma session_io_Nil [simp]: "session_io wr rd [] s = Inr s"
  by (cases s) (simp add: session_io_def split: option.split)

lemma run_others_view:
  assumes "session_ok s" and "session_ok u" and "command_view s = command_view u"
  shows "\<exists>s' u'. run_others (other_step wr rd) os s = Inr s' \<and> session_io wr rd (io_part os) u = Inr u' \<and>
    session_ok s' \<and> session_ok u' \<and> command_view s' = command_view u'"
  using assms
proof (induction os arbitrary: s u)
  case Nil
  then show ?case by simp
next
  case (Cons x os)
  show ?case
  proof (cases x)
    case (Io_events evs)
    from session_io_view [OF Cons.prems, of wr rd evs] obtain s1 u1 where
      1: "session_io wr rd evs s = Inr s1" "session_io wr rd evs u = Inr u1" "session_ok s1" "session_ok u1"
        "command_view s1 = command_view u1" by blast
    with Cons.IH [OF 1(3-5)] Io_events show ?thesis by (simp add: session_io_append [OF Cons.prems(2)])
  next
    case Take_block
    have "session_ok (fst (front_block s))" "command_view (fst (front_block s)) = command_view u"
      using front_block_ok [OF Cons.prems(1)] Cons.prems(3) by simp_all
    from Cons.IH [OF this(1) Cons.prems(2) this(2)] Take_block show ?thesis by simp
  qed
qed

interpretation reader: observed_wait response_ready "session_io wr rd" "run_others (other_step wr rd)" io_part session_ok command_view
  for wr rd
proof
  fix s u
  assume "session_ok s" "session_ok u" "command_view s = command_view u"
  then have "id' s = id' u" "response_queue s = response_queue u" "timeout' s = timeout' u" "transport' s = transport' u"
    by (simp_all add: command_view_eq)
  then show "map_sum id (map_prod command_view id) (response_ready s) = map_sum id (map_prod command_view id) (response_ready u)"
    by (auto simp: response_ready_def bindR_def command_view_def Let_def split: sum.split list.split)
next
  fix s s' b
  assume "session_ok s" "response_ready s = Inr (s', b)"
  then show "session_ok s'" using response_ready_pure [of s s' b] by simp
next
  fix s u os
  assume "session_ok s" "session_ok u" "command_view s = command_view u"
  then show "\<exists>s' u'. run_others (other_step wr rd) os s = Inr s' \<and> session_io wr rd (io_part os) u = Inr u' \<and>
    session_ok s' \<and> session_ok u' \<and> command_view s' = command_view u'" by (rule run_others_view)
qed

section \<open>Commands while scan data is awaited\<close>

text \<open>
  The other way round: while \<open>pollForScanBlock\<close> waits, other threads may send requests, and threads whose commands wait may look at
  the response queue and take a response out of it.
\<close>

datatype command_part = Events "io_event list" | Send json | Check_response | Take_response

fun command_step :: "json_writer \<Rightarrow> json_reader \<Rightarrow> command_part \<Rightarrow> session \<Rightarrow> session res" where
  "command_step wr rd (Events evs) s = session_io wr rd evs s"
| "command_step wr rd (Send request) s = send_request wr request s"
| "command_step wr rd Check_response s = bindR (response_ready s) (\<lambda>(s, _). Inr s)"
| "command_step wr rd Take_response s = Inr (s\<lparr>response_queue := tl (response_queue s)\<rparr>)"

fun events_part :: "command_part list \<Rightarrow> io_event list" where
  "events_part [] = []"
| "events_part (Events evs # ps) = evs @ events_part ps"
| "events_part (p # ps) = events_part ps"

definition poll_among :: "('e \<Rightarrow> session \<Rightarrow> session res) \<Rightarrow> 'e list \<Rightarrow> session \<Rightarrow> (session \<times> error_t \<times> scan_data) res" where
  "poll_among others es s =
     bindR (wait_for block_ready others es s) (\<lambda>(s, wait_result).
       if wait_result then (case front_block s of (s, block) \<Rightarrow> Inr (s, no_error, block))
       else Inr (s, timed_out, No_data))"

lemma pollForScanBlock_among: "pollForScanBlock wr rd evss s = poll_among (session_io wr rd) evss s"
  by (simp add: pollForScanBlock_def poll_among_def)

text \<open>
  The receiving half of a transport.  A stopped I/O thread has nothing pending; this holds as long as the out-of-band socket is not
  enabled after the thread has ended.
\<close>

definition rx_live :: "transport \<Rightarrow> bool" where
  "rx_live t \<longleftrightarrow> (io_stopped t \<longrightarrow> \<not> reading t \<and> \<not> oob_receiving t)"

definition same_rx :: "transport \<Rightarrow> transport \<Rightarrow> bool" where
  "same_rx t u \<longleftrightarrow> rx_live t \<and> rx_live u \<and> reading t = reading u \<and> oob_receiving t = oob_receiving u \<and>
     incoming_message_buffer t = incoming_message_buffer u \<and> device_address t = device_address u \<and>
     received_message_callback t = received_message_callback u \<and> received_oob_packet_callback t = received_oob_packet_callback u"

definition same_news :: "callback list \<Rightarrow> callback list \<Rightarrow> bool" where
  "same_news cbs cbs' \<longleftrightarrow> messages cbs = messages cbs' \<and> packets cbs = packets cbs'"

lemma drain_rx:
  assumes "same_rx t u" and "reading t"
  shows "same_rx (fst (drain rd t)) (fst (drain rd u)) \<and> snd (drain rd t) = snd (drain rd u)"
  using assms
proof (induction rd t arbitrary: u rule: drain.induct)
  case (1 rd t)
  have rx: "incoming_message_buffer u = incoming_message_buffer t" "received_message_callback u = received_message_callback t"
    using 1(2) by (simp_all add: same_rx_def)
  show ?case
  proof (cases "crlf_end (incoming_message_buffer t)")
    case None
    with 1 rx show ?thesis by (simp add: drain_none)
  next
    case (Some n)
    let ?h = "\<lambda>t. incomingMessageHandler rd None n (t\<lparr>reading := False\<rparr>)"
    show ?thesis
    proof (cases "received_message_callback t")
      case True
      have h: "same_rx (fst (?h t)) (fst (?h u))" "snd (?h t) = snd (?h u)" "reading (fst (?h t))"
        using 1(2,3) by (auto simp: incomingMessageHandler_def same_rx_def rx_live_def split: prod.split)
      from 1(1) [OF Some True refl h(1,3)] h(2) show ?thesis
        using Some True rx by (simp add: drain.simps [of rd t] drain.simps [of rd u] Let_def)
    qed (use Some 1 rx in \<open>simp add: drain.simps [of rd t] drain.simps [of rd u]\<close>)
  qed
qed

lemma same_rx_sym: "same_rx t u \<Longrightarrow> same_rx u t"
  by (auto simp: same_rx_def)

lemma write_done_rx: "\<exists>t'. io_step wr rd Write_done t = Inr (t', []) \<and> (same_rx t u \<longrightarrow> same_rx t' u)"
  by (auto simp: outgoingMessageHandler_def start_write_def settle_def same_rx_def rx_live_def Let_def split: option.split)

lemma io_step_rx:
  assumes "same_rx t u"
  shows "rel_res (rel_prod same_rx same_news) (io_step wr rd ev t) (io_step wr rd ev u)"
proof (cases ev)
  case (Tcp_bytes s)
  let ?add = "\<lambda>t. t\<lparr>incoming_message_buffer := incoming_message_buffer t @ s\<rparr>"
  have rx: "reading u = reading t" "incoming_message_buffer u = incoming_message_buffer t"
    "received_message_callback u = received_message_callback t" using assms by (simp_all add: same_rx_def)
  show ?thesis
  proof (cases "reading t")
    case True
    then have run: "\<not> io_stopped t" "\<not> io_stopped u" using assms by (auto simp: same_rx_def rx_live_def)
    have "same_rx (?add t) (?add u)" using assms by (auto simp: same_rx_def rx_live_def)
    from drain_rx [OF this, of rd] True have "rel_prod same_rx same_news (drain rd (?add t)) (drain rd (?add u))"
      by (cases "drain rd (?add t)"; cases "drain rd (?add u)") (simp add: same_news_def)
    then show ?thesis by (simp add: Tcp_bytes True run rx Let_def)
  qed (use Tcp_bytes assms rx in \<open>simp add: same_news_def\<close>)
next
  case (Tcp_error e)
  then show ?thesis using assms by (auto simp: incomingMessageHandler_def settle_def same_rx_def rx_live_def same_news_def)
next
  case Write_done
  obtain t' where t': "io_step wr rd Write_done t = Inr (t', [])" "same_rx t' u"
    using write_done_rx [of wr rd t u] assms by blast
  obtain u' where "io_step wr rd Write_done u = Inr (u', [])" "same_rx u' t'"
    using write_done_rx [of wr rd u t'] same_rx_sym [OF t'(2)] by blast
  with t' same_rx_sym [of u' t'] show ?thesis unfolding Write_done by (simp add: same_news_def)
next
  case (Write_error e n)
  then show ?thesis
    using assms by (auto simp: outgoingMessageHandler_def settle_def same_rx_def rx_live_def same_news_def split: option.split)
next
  case (Udp_packet a p)
  then show ?thesis
    using assms by (auto simp: oobPacketHandler_def same_rx_def rx_live_def same_news_def split: prod.split)
next
  case (Udp_error e)
  then show ?thesis using assms by (auto simp: oobPacketHandler_def settle_def same_rx_def rx_live_def same_news_def)
qed

lemma same_news_append: "same_news a b \<Longrightarrow> same_news c d \<Longrightarrow> same_news (a @ c) (b @ d)"
  by (simp add: same_news_def)

lemma io_run_rx: "same_rx t u \<Longrightarrow> rel_res (rel_prod same_rx same_news) (io_run wr rd evs t) (io_run wr rd evs u)"
proof (induction evs arbitrary: t u)
  case (Cons ev evs)
  show ?case
    unfolding io_run.simps
    by (rule bindR_rel [OF io_step_rx [OF Cons.prems]])
      (auto elim!: rel_prod.cases intro!: bindR_rel [OF Cons.IH] simp: same_news_append)
qed (simp add: same_news_def)

lemma transmitMessage_rx: "same_rx t u \<Longrightarrow> same_rx (transmitMessage wr m t) u"
  by (auto simp: same_rx_def rx_live_def transmitMessage_def start_write_def Let_def)

text \<open>What a poll sees of a session: the scan queues and the receiving half of the transport.\<close>

definition same_scan :: "session \<Rightarrow> session \<Rightarrow> bool" where
  "same_scan s u \<longleftrightarrow> session_ok s \<and> session_ok u \<and> rel_option same_rx (transport' s) (transport' u) \<and>
     scan_block_queue_primary s = scan_block_queue_primary u \<and> scan_block_queue_oob s = scan_block_queue_oob u"

lemma session_io_scan:
  assumes "same_scan s u" and "session_io wr rd evs s = Inr s'"
  shows "\<exists>u'. session_io wr rd evs u = Inr u' \<and> same_scan s' u'"
proof (cases "transport' s")
  case None
  with assms show ?thesis by (auto simp: session_io_def same_scan_def)
next
  case (Some t)
  with assms(1) obtain t0 where t0: "transport' u = Some t0" "same_rx t t0" by (auto simp: same_scan_def option_rel_Some1)
  have ok: "session_ok s" "session_ok u" using assms(1) by (simp_all add: same_scan_def)
  obtain t1 cbs1 where 1: "io_run wr rd evs t = Inr (t1, cbs1)" "session_io wr rd evs s = Inr (after_io t1 cbs1 s)"
    "session_ok (after_io t1 cbs1 s)" by (rule session_io_after [OF ok(1) Some])
  obtain t2 cbs2 where 2: "io_run wr rd evs t0 = Inr (t2, cbs2)" "session_io wr rd evs u = Inr (after_io t2 cbs2 u)"
    "session_ok (after_io t2 cbs2 u)" by (rule session_io_after [OF ok(2) t0(1)])
  have "same_rx t1 t2" "same_news cbs1 cbs2" using io_run_rx [OF t0(2), of wr rd evs] 1(1) 2(1) by simp_all
  then have "same_scan (after_io t1 cbs1 s) (after_io t2 cbs2 u)"
    using assms(1) 1(3) 2(3) by (simp add: same_scan_def after_io_def same_news_def)
  with 1(2) 2(2) assms(2) show ?thesis by simp
qed

lemma session_ok_take: "session_ok s \<Longrightarrow> session_ok (s\<lparr>response_queue := tl (response_queue s)\<rparr>)"
  by (auto simp: session_ok_def scan_bounded_def)

lemma command_step_scan:
  assumes "same_scan s u" and "command_step wr rd p s = Inr s'"
  shows "\<exists>u'. session_io wr rd (events_part [p]) u = Inr u' \<and> same_scan s' u'"
proof (cases p)
  case (Events evs)
  with assms session_io_scan [OF assms(1), of wr rd evs] show ?thesis by simp
next
  case (Send request)
  with assms(2) have "send_request wr request s = Inr s'" by simp
  then obtain t where t: "transport' s = Some t" "id' s \<noteq> 2 ^ 31 - 1" and s': "s' = sent wr request s t" by (rule send_request_Inr)
  with assms(1) session_ok_sent [of s t wr request] show ?thesis
    unfolding Send s' by (auto simp: same_scan_def option_rel_Some1 sent_def intro: transmitMessage_rx)
next
  case Check_response
  with assms(2) obtain b where "response_ready s = Inr (s', b)" by (auto simp: outcomes)
  with response_ready_pure [of s s' b] assms(1) have "s' = s" by (simp add: same_scan_def)
  with assms(1) Check_response show ?thesis by simp
next
  case Take_response
  with assms session_ok_take [of s] show ?thesis by (auto simp: same_scan_def)
qed

lemma command_steps_scan:
  "same_scan s u \<Longrightarrow> run_others (command_step wr rd) ps s = Inr s' \<Longrightarrow> \<exists>u'. session_io wr rd (events_part ps) u = Inr u' \<and> same_scan s' u'"
proof (induction ps arbitrary: s u)
  case (Cons p ps)
  from Cons.prems(2) obtain s1 where 1: "command_step wr rd p s = Inr s1" "run_others (command_step wr rd) ps s1 = Inr s'"
    by (auto simp: outcomes)
  from command_step_scan [OF Cons.prems(1) 1(1)] obtain u1 where
    u1: "session_io wr rd (events_part [p]) u = Inr u1" "same_scan s1 u1" by blast
  have "events_part (p # ps) = events_part [p] @ events_part ps" by (cases p) simp_all
  moreover have "session_ok u" using Cons.prems(1) by (simp add: same_scan_def)
  ultimately show ?case using Cons.IH [OF u1(2) 1(2)] u1(1) by (simp add: session_io_append)
qed simp

interpretation commander: simulated_wait block_ready block_ready "run_others (command_step wr rd)" "session_io wr rd" events_part same_scan
  for wr rd
proof
  fix s u s' b assume "same_scan s u" and "block_ready s = Inr (s', b)"
  then show "\<exists>u'. block_ready u = Inr (u', b) \<and> same_scan s' u'" by (auto simp: block_ready_def same_scan_def)
next
  fix s u ps s' assume "same_scan s u" and "run_others (command_step wr rd) ps s = Inr s'"
  then show "\<exists>u'. session_io wr rd (events_part ps) u = Inr u' \<and> same_scan s' u'" by (rule command_steps_scan)
qed

section \<open>Properties\<close>

text \<open>
  C19: A thread that reads scan data does not disturb commands: whenever it takes blocks out of the queues while a command waits, the
  command ends with the same code and the same response (or the same fault) as without it, and leaves the same
  session but for the scan queues.
\<close>

theorem reader_does_not_disturb:
  assumes "session_reach wr rd s"
  shows "map_sum id (\<lambda>(s', e, r). (command_view s', e, r)) (executeCommand_among (run_others (other_step wr rd)) wr oss request s) =
    map_sum id (\<lambda>(s', e, r). (command_view s', e, r)) (executeCommand_response wr rd (map io_part oss) request s)"
proof (cases "send_request wr request s")
  case (Inl e)
  then show ?thesis by (simp add: executeCommand_response_def executeCommand_among_def)
next
  case (Inr s1)
  have "session_ok s1" using Inr session_reach_ok [OF assms] by (auto elim!: send_request_Inr intro: session_ok_sent)
  note v = reader.wait_view [OF this this refl, of wr rd oss]
  show ?thesis
  proof (cases "wait_for response_ready (run_others (other_step wr rd)) oss s1")
    case (Inl e)
    with v have "wait_for response_ready (session_io wr rd) (map io_part oss) s1 = Inl e"
      by (cases "wait_for response_ready (session_io wr rd) (map io_part oss) s1") auto
    with Inl \<open>send_request wr request s = Inr s1\<close> show ?thesis by (simp add: executeCommand_response_def executeCommand_among_def)
  next
    case (Inr x)
    then obtain s2 b where s2: "wait_for response_ready (run_others (other_step wr rd)) oss s1 = Inr (s2, b)" by (cases x) simp
    with v obtain u2 where u2: "wait_for response_ready (session_io wr rd) (map io_part oss) s1 = Inr (u2, b)"
      "command_view s2 = command_view u2"
      by (cases "wait_for response_ready (session_io wr rd) (map io_part oss) s1") auto
    then have q: "response_queue s2 = response_queue u2"
      and w: "command_view (s2\<lparr>response_queue := q\<rparr>) = command_view (u2\<lparr>response_queue := q\<rparr>)" for q
      by (simp_all add: command_view_eq)
    show ?thesis
      using s2 u2 q w \<open>send_request wr request s = Inr s1\<close>
      by (auto simp: executeCommand_response_def executeCommand_among_def bindR_def Let_def split: sum.split)
  qed
qed

theorem reader_does_not_disturb_witness:
  "map_sum id (\<lambda>(s', e, r). (e, r)) (executeCommand_among (run_others (other_step wr_example (rd_doc (reply_example 0)))) wr_example
      [[Take_block, Io_events [line_example], Take_block]] createEmptyRequestObject opened_example) =
    Inr (no_error, Some (reply_example 0))"
proof -
  let ?c = "executeCommand_among (run_others (other_step wr_example (rd_doc (reply_example 0)))) wr_example
      [[Take_block, Io_events [line_example], Take_block]] createEmptyRequestObject opened_example"
  have "map_sum id (\<lambda>(s', e, r). (command_view s', e, r)) ?c =
      Inr (command_view (sent wr_example createEmptyRequestObject opened_example opened_transport), no_error, Some (reply_example 0))"
    using reader_does_not_disturb [OF opened_reach, of wr_example "rd_doc (reply_example 0)"
        "[[Take_block, Io_events [line_example], Take_block]]" createEmptyRequestObject] command_example by simp
  then show ?thesis by (cases ?c) auto
qed

text \<open>
  C20: Commands do not disturb a thread that reads scan data: while it waits, other threads may send requests and take their responses at
  any moment between the events of the I/O thread, and the poll ends with the same code and the same block as without
  them, and leaves the same scan queues (none of the steps having a fault).
\<close>

theorem commands_do_not_disturb:
  assumes "session_reach wr rd s" and "transport' s = Some t" and "rx_live t"
    and "poll_among (run_others (command_step wr rd)) pss s = Inr (s', e, block)"
  shows "\<exists>u. pollForScanBlock wr rd (map events_part pss) s = Inr (u, e, block) \<and>
    scan_block_queue_primary u = scan_block_queue_primary s' \<and> scan_block_queue_oob u = scan_block_queue_oob s'"
proof -
  have "same_scan s s" using session_reach_ok [OF assms(1)] assms(2,3) by (simp add: same_scan_def same_rx_def)
  moreover from assms(4) obtain s1 b where
    w: "wait_for block_ready (run_others (command_step wr rd)) pss s = Inr (s1, b)"
    and r: "(if b then (case front_block s1 of (s, block) \<Rightarrow> Inr (s, no_error, block)) else Inr (s1, timed_out, No_data)) =
      (Inr (s', e, block) :: (session \<times> error_t \<times> scan_data) res)"
    by (auto simp: poll_among_def bindR_Inr_iff)
  ultimately obtain u1 where u1: "wait_for block_ready (session_io wr rd) (map events_part pss) s = Inr (u1, b)" "same_scan s1 u1"
    using commander.wait_sim by blast
  then show ?thesis
    using r by (auto simp: pollForScanBlock_def same_scan_def front_block_def split: list.splits if_splits)
qed

theorem commands_do_not_disturb_witness:
  "\<exists>s' u. poll_among (run_others (command_step wr_example (rd_doc scan_example)))
      [[Send createEmptyRequestObject, Check_response, Events [line_example]]] opened_example = Inr (s', no_error, Notification scan_example) \<and>
    pollForScanBlock wr_example (rd_doc scan_example) [[line_example]] opened_example = Inr (u, no_error, Notification scan_example)"
proof -
  let ?rd = "rd_doc scan_example"
  let ?s1 = "sent wr_example createEmptyRequestObject opened_example opened_transport"
  let ?t1 = "transmitMessage wr_example (with_id createEmptyRequestObject 0) opened_transport"
  have o: "IsObject scan_example" "laser_scan scan_example" "IsObject createEmptyRequestObject"
    by (simp_all add: scan_example_def IsObject_def laser_scan_def has_def the_member_def createEmptyRequestObject_def)
  have send: "send_request wr_example createEmptyRequestObject opened_example = Inr ?s1"
    using opened_example by (intro send_request_eq o) simp_all
  have q1: "response_queue ?s1 = []" "scan_block_queue_primary ?s1 = []" "scan_block_queue_oob ?s1 = []" using opened_idle by (simp_all add: sent_def)
  then have "?s1\<lparr>response_queue := []\<rparr> = ?s1" by (cases ?s1) simp
  with q1 have check: "response_ready ?s1 = Inr (?s1, False)" by (simp add: response_ready_def remove_if_in_place_def)
  have "received_message_callback ?t1"
    using opened_example(4) transmitMessage_owner [of opened_transport wr_example] by (simp add: same_callbacks_def)
  then have run: "io_run wr_example ?rd [line_example] ?t1 = Inr (?t1, [Message scan_example])"
    using opened_example o by (intro line_example_run) simp_all
  have ok: "session_ok ?s1" using session_reach_ok [OF opened_reach] opened_example(2,3) by (intro session_ok_sent) simp_all
  have t1: "transport' ?s1 = Some ?t1" by (simp add: opened_example(3))
  obtain t' cbs where "io_run wr_example ?rd [line_example] ?t1 = Inr (t', cbs)"
    "session_io wr_example ?rd [line_example] ?s1 = Inr (after_io t' cbs ?s1)"
    by (rule session_io_after [OF ok t1]) (rule that; assumption)
  with run have io: "session_io wr_example ?rd [line_example] ?s1 = Inr (after_io ?t1 [Message scan_example] ?s1)" by simp
  have n: "scan_block_queue_primary (after_io ?t1 [Message scan_example] ?s1) = [scan_example]"
    using q1 o(2) by (simp add: after_io_def SCAN_BLOCK_BUFFERING_COUNT_def)
  have poll: "\<exists>s'. poll_among (run_others (command_step wr_example ?rd)) [[Send createEmptyRequestObject, Check_response, Events [line_example]]]
      opened_example = Inr (s', no_error, Notification scan_example)"
    using opened_idle(5,7,8) q1 n by (simp add: poll_among_def block_ready_def send check io front_block_def)
  then obtain s' where p: "poll_among (run_others (command_step wr_example ?rd)) [[Send createEmptyRequestObject, Check_response, Events [line_example]]]
      opened_example = Inr (s', no_error, Notification scan_example)" by blast
  have "rx_live opened_transport" using opened_example(6) by (simp add: rx_live_def)
  from commands_do_not_disturb [OF opened_reach opened_example(2) this p] p show ?thesis by auto
qed

end
