(* ===== verification/Device_Manager.thy ===== *)
theory Device_Manager
  imports Locations "HOL-Library.Multiset"
begin

text \<open>
  \<open>DeviceManager\<close> of src/device_manager.cpp and the base class \<open>DeviceNotifier\<close> of
  include/ldcp/device_notifier.h.  The manager refers to notifiers by pointers (\<open>nat\<close>), so that the same notifier can be
  there twice; the virtual functions \<open>init\<close>, \<open>start\<close>, \<open>stop\<close> are arguments, with the contract \<open>notifier_class\<close>.
  What an operation tells the user's callback is a list of events.  The two mutexes make the handlers
  atomic; the callback runs when the entries are changed and \<open>data_mutex_\<close> is free again.
\<close>

section \<open>State\<close>

datatype device_event = EVENT_DEVICE_ATTACHED | EVENT_DEVICE_DETACHED

type_synonym event_log = "(device_event \<times> device_info) list"

text \<open>\<open>thread'\<close>: the thread object is joinable.  The handlers are set or empty.\<close>

record device_notifier =
  thread' :: bool
  device_attach_handler :: bool
  device_detach_handler :: bool

record device_manager =
  callback' :: bool
  notifiers' :: "nat list"
  monitoring_started :: bool
  device_entries :: "device_info list"

type_synonym 'a notifiers = "nat \<Rightarrow> 'a device_notifier_scheme"

definition DeviceManager :: device_manager where
  "DeviceManager = \<lparr>callback' = False, notifiers' = [], monitoring_started = False, device_entries = []\<rparr>"

definition registerDeviceEventCallback :: "bool \<Rightarrow> device_manager \<Rightarrow> device_manager" where
  "registerDeviceEventCallback callback m = m\<lparr>callback' := callback\<rparr>"

section \<open>Monitoring\<close>

definition addDeviceNotifier ::
  "('a device_notifier_scheme \<Rightarrow> 'a device_notifier_scheme \<times> bool) \<Rightarrow> nat \<Rightarrow> device_manager \<Rightarrow> 'a notifiers \<Rightarrow>
    device_manager \<times> 'a notifiers \<times> bool" where
  "addDeviceNotifier init p m h =
     (case init (h p) of (n, ok) \<Rightarrow>
        if \<not> ok then (m, h(p := n), False)
        else (m\<lparr>notifiers' := notifiers' m @ [p]\<rparr>,
              h(p := n\<lparr>device_attach_handler := True, device_detach_handler := True\<rparr>), True))"

fun for_each :: "('n \<Rightarrow> 'n res) \<Rightarrow> nat list \<Rightarrow> (nat \<Rightarrow> 'n) \<Rightarrow> (nat \<Rightarrow> 'n) res" where
  "for_each f [] h = Inr h"
| "for_each f (p # ps) h = bindR (f (h p)) (\<lambda>n. for_each f ps (h(p := n)))"

definition startMonitoring ::
  "('a device_notifier_scheme \<Rightarrow> 'a device_notifier_scheme res) \<Rightarrow> device_manager \<Rightarrow> 'a notifiers \<Rightarrow>
    (device_manager \<times> 'a notifiers) res" where
  "startMonitoring start m h =
     (let m = m\<lparr>monitoring_started := True\<rparr> in bindR (for_each start (notifiers' m) h) (\<lambda>h. Inr (m, h)))"

definition stopMonitoring ::
  "('a device_notifier_scheme \<Rightarrow> 'a device_notifier_scheme res) \<Rightarrow> device_manager \<Rightarrow> 'a notifiers \<Rightarrow>
    (device_manager \<times> 'a notifiers) res" where
  "stopMonitoring stop m h =
     (if monitoring_started m then
        bindR (for_each stop (notifiers' m) h) (\<lambda>h. Inr (m\<lparr>monitoring_started := False\<rparr>, h))
      else Inr (m, h))"

definition DeviceManager_destroy ::
  "('a device_notifier_scheme \<Rightarrow> 'a device_notifier_scheme res) \<Rightarrow> device_manager \<Rightarrow> 'a notifiers \<Rightarrow>
    (device_manager \<times> 'a notifiers) res" where
  "DeviceManager_destroy stop m h = (if monitoring_started m then stopMonitoring stop m h else Inr (m, h))"

section \<open>Devices that come and go\<close>

definition deviceEntries :: "device_manager \<Rightarrow> device_info list res" where
  "deviceEntries m = mapR DeviceInfo_copy (device_entries m)"

definition onDeviceAttached :: "device_info \<Rightarrow> device_manager \<Rightarrow> (device_manager \<times> event_log) res" where
  "onDeviceAttached new_entry m =
     bindR (DeviceInfo_copy new_entry) (\<lambda>entry.
       Inr (m\<lparr>device_entries := device_entries m @ [entry]\<rparr>,
            if callback' m then [(EVENT_DEVICE_ATTACHED, new_entry)] else []))"

text \<open>The first entry with the identifier, and the list without it.\<close>

fun take_entry :: "string \<Rightarrow> device_info list \<Rightarrow> (device_info \<times> device_info list) option" where
  "take_entry i [] = None"
| "take_entry i (e # es) =
     (if di_id e = i then Some (e, es)
      else case take_entry i es of None \<Rightarrow> None | Some (x, rest) \<Rightarrow> Some (x, e # rest))"

definition onDeviceDetached :: "string \<Rightarrow> device_manager \<Rightarrow> (device_manager \<times> event_log) res" where
  "onDeviceDetached i m =
     (case take_entry i (device_entries m) of
        None \<Rightarrow> Inr (m, [])
      | Some (position, rest) \<Rightarrow>
          bindR (DeviceInfo_copy position) (\<lambda>entry.
            Inr (m\<lparr>device_entries := rest\<rparr>, if callback' m then [(EVENT_DEVICE_DETACHED, entry)] else [])))"

text \<open>What notifiers tell the manager, one call after the other.\<close>

datatype discovery = Attach device_info | Detach string

fun discover_one :: "discovery \<Rightarrow> device_manager \<Rightarrow> (device_manager \<times> event_log) res" where
  "discover_one (Attach new_entry) m = onDeviceAttached new_entry m"
| "discover_one (Detach i) m = onDeviceDetached i m"

fun discover :: "discovery list \<Rightarrow> device_manager \<Rightarrow> (device_manager \<times> event_log) res" where
  "discover [] m = Inr (m, [])"
| "discover (x # xs) m =
     bindR (discover_one x m) (\<lambda>(m, log). bindR (discover xs m) (\<lambda>(m, rest). Inr (m, log @ rest)))"

section \<open>The abstract specification: a queue of descriptions for each identifier\<close>

type_synonym directory = "string \<Rightarrow> device_info list"

fun spec_one :: "discovery \<Rightarrow> directory \<Rightarrow> directory \<times> event_log" where
  "spec_one (Attach x) d = (d(di_id x := d (di_id x) @ [x]), [(EVENT_DEVICE_ATTACHED, x)])"
| "spec_one (Detach i) d =
     (case d i of [] \<Rightarrow> (d, []) | x # xs \<Rightarrow> (d(i := xs), [(EVENT_DEVICE_DETACHED, x)]))"

fun spec_run :: "discovery list \<Rightarrow> directory \<Rightarrow> directory \<times> event_log" where
  "spec_run [] d = (d, [])"
| "spec_run (x # xs) d = (case spec_one x d of (d, log) \<Rightarrow> case spec_run xs d of (d, rest) \<Rightarrow> (d, log @ rest))"

definition directory_of :: "device_info list \<Rightarrow> directory" where
  "directory_of es = (\<lambda>i. filter (\<lambda>e. di_id e = i) es)"

lemma directory_of_snoc: "directory_of (es @ [x]) = (directory_of es)(di_id x := directory_of es (di_id x) @ [x])"
  by (auto simp: directory_of_def)

lemma take_entry_None: "take_entry i es = None \<Longrightarrow> directory_of es i = []"
  by (induction es) (auto simp: directory_of_def split: if_splits option.splits)

lemma take_entry_Some:
  assumes "take_entry i es = Some (x, rest)"
  shows "\<exists>pre post. es = pre @ x # post \<and> rest = pre @ post \<and> di_id x = i \<and> (\<forall>e \<in> set pre. di_id e \<noteq> i)"
  using assms
proof (induction es arbitrary: rest)
  case (Cons e es)
  show ?case
  proof (cases "di_id e = i")
    case True
    with Cons.prems have "e # es = [] @ x # es \<and> rest = [] @ es \<and> di_id x = i \<and> (\<forall>e \<in> set []. di_id e \<noteq> i)" by simp
    then show ?thesis by blast
  next
    case False
    with Cons.prems obtain rest' where "take_entry i es = Some (x, rest')" "rest = e # rest'" by (auto split: option.splits)
    with Cons.IH [of rest'] obtain pre post where
      "es = pre @ x # post" "rest = e # pre @ post" "di_id x = i" "\<forall>e \<in> set pre. di_id e \<noteq> i" by blast
    with False show ?thesis by (intro exI [of _ "e # pre"] exI [of _ post]) simp
  qed
qed simp

lemma take_entry_directory:
  assumes "take_entry i es = Some (x, rest)"
  shows "directory_of es i = x # directory_of rest i" and "directory_of rest = (directory_of es)(i := directory_of rest i)"
    and "x \<in> set es" and "set rest \<subseteq> set es" and "mset es = add_mset x (mset rest)"
proof -
  from take_entry_Some [OF assms] obtain pre post where
    es: "es = pre @ x # post" "rest = pre @ post" "di_id x = i" and pre: "\<forall>e \<in> set pre. di_id e \<noteq> i" by blast
  have "filter (\<lambda>e. di_id e = i) pre = []" using pre by (simp add: filter_empty_conv)
  with es show "directory_of es i = x # directory_of rest i" by (simp add: directory_of_def)
  show "directory_of rest = (directory_of es)(i := directory_of rest i)" using es by (auto simp: directory_of_def)
  show "x \<in> set es" "set rest \<subseteq> set es" "mset es = add_mset x (mset rest)" using es by auto
qed

section \<open>The simulation\<close>

definition entries_located :: "device_manager \<Rightarrow> bool" where
  "entries_located m \<longleftrightarrow> (\<forall>e \<in> set (device_entries m). located e)"

fun discovery_located :: "discovery \<Rightarrow> bool" where
  "discovery_located (Attach x) = located x"
| "discovery_located (Detach i) = True"

definition seen :: "device_manager \<Rightarrow> event_log \<Rightarrow> event_log" where
  "seen m log = (if callback' m then log else [])"

lemma discover_one_simulates:
  assumes "entries_located m" and "discovery_located x"
  obtains es where "discover_one x m = Inr (m\<lparr>device_entries := es\<rparr>, seen m (snd (spec_one x (directory_of (device_entries m)))))"
    "directory_of es = fst (spec_one x (directory_of (device_entries m)))" "\<forall>e \<in> set es. located e"
proof (cases x)
  case (Attach e)
  with assms show thesis
    by (intro that [of "device_entries m @ [e]"])
      (auto simp: onDeviceAttached_def DeviceInfo_copy_located seen_def directory_of_snoc entries_located_def)
next
  case (Detach i)
  show thesis
  proof (cases "take_entry i (device_entries m)")
    case None
    then show thesis
      using Detach assms take_entry_None [OF None]
      by (intro that [of "device_entries m"]) (auto simp: onDeviceDetached_def seen_def entries_located_def)
  next
    case (Some r)
    then obtain y rest where r: "take_entry i (device_entries m) = Some (y, rest)" by (cases r) simp
    note y = take_entry_directory [OF r]
    have c: "DeviceInfo_copy y = Inr y" using y(3) assms(1) by (intro DeviceInfo_copy_located) (simp add: entries_located_def)
    show thesis
    proof (rule that [of rest])
      show "discover_one x m = Inr (m\<lparr>device_entries := rest\<rparr>, seen m (snd (spec_one x (directory_of (device_entries m)))))"
        using Detach r c y(1) by (simp add: onDeviceDetached_def seen_def)
      show "directory_of rest = fst (spec_one x (directory_of (device_entries m)))" using Detach y(1,2) by simp
      show "\<forall>e \<in> set rest. located e" using assms(1) y(4) by (auto simp: entries_located_def)
    qed
  qed
qed

lemma discover_simulates:
  assumes "entries_located m" and "\<forall>x \<in> set xs. discovery_located x"
  shows "\<exists>es. discover xs m = Inr (m\<lparr>device_entries := es\<rparr>, seen m (snd (spec_run xs (directory_of (device_entries m))))) \<and>
    directory_of es = fst (spec_run xs (directory_of (device_entries m))) \<and> (\<forall>e \<in> set es. located e)"
  using assms
proof (induction xs arbitrary: m)
  case Nil
  show ?case by (rule exI [of _ "device_entries m"]) (use Nil in \<open>simp add: seen_def entries_located_def\<close>)
next
  case (Cons x xs)
  from Cons.prems have "discovery_located x" by simp
  from discover_one_simulates [OF Cons.prems(1) this] obtain es where
    one: "discover_one x m = Inr (m\<lparr>device_entries := es\<rparr>, seen m (snd (spec_one x (directory_of (device_entries m)))))"
      "directory_of es = fst (spec_one x (directory_of (device_entries m)))" "\<forall>e \<in> set es. located e" .
  have "entries_located (m\<lparr>device_entries := es\<rparr>)" using one(3) by (simp add: entries_located_def)
  from Cons.IH [OF this] Cons.prems obtain es' where
    "discover xs (m\<lparr>device_entries := es\<rparr>) = Inr (m\<lparr>device_entries := es'\<rparr>, seen m (snd (spec_run xs (directory_of es))))"
    "directory_of es' = fst (spec_run xs (directory_of es))" "\<forall>e \<in> set es'. located e"
    by (auto simp: seen_def)
  with one show ?case
    by (intro exI [of _ es']) (simp add: seen_def split_beta)
qed

text \<open>What is in the log: the descriptions of one kind of event.\<close>

definition logged :: "device_event \<Rightarrow> event_log \<Rightarrow> device_info list" where
  "logged ev log = map snd (filter (\<lambda>e. fst e = ev) log)"

lemma logged_append [simp]: "logged ev (xs @ ys) = logged ev xs @ logged ev ys"
  by (simp add: logged_def)

lemma logged_simps [simp]:
  "logged ev [] = []" "logged ev ((ev', x) # log) = (if ev' = ev then x # logged ev log else logged ev log)"
  by (simp_all add: logged_def)

lemma discover_one_balance:
  assumes "discover_one x m = Inr (m', log)" and "callback' m" and "entries_located m" and "discovery_located x"
  shows "mset (device_entries m) + mset (logged EVENT_DEVICE_ATTACHED log) =
    mset (device_entries m') + mset (logged EVENT_DEVICE_DETACHED log)"
proof (cases x)
  case (Attach e)
  with assms show ?thesis by (auto simp: onDeviceAttached_def DeviceInfo_copy_located)
next
  case (Detach i)
  show ?thesis
  proof (cases "take_entry i (device_entries m)")
    case None
    then show ?thesis using Detach assms(1) by (simp add: onDeviceDetached_def)
  next
    case (Some r)
    then obtain y rest where r: "take_entry i (device_entries m) = Some (y, rest)" by (cases r) simp
    have "DeviceInfo_copy y = Inr y"
      using take_entry_directory(3) [OF r] assms(3) by (intro DeviceInfo_copy_located) (simp add: entries_located_def)
    then show ?thesis using Detach r assms(1,2) take_entry_directory(5) [OF r] by (auto simp: onDeviceDetached_def)
  qed
qed

lemma balance_trans:
  assumes "a + b = c + d" and "c + e = f + (g :: 'a multiset)"
  shows "a + (b + e) = f + (d + g)"
proof -
  have "a + (b + e) = (a + b) + e" by (simp only: add.assoc)
  also have "\<dots> = (c + d) + e" by (simp only: assms(1))
  also have "\<dots> = (c + e) + d" by (simp only: ac_simps)
  also have "\<dots> = (f + g) + d" by (simp only: assms(2))
  also have "\<dots> = f + (d + g)" by (simp only: ac_simps)
  finally show ?thesis .
qed

lemma discover_balance:
  assumes "discover xs m = Inr (m', log)" and "callback' m" and "entries_located m" and "\<forall>x \<in> set xs. discovery_located x"
  shows "mset (device_entries m) + mset (logged EVENT_DEVICE_ATTACHED log) =
    mset (device_entries m') + mset (logged EVENT_DEVICE_DETACHED log)"
  using assms
proof (induction xs arbitrary: m log)
  case (Cons x xs)
  from Cons.prems(1) obtain r1 r2 where "discover_one x m = Inr r1" "discover xs (fst r1) = Inr r2"
    "(m', log) = (fst r2, snd r1 @ snd r2)"
    by (cases "discover_one x m"; cases "discover xs (fst (projr (discover_one x m)))") (simp_all add: split_beta)
  then obtain m1 log1 log2 where one: "discover_one x m = Inr (m1, log1)" and rest: "discover xs m1 = Inr (m', log2)"
    and log: "log = log1 @ log2"
    by (cases r1; cases r2) simp
  have x: "discovery_located x" using Cons.prems(4) by simp
  obtain es where "discover_one x m = Inr (m\<lparr>device_entries := es\<rparr>, seen m (snd (spec_one x (directory_of (device_entries m)))))"
    and es: "\<forall>e \<in> set es. located e" by (rule discover_one_simulates [OF Cons.prems(3) x])
  with one have "m1 = m\<lparr>device_entries := es\<rparr>" by simp
  with es have "callback' m1" "entries_located m1" using Cons.prems(2) by (simp_all add: entries_located_def)
  from Cons.IH [OF rest this] Cons.prems(4)
  have "mset (device_entries m1) + mset (logged EVENT_DEVICE_ATTACHED log2) =
    mset (device_entries m') + mset (logged EVENT_DEVICE_DETACHED log2)" by simp
  from balance_trans [OF discover_one_balance [OF one Cons.prems(2,3) x] this] log show ?case by simp
qed simp

section \<open>The contract of a notifier\<close>

text \<open>
  \<open>begun\<close> is what the new thread does first; \<open>usable\<close> holds after a successful \<open>init\<close>.  Assigning to the thread object of a
  running notifier ends the process.
\<close>

locale notifier_class =
  fixes start stop :: "'a device_notifier_scheme \<Rightarrow> 'a device_notifier_scheme res"
    and begun :: "'a device_notifier_scheme \<Rightarrow> 'a device_notifier_scheme" and usable :: "'a device_notifier_scheme \<Rightarrow> bool"
  assumes start_running: "thread' n \<Longrightarrow> start n = Inl Terminate"
    and start_idle: "\<not> thread' n \<Longrightarrow> usable n \<Longrightarrow> \<exists>n'. start n = Inr n' \<and> thread' n' \<and> usable n'"
    and stop_running: "thread' n \<Longrightarrow> usable n \<Longrightarrow> \<exists>n'. stop (begun n) = Inr n' \<and> \<not> thread' n' \<and> usable n'"
begin

lemma start_all:
  assumes "\<forall>p \<in> set ps. usable (h p)"
  shows "if distinct ps \<and> (\<forall>p \<in> set ps. \<not> thread' (h p)) then
      \<exists>h'. for_each start ps h = Inr h' \<and> (\<forall>p \<in> set ps. thread' (h' p) \<and> usable (h' p)) \<and> (\<forall>p. p \<notin> set ps \<longrightarrow> h' p = h p)
    else for_each start ps h = Inl Terminate"
  using assms
proof (induction ps arbitrary: h)
  case (Cons p ps)
  show ?case
  proof (cases "thread' (h p)")
    case True
    then show ?thesis by (simp add: start_running)
  next
    case False
    with start_idle [of "h p"] Cons.prems obtain n where n: "start (h p) = Inr n" "thread' n" "usable n" by auto
    have "\<forall>q \<in> set ps. usable ((h(p := n)) q)" using Cons.prems n(3) by simp
    note IH = Cons.IH [OF this]
    show ?thesis
    proof (cases "distinct ps \<and> p \<notin> set ps \<and> (\<forall>q \<in> set ps. \<not> thread' (h q))")
      case True
      then have "distinct ps \<and> (\<forall>q \<in> set ps. \<not> thread' ((h(p := n)) q))" by auto
      with IH obtain h' where "for_each start ps (h(p := n)) = Inr h'" "\<forall>q \<in> set ps. thread' (h' q) \<and> usable (h' q)"
        "\<forall>q. q \<notin> set ps \<longrightarrow> h' q = (h(p := n)) q" by auto
      with n True False show ?thesis by auto
    next
      case clash: False
      then have "\<not> (distinct ps \<and> (\<forall>q \<in> set ps. \<not> thread' ((h(p := n)) q)))" using n(2) by auto
      with IH have "for_each start ps (h(p := n)) = Inl Terminate" by (simp only: if_False)
      with n clash False show ?thesis by auto
    qed
  qed
qed simp

lemma stop_all:
  assumes "distinct ps" and "\<forall>p \<in> set ps. \<exists>n. h p = begun n \<and> thread' n \<and> usable n"
  shows "\<exists>h'. for_each stop ps h = Inr h' \<and> (\<forall>p \<in> set ps. \<not> thread' (h' p) \<and> usable (h' p)) \<and> (\<forall>p. p \<notin> set ps \<longrightarrow> h' p = h p)"
  using assms
proof (induction ps arbitrary: h)
  case (Cons p ps)
  from Cons.prems(2) obtain n where "h p = begun n" "thread' n" "usable n" by auto
  with stop_running [of n] obtain n' where n': "stop (h p) = Inr n'" "\<not> thread' n'" "usable n'" by auto
  have rest: "\<forall>q \<in> set ps. \<exists>n. (h(p := n')) q = begun n \<and> thread' n \<and> usable n" using Cons.prems by auto
  from Cons.prems(1) have d: "distinct ps" by simp
  from Cons.IH [OF d rest] obtain h' where "for_each stop ps (h(p := n')) = Inr h'"
    "\<forall>q \<in> set ps. \<not> thread' (h' q) \<and> usable (h' q)" "\<forall>q. q \<notin> set ps \<longrightarrow> h' q = (h(p := n')) q" by blast
  with n' Cons.prems(1) show ?case by auto
qed simp

text \<open>
  \<open>startMonitoring\<close> starts every notifier, or ends the process when one is there twice or runs already; stopping then
  works and monitoring can be started again.
\<close>

lemma monitoring:
  assumes "\<forall>p \<in> set (notifiers' m). usable (h p)"
  shows "if distinct (notifiers' m) \<and> (\<forall>p \<in> set (notifiers' m). \<not> thread' (h p)) then
      \<exists>m' h' m'' h''. startMonitoring start m h = Inr (m', h') \<and> (\<forall>p \<in> set (notifiers' m). thread' (h' p)) \<and>
        stopMonitoring stop m' (\<lambda>p. if p \<in> set (notifiers' m) then begun (h' p) else h' p) = Inr (m'', h'') \<and>
        notifiers' m'' = notifiers' m \<and> device_entries m'' = device_entries m \<and> \<not> monitoring_started m'' \<and>
        (\<forall>p \<in> set (notifiers' m). \<not> thread' (h'' p) \<and> usable (h'' p))
    else startMonitoring start m h = Inl Terminate"
proof (cases "distinct (notifiers' m) \<and> (\<forall>p \<in> set (notifiers' m). \<not> thread' (h p))")
  case True
  with start_all [OF assms] obtain h' where
    s: "for_each start (notifiers' m) h = Inr h'" "\<forall>p \<in> set (notifiers' m). thread' (h' p) \<and> usable (h' p)" by auto
  let ?h = "\<lambda>p. if p \<in> set (notifiers' m) then begun (h' p) else h' p"
  have "\<forall>p \<in> set (notifiers' m). \<exists>n. ?h p = begun n \<and> thread' n \<and> usable n" using s(2) by auto
  from stop_all [OF _ this] True obtain h'' where
    "for_each stop (notifiers' m) ?h = Inr h''" "\<forall>p \<in> set (notifiers' m). \<not> thread' (h'' p) \<and> usable (h'' p)" by auto
  with s True show ?thesis by (auto simp: startMonitoring_def stopMonitoring_def)
next
  case False
  with start_all [OF assms] have "for_each start (notifiers' m) h = Inl Terminate" by (simp only: if_False)
  with False show ?thesis by (auto simp: startMonitoring_def)
qed

end

section \<open>Properties\<close>

text \<open>
  C4: The list of the manager implements a queue of descriptions for each identifier: an attached device goes to the end of
  the queue of its identifier, a detached identifier takes the oldest description out of its queue and reports
  it, or reports nothing when the queue is empty.  The events the user sees are those of the queues, in their order,
  once a callback is registered; no operation fails, and the entries can be listed afterwards.
\<close>

theorem directory_refinement:
  assumes "entries_located m" and "\<forall>x \<in> set xs. discovery_located x"
  shows "\<exists>m' log. discover xs m = Inr (m', log) \<and>
    (directory_of (device_entries m'), if callback' m then log else snd (spec_run xs (directory_of (device_entries m)))) =
      spec_run xs (directory_of (device_entries m)) \<and>
    (\<not> callback' m \<longrightarrow> log = []) \<and> deviceEntries m' = Inr (device_entries m')"
proof -
  from discover_simulates [OF assms] obtain es where
    "discover xs m = Inr (m\<lparr>device_entries := es\<rparr>, seen m (snd (spec_run xs (directory_of (device_entries m)))))"
    "directory_of es = fst (spec_run xs (directory_of (device_entries m)))" "\<forall>e \<in> set es. located e" by blast
  moreover have "mapR DeviceInfo_copy es = Inr (map id es)"
    using \<open>\<forall>e \<in> set es. located e\<close> by (intro mapR_total) (simp add: DeviceInfo_copy_located)
  ultimately show ?thesis by (simp add: seen_def deviceEntries_def prod_eq_iff)
qed

theorem directory_refinement_witness:
  "\<exists>m' log. discover [Attach (DeviceInfo ''a'' (NetworkLocation 1 2)), Attach (DeviceInfo ''a'' (NetworkLocation 3 4)), Detach ''a'']
      (registerDeviceEventCallback True DeviceManager) = Inr (m', log) \<and>
    directory_of (device_entries m') ''a'' = [DeviceInfo ''a'' (NetworkLocation 3 4)] \<and>
    log ! 2 = (EVENT_DEVICE_DETACHED, DeviceInfo ''a'' (NetworkLocation 1 2))"
  using directory_refinement [of "registerDeviceEventCallback True DeviceManager"
      "[Attach (DeviceInfo ''a'' (NetworkLocation 1 2)), Attach (DeviceInfo ''a'' (NetworkLocation 3 4)), Detach ''a'']"]
  by (auto simp: entries_located_def registerDeviceEventCallback_def DeviceManager_def directory_of_def DeviceInfo_def located_def
      keep_network_def dest: fun_cong [where x = "''a''"])



end
