(* ===== verification/Notifier_Linux.thy ===== *)
theory Notifier_Linux
  imports Device_Manager
begin

text \<open>
  \<open>NetworkDeviceNotifierLinux\<close> of src/device_notifier.cpp.  Avahi is the environment: the objects its constructors return
  (\<open>None\<close> is a null pointer) and the events it reports are arguments, and the calls the code makes are recorded in
  \<open>avahi_calls\<close>, in their order.
\<close>

section \<open>State\<close>

datatype avahi_call =
    Poll_new "nat option"
  | Client_new nat "nat option"
  | Browser_new nat "nat option"
  | Browser_free nat
  | Client_free nat
  | Poll_free nat
  | Poll_quit "nat option"
  | Resolver_new "nat option" int int string string string
  | Resolver_free nat

record linux_notifier = device_notifier +
  client' :: "nat option"
  service_browser' :: "nat option"
  simple_poll' :: "nat option"
  avahi_calls :: "avahi_call list"

definition NetworkDeviceNotifierLinux :: linux_notifier where
  "NetworkDeviceNotifierLinux = \<lparr>thread' = False, device_attach_handler = False, device_detach_handler = False,
     client' = None, service_browser' = None, simple_poll' = None, avahi_calls = []\<rparr>"

definition avahi :: "avahi_call \<Rightarrow> linux_notifier \<Rightarrow> linux_notifier" where
  "avahi c n = n\<lparr>avahi_calls := avahi_calls n @ [c]\<rparr>"

section \<open>Initialisation\<close>

text \<open>The part behind the label \<open>FAIL_CLEAN_UP\<close>.\<close>

definition clean_up :: "linux_notifier \<Rightarrow> linux_notifier" where
  "clean_up n =
     (let n = (case service_browser' n of Some b \<Rightarrow> avahi (Browser_free b) n | None \<Rightarrow> n);
          n = (case client' n of Some c \<Rightarrow> avahi (Client_free c) n | None \<Rightarrow> n)
      in case simple_poll' n of Some p \<Rightarrow> avahi (Poll_free p) n | None \<Rightarrow> n)"

definition Linux_init :: "nat option \<Rightarrow> nat option \<Rightarrow> nat option \<Rightarrow> linux_notifier \<Rightarrow> linux_notifier \<times> bool" where
  "Linux_init new_poll new_client new_browser n =
     (let n = avahi (Poll_new new_poll) n\<lparr>simple_poll' := new_poll\<rparr> in
      case simple_poll' n of
        None \<Rightarrow> (clean_up n, False)
      | Some p \<Rightarrow>
          let n = avahi (Client_new p new_client) n\<lparr>client' := new_client\<rparr> in
          case client' n of
            None \<Rightarrow> (clean_up n, False)
          | Some c \<Rightarrow>
              let n = avahi (Browser_new c new_browser) n\<lparr>service_browser' := new_browser\<rparr> in
              (case service_browser' n of None \<Rightarrow> (clean_up n, False) | Some b \<Rightarrow> (n, True)))"

section \<open>Running\<close>

definition Linux_start :: "linux_notifier \<Rightarrow> linux_notifier res" where
  "Linux_start n = (if thread' n then Inl Terminate else Inr (n\<lparr>thread' := True\<rparr>))"

text \<open>\<open>join\<close> of a thread object without a thread throws.\<close>

definition Linux_stop :: "linux_notifier \<Rightarrow> linux_notifier res" where
  "Linux_stop n =
     (let n = avahi (Poll_quit (simple_poll' n)) n in
      if thread' n then Inr (n\<lparr>thread' := False\<rparr>) else Inl (Uncaught ''system_error''))"

section \<open>Callbacks\<close>

datatype browser_event = AVAHI_BROWSER_NEW | AVAHI_BROWSER_REMOVE | Other_browser_event

datatype resolver_event = AVAHI_RESOLVER_FOUND | Other_resolver_event

definition serviceBrowserCallback ::
  "int \<Rightarrow> int \<Rightarrow> browser_event \<Rightarrow> string \<Rightarrow> string \<Rightarrow> string \<Rightarrow> linux_notifier \<Rightarrow> linux_notifier \<times> discovery list" where
  "serviceBrowserCallback interface protocol event name type domain n =
     (case event of
        AVAHI_BROWSER_NEW \<Rightarrow> (avahi (Resolver_new (client' n) interface protocol name type domain) n, [])
      | AVAHI_BROWSER_REMOVE \<Rightarrow> (n, if device_detach_handler n then [Detach name] else [])
      | Other_browser_event \<Rightarrow> (n, []))"

text \<open>
  One item of the TXT list: its bytes, which Avahi keeps with a NUL behind them.  The text ends at the first NUL, the length is
  that of the whole item.
\<close>

definition txt_pair :: "string \<Rightarrow> (string \<times> string) option" where
  "txt_pair txt =
     (let key_value_pair = c_str txt;
          position = length (takeWhile (\<lambda>c. c \<noteq> CHR ''='') key_value_pair)
      in if position = length key_value_pair then None
         else Some (take position key_value_pair, take (length txt - position) (drop (position + 1) key_value_pair)))"

fun add_txt :: "string list \<Rightarrow> device_info \<Rightarrow> device_info" where
  "add_txt [] new_entry = new_entry"
| "add_txt (txt # rest) new_entry =
     add_txt rest (case txt_pair txt of
         None \<Rightarrow> new_entry
       | Some (key, value) \<Rightarrow> new_entry\<lparr>di_metadata := (di_metadata new_entry)(key \<mapsto> value)\<rparr>)"

definition serviceResolverCallback ::
  "nat \<Rightarrow> resolver_event \<Rightarrow> string \<Rightarrow> in_addr_t \<Rightarrow> 16 word \<Rightarrow> string list \<Rightarrow> linux_notifier \<Rightarrow> linux_notifier \<times> discovery list" where
  "serviceResolverCallback r event name addr prt txt n =
     (avahi (Resolver_free r) n,
      case event of
        AVAHI_RESOLVER_FOUND \<Rightarrow>
          (let new_entry = add_txt txt (DeviceInfo name (NetworkLocation addr (htons prt)))
           in if device_attach_handler n then [Attach new_entry] else [])
      | Other_resolver_event \<Rightarrow> [])"

text \<open>The callback for the state of the client does nothing.\<close>

definition clientCallback :: "int \<Rightarrow> linux_notifier \<Rightarrow> linux_notifier" where
  "clientCallback state n = n"

text \<open>What the poll loop calls, one after the other.\<close>

datatype avahi_event =
    Browser int int browser_event string string string
  | Resolver nat resolver_event string in_addr_t "16 word" "string list"
  | Client_state int

fun avahi_callback :: "avahi_event \<Rightarrow> linux_notifier \<Rightarrow> linux_notifier \<times> discovery list" where
  "avahi_callback (Browser interface protocol event name type domain) n =
     serviceBrowserCallback interface protocol event name type domain n"
| "avahi_callback (Resolver r event name addr prt txt) n = serviceResolverCallback r event name addr prt txt n"
| "avahi_callback (Client_state state) n = (clientCallback state n, [])"

fun avahi_loop :: "avahi_event list \<Rightarrow> linux_notifier \<Rightarrow> linux_notifier \<times> discovery list" where
  "avahi_loop [] n = (n, [])"
| "avahi_loop (ev # evs) n =
     (case avahi_callback ev n of (n, ds) \<Rightarrow> case avahi_loop evs n of (n, rest) \<Rightarrow> (n, ds @ rest))"

section \<open>What is created and freed\<close>

text \<open>The objects that exist after a list of calls; \<open>None\<close> when one is freed that does not exist.\<close>

fun objects :: "avahi_call list \<Rightarrow> nat set \<Rightarrow> nat set option" where
  "objects [] live = Some live"
| "objects (Poll_new (Some p) # cs) live = objects cs (insert p live)"
| "objects (Client_new p (Some c) # cs) live = objects cs (insert c live)"
| "objects (Browser_new c (Some b) # cs) live = objects cs (insert b live)"
| "objects (Browser_free b # cs) live = (if b \<in> live then objects cs (live - {b}) else None)"
| "objects (Client_free c # cs) live = (if c \<in> live then objects cs (live - {c}) else None)"
| "objects (Poll_free p # cs) live = (if p \<in> live then objects cs (live - {p}) else None)"
| "objects (c # cs) live = objects cs live"

lemma avahi_simps [simp]:
  "avahi_calls (avahi c n) = avahi_calls n @ [c]" "client' (avahi c n) = client' n"
  "service_browser' (avahi c n) = service_browser' n" "simple_poll' (avahi c n) = simple_poll' n"
  "thread' (avahi c n) = thread' n" "device_attach_handler (avahi c n) = device_attach_handler n"
  "device_detach_handler (avahi c n) = device_detach_handler n"
  by (simp_all add: avahi_def)

interpretation linux: notifier_class Linux_start Linux_stop "\<lambda>n. n" "\<lambda>n. simple_poll' n \<noteq> None"
  by unfold_locales (auto simp: Linux_start_def Linux_stop_def Let_def)

section \<open>TXT records\<close>

lemma txt_pair_plain:
  assumes "CHR ''='' \<notin> set k" and "CHR 0x00 \<notin> set k" and "CHR 0x00 \<notin> set v"
  shows "txt_pair (k @ CHR ''='' # v) = Some (k, v)"
proof -
  have "c_str (k @ CHR ''='' # v) = k @ CHR ''='' # v" using assms by (intro c_str_id) auto
  moreover have "takeWhile (\<lambda>c. c \<noteq> CHR ''='') (k @ CHR ''='' # v) = k"
    using assms(1) by (subst takeWhile_append2) auto
  ultimately show ?thesis by (simp add: txt_pair_def)
qed

lemma add_txt_base [simp]: "di_id (add_txt items e) = di_id e" "di_location (add_txt items e) = di_location e"
  by (induction items arbitrary: e) (auto split: option.splits)

lemma add_txt_plain:
  assumes "\<forall>(k, v) \<in> set kvs. CHR ''='' \<notin> set k \<and> CHR 0x00 \<notin> set k \<and> CHR 0x00 \<notin> set v"
  shows "add_txt (map (\<lambda>(k, v). k @ CHR ''='' # v) kvs) e = e\<lparr>di_metadata := di_metadata e ++ map_of (rev kvs)\<rparr>"
  using assms by (induction kvs arbitrary: e) (auto simp: txt_pair_plain map_add_def fun_eq_iff split: option.split)

lemma avahi_callback_located: "x \<in> set (snd (avahi_callback ev n)) \<Longrightarrow> discovery_located x"
  by (cases ev)
    (auto simp: serviceBrowserCallback_def serviceResolverCallback_def located_def DeviceInfo_def keep_network_def Let_def
      split: browser_event.splits resolver_event.splits if_splits)

lemma avahi_loop_located: "\<forall>x \<in> set (snd (avahi_loop evs n)). discovery_located x"
  by (induction evs arbitrary: n) (auto simp: split_beta dest: avahi_callback_located)

section \<open>Properties\<close>

text \<open>
  C29: Whatever Avahi reports to the notifier, every device it tells the manager has a network location: the manager never
  fails on it, and its entries, all of them with a location, can be listed.
\<close>

theorem linux_devices_located:
  assumes "entries_located m"
  shows "\<exists>m' log. discover (snd (avahi_loop evs n)) m = Inr (m', log) \<and> entries_located m' \<and>
    deviceEntries m' = Inr (device_entries m')"
proof -
  from discover_simulates [OF assms avahi_loop_located] obtain es where
    "discover (snd (avahi_loop evs n)) m =
      Inr (m\<lparr>device_entries := es\<rparr>, seen m (snd (spec_run (snd (avahi_loop evs n)) (directory_of (device_entries m)))))"
    and es: "\<forall>e \<in> set es. located e" by blast
  moreover have "mapR DeviceInfo_copy es = Inr (map id es)" using es by (intro mapR_total) (simp add: DeviceInfo_copy_located)
  ultimately show ?thesis using es by (simp add: entries_located_def deviceEntries_def)
qed

theorem linux_devices_located_witness:
  "\<exists>m' log. discover (snd (avahi_loop [Resolver 0 AVAHI_RESOLVER_FOUND ''a'' 1 2 []]
      (NetworkDeviceNotifierLinux\<lparr>device_attach_handler := True\<rparr>))) DeviceManager = Inr (m', log) \<and> entries_located m'"
  using linux_devices_located [of DeviceManager "[Resolver 0 AVAHI_RESOLVER_FOUND ''a'' 1 2 []]"
      "NetworkDeviceNotifierLinux\<lparr>device_attach_handler := True\<rparr>"]
  by (auto simp: entries_located_def DeviceManager_def)

text \<open>
  C35: A service that is found becomes a device with the service's name, its address and its port in network byte order, and
  the pairs of its TXT record, of which the last one with a key counts; the resolver is freed.
\<close>

theorem resolved_device:
  assumes "\<forall>(k, v) \<in> set kvs. CHR ''='' \<notin> set k \<and> CHR 0x00 \<notin> set k \<and> CHR 0x00 \<notin> set v" and "device_attach_handler n"
  shows "serviceResolverCallback r AVAHI_RESOLVER_FOUND name addr prt (map (\<lambda>(k, v). k @ CHR ''='' # v) kvs) n =
    (n\<lparr>avahi_calls := avahi_calls n @ [Resolver_free r]\<rparr>,
     [Attach \<lparr>di_id = name, di_location = Some (NetworkLocation addr (htons prt)), di_metadata = map_of (rev kvs)\<rparr>])"
  using assms(2)
  by (simp add: serviceResolverCallback_def add_txt_plain [OF assms(1)] avahi_def DeviceInfo_def keep_network_def)

theorem resolved_device_witness:
  "snd (serviceResolverCallback 7 AVAHI_RESOLVER_FOUND ''lidar'' 0x0100007F 2105 [''model=LTME'', ''model=02A'']
      (NetworkDeviceNotifierLinux\<lparr>device_attach_handler := True\<rparr>)) =
    [Attach \<lparr>di_id = ''lidar'', di_location = Some (NetworkLocation 0x0100007F (htons 2105)),
       di_metadata = map_of [(''model'', ''02A''), (''model'', ''LTME'')]\<rparr>]"
  using resolved_device [where kvs = "[(''model'', ''LTME''), (''model'', ''02A'')]" and r = 7 and name = "''lidar''"
      and n = "NetworkDeviceNotifierLinux\<lparr>device_attach_handler := True\<rparr>" and addr = "0x0100007F" and prt = 2105] by simp

text \<open>
  C38: \<open>init\<close> of a new notifier succeeds exactly when Avahi gives all three objects; they are kept then, and when one cannot be
  created the others are freed, each of them once.
\<close>

theorem init_outcome:
  assumes "distinct (concat (map (\<lambda>x. case x of Some i \<Rightarrow> [i] | None \<Rightarrow> []) [new_poll, new_client, new_browser]))"
    and "Linux_init new_poll new_client new_browser NetworkDeviceNotifierLinux = (n, ok)"
  shows "(ok \<longleftrightarrow> new_poll \<noteq> None \<and> new_client \<noteq> None \<and> new_browser \<noteq> None) \<and>
    objects (avahi_calls n) {} = Some (if ok then {the new_poll, the new_client, the new_browser} else {}) \<and>
    (ok \<longrightarrow> simple_poll' n = new_poll \<and> client' n = new_client \<and> service_browser' n = new_browser)"
  using assms
  by (auto simp: Linux_init_def NetworkDeviceNotifierLinux_def clean_up_def avahi_def Let_def split: option.splits)

theorem init_outcome_witness:
  "\<exists>n. Linux_init (Some 1) (Some 2) None NetworkDeviceNotifierLinux = (n, False) \<and> objects (avahi_calls n) {} = Some {}"
proof -
  obtain n ok where n: "Linux_init (Some 1) (Some 2) None NetworkDeviceNotifierLinux = (n, ok)"
    by (cases "Linux_init (Some 1) (Some 2) None NetworkDeviceNotifierLinux")
  from init_outcome [OF _ n] n show ?thesis by simp
qed

text \<open>
  A failed \<open>init\<close> leaves the pointers to the freed objects in the notifier: when it is called again and fails at once,
  they are freed a second time.
\<close>

lemma failed_init_double_free:
  "\<exists>n1 n2. Linux_init (Some 1) (Some 2) None NetworkDeviceNotifierLinux = (n1, False) \<and>
    Linux_init None None None n1 = (n2, False) \<and> objects (avahi_calls n1) {} = Some {} \<and> objects (avahi_calls n2) {} = None"
  by (simp add: Linux_init_def NetworkDeviceNotifierLinux_def clean_up_def avahi_def Let_def)

text \<open>
  C37: Monitoring with initialised notifiers: \<open>startMonitoring\<close> starts each of them and \<open>stopMonitoring\<close> joins each of
  them again, so that it can be repeated; but starting while one is running, or when one was added twice, ends the
  process.
\<close>

theorem linux_monitoring:
  assumes "\<forall>p \<in> set (notifiers' m). simple_poll' (h p) \<noteq> None"
  shows "if distinct (notifiers' m) \<and> (\<forall>p \<in> set (notifiers' m). \<not> thread' (h p)) then
      \<exists>m' h' m'' h''. startMonitoring Linux_start m h = Inr (m', h') \<and> (\<forall>p \<in> set (notifiers' m). thread' (h' p)) \<and>
        stopMonitoring Linux_stop m' h' = Inr (m'', h'') \<and> notifiers' m'' = notifiers' m \<and>
        device_entries m'' = device_entries m \<and> \<not> monitoring_started m'' \<and>
        (\<forall>p \<in> set (notifiers' m). \<not> thread' (h'' p) \<and> simple_poll' (h'' p) \<noteq> None)
    else startMonitoring Linux_start m h = Inl Terminate"
  using linux.monitoring [OF assms] by (simp only: if_cancel)

theorem linux_monitoring_witness:
  "startMonitoring Linux_start (DeviceManager\<lparr>notifiers' := [0, 0]\<rparr>)
    (\<lambda>p. NetworkDeviceNotifierLinux\<lparr>simple_poll' := Some 1\<rparr>) = Inl Terminate"
  using linux_monitoring [of "DeviceManager\<lparr>notifiers' := [0, 0]\<rparr>" "\<lambda>p. NetworkDeviceNotifierLinux\<lparr>simple_poll' := Some 1\<rparr>"]
  by simp

text \<open>
  A notifier that is added while monitoring runs is not started, and \<open>stopMonitoring\<close> then ends with an exception, with
  the monitoring still marked as started.
\<close>

lemma late_notifier_stop_throws:
  assumes "monitoring_started m" and "Linux_init new_poll new_client new_browser (h p) = (n, True)" and "\<not> thread' (h p)"
    and "\<forall>q \<in> set (notifiers' m). thread' (h q)" and "distinct (notifiers' m)" and "p \<notin> set (notifiers' m)"
  shows "\<exists>m' h'. addDeviceNotifier (Linux_init new_poll new_client new_browser) p m h = (m', h', True) \<and>
    stopMonitoring Linux_stop m' h' = Inl (Uncaught ''system_error'')"
proof -
  let ?n = "n\<lparr>device_attach_handler := True, device_detach_handler := True\<rparr>"
  have "thread' n = thread' (h p)"
    using assms(2) by (auto simp: Linux_init_def clean_up_def Let_def split: option.splits)
  then have idle: "\<not> thread' ?n" using assms(3) by simp
  have "for_each Linux_stop (ps @ [p]) k = Inl (Uncaught ''system_error'')"
    if "\<forall>q \<in> set ps. thread' (k q)" "distinct ps" "p \<notin> set ps" "\<not> thread' (k p)" for ps k
    using that by (induction ps arbitrary: k) (auto simp: Linux_stop_def Let_def)
  moreover have "\<forall>q \<in> set (notifiers' m). thread' ((h(p := ?n)) q)" using assms(4,6) by auto
  ultimately have "for_each Linux_stop (notifiers' m @ [p]) (h(p := ?n)) = Inl (Uncaught ''system_error'')"
    using assms(5,6) idle by simp
  then show ?thesis using assms(1,2) by (simp add: addDeviceNotifier_def stopMonitoring_def)
qed

lemma late_notifier_stop_throws_example:
  "\<exists>m' h'. addDeviceNotifier (Linux_init (Some 1) (Some 2) (Some 3)) 0 (DeviceManager\<lparr>monitoring_started := True\<rparr>)
      (\<lambda>p. NetworkDeviceNotifierLinux) = (m', h', True) \<and> stopMonitoring Linux_stop m' h' = Inl (Uncaught ''system_error'')"
proof -
  obtain n where n: "Linux_init (Some 1) (Some 2) (Some 3) NetworkDeviceNotifierLinux = (n, True)"
    by (simp add: Linux_init_def Let_def)
  have idle: "\<not> thread' NetworkDeviceNotifierLinux" by (simp add: NetworkDeviceNotifierLinux_def)
  show ?thesis
    by (rule late_notifier_stop_throws [OF _ n idle]) (simp_all add: DeviceManager_def)
qed

text \<open>
  A device that disappears before it is resolved stays in the list of the manager: its removal finds no entry, and the
  resolver's answer then adds it.
\<close>

lemma late_resolution_stays:
  assumes "device_attach_handler n" and "device_detach_handler n"
  shows "\<exists>m' log. discover (snd (avahi_loop [Browser i pr AVAHI_BROWSER_NEW name type domain,
      Browser i pr AVAHI_BROWSER_REMOVE name type domain, Resolver r AVAHI_RESOLVER_FOUND name addr prt []] n)) DeviceManager =
        Inr (m', log) \<and>
    device_entries m' = [DeviceInfo name (NetworkLocation addr (htons prt))]"
  using assms
  by (simp add: serviceBrowserCallback_def serviceResolverCallback_def onDeviceDetached_def onDeviceAttached_def
      DeviceInfo_copy_located DeviceManager_def)

lemma late_resolution_stays_example:
  "\<exists>m' log. discover (snd (avahi_loop [Browser 1 0 AVAHI_BROWSER_NEW ''a'' ''t'' ''local'',
      Browser 1 0 AVAHI_BROWSER_REMOVE ''a'' ''t'' ''local'', Resolver 9 AVAHI_RESOLVER_FOUND ''a'' 1 2 []]
      (NetworkDeviceNotifierLinux\<lparr>device_attach_handler := True, device_detach_handler := True\<rparr>))) DeviceManager = Inr (m', log) \<and>
    device_entries m' = [DeviceInfo ''a'' (NetworkLocation 1 (htons 2))]"
  by (rule late_resolution_stays) simp_all

end
