(* ===== verification/Notifier_Windows.thy ===== *)
theory Notifier_Windows
  imports Device_Manager
begin

text \<open>
  \<open>NetworkDeviceNotifierWindows\<close> of src/device_notifier.cpp.  The DNS-SD library is the environment: the requests it
  creates (\<open>Some\<close> reference, or \<open>None\<close> for an error code), the socket of a request (\<open>sockfd\<close>), the replies it delivers when a
  request is processed and its decoding of TXT records (\<open>txt_items\<close>) are arguments.  \<open>read_set\<close> is the array of an \<open>FD_SET\<close>,
  which holds at most \<open>FD_SETSIZE\<close> sockets.
\<close>

section \<open>State\<close>

record mDNSRecord =
  service_name :: string
  host_name :: string
  record_port :: int
  txt_record :: string

record windows_notifier = device_notifier +
  active_flag :: bool
  pending_requests :: "nat list"
  read_set :: "nat list"
  mdns_records :: "mDNSRecord list"

definition NetworkDeviceNotifierWindows :: windows_notifier where
  "NetworkDeviceNotifierWindows = \<lparr>thread' = False, device_attach_handler = False, device_detach_handler = False,
     active_flag = False, pending_requests = [], read_set = [], mdns_records = []\<rparr>"

text \<open>The macros \<open>FD_SET\<close> and \<open>FD_CLR\<close> of Winsock.\<close>

definition FD_SETSIZE :: nat where
  "FD_SETSIZE = 64"

definition FD_SET :: "nat \<Rightarrow> nat list \<Rightarrow> nat list" where
  "FD_SET fd s = (if fd \<in> set s then s else if length s < FD_SETSIZE then s @ [fd] else s)"

definition FD_CLR :: "nat \<Rightarrow> nat list \<Rightarrow> nat list" where
  "FD_CLR fd s = remove1 fd s"

type_synonym sockfd = "nat \<Rightarrow> nat"

definition add_request :: "sockfd \<Rightarrow> nat option \<Rightarrow> windows_notifier \<Rightarrow> windows_notifier" where
  "add_request sockfd request n =
     (case request of
        None \<Rightarrow> n
      | Some r \<Rightarrow> n\<lparr>pending_requests := r # pending_requests n, read_set := FD_SET (sockfd r) (read_set n)\<rparr>)"

definition finish_request :: "sockfd \<Rightarrow> bool \<Rightarrow> nat \<Rightarrow> windows_notifier \<Rightarrow> windows_notifier" where
  "finish_request sockfd more_coming sdRef n =
     (if more_coming then n
      else n\<lparr>pending_requests := filter (\<lambda>r. r \<noteq> sdRef) (pending_requests n), read_set := FD_CLR (sockfd sdRef) (read_set n)\<rparr>)"

section \<open>Initialisation and running\<close>

definition Windows_init :: "sockfd \<Rightarrow> nat option \<Rightarrow> windows_notifier \<Rightarrow> windows_notifier \<times> bool" where
  "Windows_init sockfd request n =
     (case request of
        None \<Rightarrow> (n, False)
      | Some r \<Rightarrow> (n\<lparr>pending_requests := [r], read_set := FD_SET (sockfd r) []\<rparr>, True))"

definition Windows_start :: "windows_notifier \<Rightarrow> windows_notifier res" where
  "Windows_start n = (if thread' n then Inl Terminate else Inr (n\<lparr>thread' := True\<rparr>))"

text \<open>The first thing the new thread does.\<close>

definition thread_begins :: "windows_notifier \<Rightarrow> windows_notifier" where
  "thread_begins n = n\<lparr>active_flag := True\<rparr>"

definition Windows_stop :: "windows_notifier \<Rightarrow> windows_notifier res" where
  "Windows_stop n =
     (if active_flag n then
        if thread' n then Inr (n\<lparr>active_flag := False, thread' := False\<rparr>) else Inl (Uncaught ''system_error'')
      else Inr n)"

section \<open>Callbacks\<close>

definition serviceBrowseCallback ::
  "sockfd \<Rightarrow> bool \<Rightarrow> string \<Rightarrow> nat option \<Rightarrow> windows_notifier \<Rightarrow> windows_notifier \<times> discovery list" where
  "serviceBrowseCallback sockfd add serviceName resolve_request n =
     (if add then (add_request sockfd resolve_request n, [])
      else (n, if device_detach_handler n then [Detach serviceName] else []))"

text \<open>The identifier is the text before the first dot of the full name, which has to have one.\<close>

definition serviceResolveCallback ::
  "sockfd \<Rightarrow> bool \<Rightarrow> string \<Rightarrow> string \<Rightarrow> 16 word \<Rightarrow> string \<Rightarrow> nat option \<Rightarrow> nat \<Rightarrow> windows_notifier \<Rightarrow> windows_notifier res" where
  "serviceResolveCallback sockfd more_coming fullname hosttarget prt txtRecord addr_request sdRef n =
     bindR (case addr_request of
         None \<Rightarrow> Inr n
       | Some r \<Rightarrow>
           if CHR ''.'' \<notin> set fullname then Inl (Uncaught ''length_error'')
           else Inr (add_request sockfd (Some r) (n\<lparr>mdns_records := mdns_records n @
             [\<lparr>service_name = takeWhile (\<lambda>c. c \<noteq> CHR ''.'') fullname, host_name = hosttarget, record_port = uint prt,
               txt_record = txtRecord\<rparr>]\<rparr>)))
       (\<lambda>n. Inr (finish_request sockfd more_coming sdRef n))"

text \<open>The items of a TXT record in the order of their indices; \<open>None\<close> where the library reports an error.\<close>

type_synonym txt_items = "string \<Rightarrow> (string \<times> string) option list"

fun add_items :: "(string \<times> string) option list \<Rightarrow> device_info \<Rightarrow> device_info" where
  "add_items [] new_entry = new_entry"
| "add_items (None # rest) new_entry = add_items rest new_entry"
| "add_items (Some (key, value) # rest) new_entry =
     add_items rest (if 0 < length value then new_entry\<lparr>di_metadata := (di_metadata new_entry)(key \<mapsto> value)\<rparr> else new_entry)"

fun take_record :: "string \<Rightarrow> mDNSRecord list \<Rightarrow> (mDNSRecord \<times> mDNSRecord list) option" where
  "take_record hostname [] = None"
| "take_record hostname (x # xs) =
     (if host_name x = hostname then Some (x, xs)
      else case take_record hostname xs of None \<Rightarrow> None | Some (y, rest) \<Rightarrow> Some (y, x # rest))"

definition serviceGetAddrInfoCallback ::
  "sockfd \<Rightarrow> txt_items \<Rightarrow> bool \<Rightarrow> string \<Rightarrow> in_addr_t \<Rightarrow> nat \<Rightarrow> windows_notifier \<Rightarrow> windows_notifier \<times> discovery list" where
  "serviceGetAddrInfoCallback sockfd txt_items more_coming hostname addr sdRef n =
     (case take_record hostname (mdns_records n) of
        None \<Rightarrow> (finish_request sockfd more_coming sdRef n, [])
      | Some (x, rest) \<Rightarrow>
          let new_entry = add_items (txt_items (txt_record x))
                (DeviceInfo (service_name x) (NetworkLocation addr (word_of_int (record_port x))))
          in (finish_request sockfd more_coming sdRef (n\<lparr>mdns_records := rest\<rparr>),
              if device_attach_handler n then [Attach new_entry] else []))"

section \<open>The loop\<close>

text \<open>A reply to a request, with the requests the callback gets from the library.\<close>

datatype dns_reply =
    Browse_reply bool string "nat option"
  | Resolve_reply bool string string "16 word" string "nat option"
  | Addr_reply bool string in_addr_t

fun reply_callback :: "sockfd \<Rightarrow> txt_items \<Rightarrow> nat \<Rightarrow> dns_reply \<Rightarrow> windows_notifier \<Rightarrow> (windows_notifier \<times> discovery list) res" where
  "reply_callback sockfd txt_items sdRef (Browse_reply add serviceName request) n =
     Inr (serviceBrowseCallback sockfd add serviceName request n)"
| "reply_callback sockfd txt_items sdRef (Resolve_reply more_coming fullname hosttarget prt txtRecord request) n =
     bindR (serviceResolveCallback sockfd more_coming fullname hosttarget prt txtRecord request sdRef n) (\<lambda>n. Inr (n, []))"
| "reply_callback sockfd txt_items sdRef (Addr_reply more_coming hostname addr) n =
     Inr (serviceGetAddrInfoCallback sockfd txt_items more_coming hostname addr sdRef n)"

fun process_result :: "sockfd \<Rightarrow> txt_items \<Rightarrow> nat \<Rightarrow> dns_reply list \<Rightarrow> windows_notifier \<Rightarrow> (windows_notifier \<times> discovery list) res" where
  "process_result sockfd txt_items sdRef [] n = Inr (n, [])"
| "process_result sockfd txt_items sdRef (reply # replies) n =
     bindR (reply_callback sockfd txt_items sdRef reply n) (\<lambda>(n, ds).
     bindR (process_result sockfd txt_items sdRef replies n) (\<lambda>(n, rest). Inr (n, ds @ rest)))"

text \<open>
  One pass over the pending requests after \<open>select\<close>; the list is what the iterator has before it.  The iterator is advanced
  before a request is processed; it dangles when the request it is at was erased meanwhile.
\<close>

fun visit_requests ::
  "sockfd \<Rightarrow> txt_items \<Rightarrow> nat list \<Rightarrow> (nat \<Rightarrow> dns_reply list) \<Rightarrow> nat list \<Rightarrow> windows_notifier \<Rightarrow>
    (windows_notifier \<times> discovery list) res" where
  "visit_requests sockfd txt_items readable replies [] n = Inr (n, [])"
| "visit_requests sockfd txt_items readable replies (r # rs) n =
     bindR (if sockfd r \<in> set readable then process_result sockfd txt_items r (replies r) n else Inr (n, [])) (\<lambda>(n, ds).
       if rs \<noteq> [] \<and> hd rs \<notin> set (pending_requests n) then Inl Dangling
       else bindR (visit_requests sockfd txt_items readable replies rs n) (\<lambda>(n, rest). Inr (n, ds @ rest)))"

text \<open>\<open>readable\<close> is what \<open>select\<close> leaves of the copy of the set.\<close>

definition loop_pass ::
  "sockfd \<Rightarrow> txt_items \<Rightarrow> nat list \<Rightarrow> (nat \<Rightarrow> dns_reply list) \<Rightarrow> windows_notifier \<Rightarrow> (windows_notifier \<times> discovery list) res" where
  "loop_pass sockfd txt_items ready replies n =
     (let readable = filter (\<lambda>fd. fd \<in> set ready) (read_set n)
      in if 0 < length readable then visit_requests sockfd txt_items readable replies (pending_requests n) n
         else Inr (n, []))"

text \<open>
  The body of the thread behind its first statement: rounds of \<open>while (active_flag_)\<close>.  A round has what \<open>select\<close> reports, the replies,
  and whether \<open>stop()\<close> clears the flag during it.  The flag of the result says that the loop has ended; otherwise it would go
  on after the given rounds.
\<close>

type_synonym round = "bool \<times> nat list \<times> (nat \<Rightarrow> dns_reply list)"

fun thread_loop ::
  "sockfd \<Rightarrow> txt_items \<Rightarrow> round list \<Rightarrow> windows_notifier \<Rightarrow> (windows_notifier \<times> discovery list \<times> bool) res" where
  "thread_loop sockfd txt_items [] n = Inr (n, [], \<not> active_flag n)"
| "thread_loop sockfd txt_items ((stopped, ready, replies) # rounds) n =
     (if \<not> active_flag n then Inr (n, [], True)
      else bindR (loop_pass sockfd txt_items ready replies n) (\<lambda>(n, ds).
        bindR (thread_loop sockfd txt_items rounds (if stopped then n\<lparr>active_flag := False\<rparr> else n)) (\<lambda>(n, rest, ended).
          Inr (n, ds @ rest, ended))))"

interpretation windows: notifier_class Windows_start Windows_stop thread_begins "\<lambda>n. pending_requests n \<noteq> []"
  by unfold_locales (auto simp: Windows_start_def Windows_stop_def thread_begins_def)

section \<open>Every pending request is watched\<close>

definition watching :: "sockfd \<Rightarrow> windows_notifier \<Rightarrow> bool" where
  "watching sockfd n \<longleftrightarrow> distinct (pending_requests n) \<and> distinct (read_set n) \<and>
     set (read_set n) = sockfd ` set (pending_requests n) \<and> length (pending_requests n) \<le> FD_SETSIZE"

text \<open>The requests a reply makes the code create.\<close>

fun new_requests :: "dns_reply \<Rightarrow> nat list" where
  "new_requests (Browse_reply add serviceName request) =
     (if add then case request of Some r \<Rightarrow> [r] | None \<Rightarrow> [] else [])"
| "new_requests (Resolve_reply more_coming fullname hosttarget prt txtRecord request) =
     (case request of Some r \<Rightarrow> [r] | None \<Rightarrow> [])"
| "new_requests (Addr_reply more_coming hostname addr) = []"

fun named_reply :: "dns_reply \<Rightarrow> bool" where
  "named_reply (Resolve_reply more_coming fullname hosttarget prt txtRecord request) \<longleftrightarrow> CHR ''.'' \<in> set fullname"
| "named_reply reply \<longleftrightarrow> True"

lemma watching_cong:
  "pending_requests n' = pending_requests n \<Longrightarrow> read_set n' = read_set n \<Longrightarrow> watching sockfd n' \<longleftrightarrow> watching sockfd n"
  by (simp add: watching_def)

lemma watching_length: "inj sockfd \<Longrightarrow> watching sockfd n \<Longrightarrow> length (read_set n) = length (pending_requests n)"
  by (metis watching_def distinct_card card_image inj_on_subset subset_UNIV)

lemma watching_add:
  assumes "inj sockfd" and "watching sockfd n" and "r \<notin> set (pending_requests n)" and "length (pending_requests n) < FD_SETSIZE"
  shows "watching sockfd (add_request sockfd (Some r) n)"
proof -
  have "sockfd r \<notin> set (read_set n)" using assms(1-3) by (auto simp: watching_def dest: injD)
  then show ?thesis
    using assms(2-4) watching_length [OF assms(1,2)] by (simp add: watching_def add_request_def FD_SET_def)
qed

lemma watching_finish:
  assumes "inj sockfd" and "watching sockfd n"
  shows "watching sockfd (finish_request sockfd more_coming r n)"
proof -
  have "sockfd ` {x \<in> set (pending_requests n). x \<noteq> r} = sockfd ` set (pending_requests n) - {sockfd r}"
    using assms(1) by (auto dest: injD)
  moreover have "length (filter (\<lambda>x. x \<noteq> r) (pending_requests n)) \<le> FD_SETSIZE"
    using assms(2) by (intro order_trans [OF length_filter_le]) (simp add: watching_def)
  ultimately show ?thesis using assms(2) by (simp add: watching_def finish_request_def FD_CLR_def)
qed

text \<open>A reply to \<open>r\<close> adds its new requests and removes no other request than \<open>r\<close>.\<close>

definition step_ok :: "sockfd \<Rightarrow> nat \<Rightarrow> nat list \<Rightarrow> windows_notifier \<Rightarrow> windows_notifier \<Rightarrow> bool" where
  "step_ok sockfd r news n n' \<longleftrightarrow> watching sockfd n' \<and> set (pending_requests n) - {r} \<subseteq> set (pending_requests n') \<and>
     set (pending_requests n') \<subseteq> set (pending_requests n) \<union> set news \<and>
     length (pending_requests n') \<le> length (pending_requests n) + length news"

lemma step_ok_finish:
  assumes "inj sockfd" and "step_ok sockfd r news n n'"
  shows "step_ok sockfd r news n (finish_request sockfd more_coming r n')"
proof -
  have "length (filter (\<lambda>x. x \<noteq> r) (pending_requests n')) \<le> length (pending_requests n) + length news"
    using assms(2) by (intro order_trans [OF length_filter_le]) (simp add: step_ok_def)
  then show ?thesis
    using assms(2) watching_finish [OF assms(1), of n' more_coming r] by (auto simp: step_ok_def finish_request_def)
qed

lemma step_ok_add:
  assumes "inj sockfd" and "watching sockfd n" and "distinct (pending_requests n @ [q])"
    and "length (pending_requests n @ [q]) \<le> FD_SETSIZE"
  shows "step_ok sockfd r [q] n (add_request sockfd (Some q) n)"
  using watching_add [OF assms(1,2), of q] assms(3,4) by (auto simp: step_ok_def add_request_def)

lemma step_ok_refl: "watching sockfd n \<Longrightarrow> step_ok sockfd r [] n n"
  by (auto simp: step_ok_def)

lemma step_ok_cong:
  "pending_requests m = pending_requests n \<Longrightarrow> step_ok sockfd r news m n' \<longleftrightarrow> step_ok sockfd r news n n'"
  by (simp add: step_ok_def)

lemma step_ok_trans:
  assumes "step_ok sockfd r xs n n'" and "step_ok sockfd r ys n' n''"
  shows "step_ok sockfd r (xs @ ys) n n''"
  using assms by (auto simp: step_ok_def)

lemma reply_callback_ok:
  assumes "inj sockfd" and "watching sockfd n" and "named_reply reply"
    and "distinct (pending_requests n @ new_requests reply)" and "length (pending_requests n @ new_requests reply) \<le> FD_SETSIZE"
  shows "\<exists>n' ds. reply_callback sockfd txt_items r reply n = Inr (n', ds) \<and> step_ok sockfd r (new_requests reply) n n'"
proof (cases reply)
  case (Browse_reply add serviceName request)
  show ?thesis
  proof (cases "add \<and> request \<noteq> None")
    case True
    then obtain q where "add" "request = Some q" by auto
    with step_ok_add [OF assms(1,2), where q = q] assms(4,5) Browse_reply show ?thesis by (simp add: serviceBrowseCallback_def)
  next
    case False
    then show ?thesis
      using Browse_reply step_ok_refl [OF assms(2)] by (auto simp: serviceBrowseCallback_def add_request_def)
  qed
next
  case (Resolve_reply more_coming fullname hosttarget prt txtRecord request)
  show ?thesis
  proof (cases request)
    case None
    then show ?thesis
      using Resolve_reply step_ok_finish [OF assms(1) step_ok_refl [OF assms(2)]] by (simp add: serviceResolveCallback_def)
  next
    case (Some q)
    let ?n = "n\<lparr>mdns_records := mdns_records n @ [\<lparr>service_name = takeWhile (\<lambda>c. c \<noteq> CHR ''.'') fullname,
      host_name = hosttarget, record_port = uint prt, txt_record = txtRecord\<rparr>]\<rparr>"
    have "watching sockfd ?n" using assms(2) by (simp add: watching_def)
    from step_ok_add [OF assms(1) this, of q r] assms(4,5) Resolve_reply Some
    have "step_ok sockfd r [q] ?n (add_request sockfd (Some q) ?n)" by simp
    then have "step_ok sockfd r [q] n (add_request sockfd (Some q) ?n)" by (simp add: step_ok_def)
    from step_ok_finish [OF assms(1) this, of more_coming] show ?thesis
      using Resolve_reply Some assms(3) by (simp add: serviceResolveCallback_def)
  qed
next
  case (Addr_reply more_coming hostname addr)
  have "step_ok sockfd r [] n (n\<lparr>mdns_records := rest\<rparr>)" for rest using assms(2) by (auto simp: step_ok_def watching_def)
  with step_ok_refl [OF assms(2)] show ?thesis
    using Addr_reply step_ok_finish [OF assms(1)]
    by (auto simp: serviceGetAddrInfoCallback_def Let_def split: option.split)
qed

lemma distinct_consume: "distinct (xs @ as @ bs) \<Longrightarrow> distinct ys \<Longrightarrow> set ys \<subseteq> set xs \<union> set as \<Longrightarrow> distinct (ys @ bs)"
  by auto

lemma process_result_ok:
  assumes "inj sockfd" and "watching sockfd n" and "\<forall>reply \<in> set replies. named_reply reply"
    and "distinct (pending_requests n @ concat (map new_requests replies))"
    and "length (pending_requests n @ concat (map new_requests replies)) \<le> FD_SETSIZE"
  shows "\<exists>n' ds. process_result sockfd txt_items r replies n = Inr (n', ds) \<and>
    step_ok sockfd r (concat (map new_requests replies)) n n'"
  using assms(2-)
proof (induction replies arbitrary: n)
  case Nil
  then show ?case by (simp add: step_ok_refl)
next
  case (Cons reply replies)
  have "named_reply reply" "distinct (pending_requests n @ new_requests reply)"
    "length (pending_requests n @ new_requests reply) \<le> FD_SETSIZE" using Cons.prems(2-4) by auto
  from reply_callback_ok [OF assms(1) Cons.prems(1) this] obtain n1 ds where
    one: "reply_callback sockfd txt_items r reply n = Inr (n1, ds)" "step_ok sockfd r (new_requests reply) n n1" by blast
  then have n1: "watching sockfd n1" "set (pending_requests n1) \<subseteq> set (pending_requests n) \<union> set (new_requests reply)"
    "length (pending_requests n1) \<le> length (pending_requests n) + length (new_requests reply)" by (simp_all add: step_ok_def)
  have "distinct (pending_requests n1 @ concat (map new_requests replies))"
    by (rule distinct_consume [where xs = "pending_requests n" and as = "new_requests reply"])
      (use Cons.prems(3) n1(1,2) in \<open>simp_all add: watching_def\<close>)
  moreover have "length (pending_requests n1 @ concat (map new_requests replies)) \<le> FD_SETSIZE" using Cons.prems(4) n1(3) by simp
  ultimately obtain n2 ds2 where "process_result sockfd txt_items r replies n1 = Inr (n2, ds2)"
    "step_ok sockfd r (concat (map new_requests replies)) n1 n2"
    using Cons.IH [OF n1(1)] Cons.prems(2) by auto
  with one step_ok_trans [OF one(2)] show ?case by simp
qed

lemma visit_requests_ok:
  assumes "inj sockfd" and "watching sockfd n" and "\<forall>q \<in> set rs. \<forall>reply \<in> set (replies q). named_reply reply"
    and "distinct rs" and "set rs \<subseteq> set (pending_requests n)"
    and "distinct (pending_requests n @ concat (map new_requests (concat (map replies rs))))"
    and "length (pending_requests n @ concat (map new_requests (concat (map replies rs)))) \<le> FD_SETSIZE"
  shows "\<exists>n' ds. visit_requests sockfd txt_items readable replies rs n = Inr (n', ds) \<and> watching sockfd n'"
  using assms(2-)
proof (induction rs arbitrary: n)
  case (Cons r rs)
  let ?news = "concat (map new_requests (replies r))"
  obtain n1 ds where
    one: "(if sockfd r \<in> set readable then process_result sockfd txt_items r (replies r) n else Inr (n, [])) = Inr (n1, ds)"
      "step_ok sockfd r ?news n n1"
  proof (cases "sockfd r \<in> set readable")
    case True
    have "distinct (pending_requests n @ ?news)" "length (pending_requests n @ ?news) \<le> FD_SETSIZE"
      using Cons.prems(5,6) by auto
    with process_result_ok [OF assms(1) Cons.prems(1), of "replies r"] Cons.prems(2) True show thesis using that by auto
  next
    case False
    have "step_ok sockfd r ?news n n" using Cons.prems(1) by (auto simp: step_ok_def)
    with False show thesis using that by simp
  qed
  then have n1: "watching sockfd n1" "set (pending_requests n1) \<subseteq> set (pending_requests n) \<union> set ?news"
    "length (pending_requests n1) \<le> length (pending_requests n) + length ?news" "set (pending_requests n) - {r} \<subseteq> set (pending_requests n1)"
    by (simp_all add: step_ok_def)
  have rs: "distinct rs" "set rs \<subseteq> set (pending_requests n1)" using Cons.prems(3,4) n1(4) by auto
  have d: "distinct (pending_requests n1 @ concat (map new_requests (concat (map replies rs))))"
    by (rule distinct_consume [where xs = "pending_requests n" and as = ?news])
      (use Cons.prems(5) n1(1,2) in \<open>simp_all add: watching_def\<close>)
  have l: "length (pending_requests n1 @ concat (map new_requests (concat (map replies rs)))) \<le> FD_SETSIZE"
    using Cons.prems(6) n1(3) by simp
  have nm: "\<forall>q \<in> set rs. \<forall>reply \<in> set (replies q). named_reply reply" using Cons.prems(2) by simp
  from Cons.IH [OF n1(1) nm rs d l] obtain n2 ds2 where
    "visit_requests sockfd txt_items readable replies rs n1 = Inr (n2, ds2)" "watching sockfd n2" by blast
  moreover have "rs = [] \<or> hd rs \<in> set (pending_requests n1)" using rs(2) hd_in_set by blast
  ultimately show ?case using one(1) by auto
qed simp

section \<open>Identifiers\<close>

lemma take_record_fresh:
  "\<forall>x \<in> set xs. host_name x \<noteq> hostname \<Longrightarrow> host_name x = hostname \<Longrightarrow> take_record hostname (xs @ [x]) = Some (x, xs)"
  by (induction xs) auto

lemma add_items_base [simp]: "di_id (add_items xs e) = di_id e" "di_location (add_items xs e) = di_location e"
  by (induction xs e rule: add_items.induct) auto

text \<open>The answer with the address of the last record that was added, when no other record has its host name.\<close>

lemma addr_reply_last:
  assumes "mdns_records n = xs @ [x]" and "\<forall>y \<in> set xs. host_name y \<noteq> host_name x"
  shows "serviceGetAddrInfoCallback sockfd txt_items more_coming (host_name x) addr r n =
    (finish_request sockfd more_coming r (n\<lparr>mdns_records := xs\<rparr>),
     if device_attach_handler n then
       [Attach (add_items (txt_items (txt_record x)) (DeviceInfo (service_name x) (NetworkLocation addr (word_of_int (record_port x)))))]
     else [])"
  using take_record_fresh [OF assms(2) refl] assms(1) by (simp add: serviceGetAddrInfoCallback_def)

section \<open>Passes of the loop\<close>

text \<open>
  What is asked of the library in a round: full names have a dot, requests are not given twice while they are pending, and no more
  than \<open>FD_SETSIZE\<close> are there.
\<close>

definition round_ok :: "(nat \<Rightarrow> dns_reply list) \<Rightarrow> windows_notifier \<Rightarrow> bool" where
  "round_ok replies n \<longleftrightarrow> (\<forall>q \<in> set (pending_requests n). \<forall>reply \<in> set (replies q). named_reply reply) \<and>
     distinct (pending_requests n @ concat (map new_requests (concat (map replies (pending_requests n))))) \<and>
     length (pending_requests n @ concat (map new_requests (concat (map replies (pending_requests n))))) \<le> FD_SETSIZE"

lemma loop_pass_watches:
  assumes "inj sockfd" and "watching sockfd n" and "round_ok replies n"
  obtains n' ds where "loop_pass sockfd txt_items ready replies n = Inr (n', ds)" and "watching sockfd n'"
proof -
  have nm: "\<forall>q \<in> set (pending_requests n). \<forall>reply \<in> set (replies q). named_reply reply"
    and d: "distinct (pending_requests n)"
      "distinct (pending_requests n @ concat (map new_requests (concat (map replies (pending_requests n)))))"
    and l: "length (pending_requests n @ concat (map new_requests (concat (map replies (pending_requests n))))) \<le> FD_SETSIZE"
    using assms(3) by (simp_all add: round_ok_def)
  have "\<exists>n' ds. loop_pass sockfd txt_items ready replies n = Inr (n', ds) \<and> watching sockfd n'"
    using visit_requests_ok [OF assms(1,2) nm d(1) _ d(2) l] assms(2) by (auto simp: loop_pass_def Let_def)
  with that show thesis by blast
qed

lemma reply_callback_flag: "reply_callback sockfd txt_items r reply n = Inr (n', ds) \<Longrightarrow> active_flag n' = active_flag n"
  by (cases reply) (auto simp: serviceBrowseCallback_def serviceResolveCallback_def serviceGetAddrInfoCallback_def add_request_def
      finish_request_def bindR_Inr_iff Let_def split: option.splits if_splits)

lemma process_result_flag: "process_result sockfd txt_items r replies n = Inr (n', ds) \<Longrightarrow> active_flag n' = active_flag n"
  by (induction replies arbitrary: n ds) (fastforce simp: bindR_Inr_iff dest: reply_callback_flag)+

lemma visit_requests_flag: "visit_requests sockfd txt_items readable replies rs n = Inr (n', ds) \<Longrightarrow> active_flag n' = active_flag n"
  by (induction rs arbitrary: n ds) (fastforce simp: bindR_Inr_iff dest: process_result_flag split: if_splits)+

lemma loop_pass_flag: "loop_pass sockfd txt_items ready replies n = Inr (n', ds) \<Longrightarrow> active_flag n' = active_flag n"
  by (auto simp: loop_pass_def Let_def dest: visit_requests_flag split: if_splits)

text \<open>The demands on the library, round by round, up to the one in which the loop is stopped.\<close>

fun rounds_ok :: "sockfd \<Rightarrow> txt_items \<Rightarrow> round list \<Rightarrow> windows_notifier \<Rightarrow> bool" where
  "rounds_ok sockfd txt_items [] n \<longleftrightarrow> True"
| "rounds_ok sockfd txt_items ((stopped, ready, replies) # rounds) n \<longleftrightarrow> round_ok replies n \<and>
     (stopped \<or> (case loop_pass sockfd txt_items ready replies n of Inl _ \<Rightarrow> True | Inr (n', ds) \<Rightarrow> rounds_ok sockfd txt_items rounds n'))"

fun until_stopped :: "round list \<Rightarrow> round list" where
  "until_stopped [] = []"
| "until_stopped ((stopped, x) # rounds) = (stopped, x) # (if stopped then [] else until_stopped rounds)"

lemma thread_loop_stopped: "\<not> active_flag n \<Longrightarrow> thread_loop sockfd txt_items rounds n = Inr (n, [], True)"
  by (cases rounds) auto

lemma thread_loop_outcome:
  assumes "inj sockfd" and "watching sockfd n" and "active_flag n" and "rounds_ok sockfd txt_items rounds n"
  shows "\<exists>n' ds. thread_loop sockfd txt_items rounds n = Inr (n', ds, \<exists>x \<in> set rounds. fst x) \<and> watching sockfd n' \<and>
    thread_loop sockfd txt_items (until_stopped rounds) n = thread_loop sockfd txt_items rounds n"
  using assms(2-4)
proof (induction rounds arbitrary: n)
  case (Cons x rounds)
  obtain stopped ready replies where x: "x = (stopped, ready, replies)" by (cases x)
  have "round_ok replies n" using Cons.prems(3) x by simp
  then obtain n1 ds1 where 1: "loop_pass sockfd txt_items ready replies n = Inr (n1, ds1)" "watching sockfd n1"
    by (rule loop_pass_watches [OF assms(1) Cons.prems(1)])
  have a1: "active_flag n1" using loop_pass_flag [OF 1(1)] Cons.prems(2) by simp
  show ?case
  proof (cases stopped)
    case True
    have "watching sockfd (n1\<lparr>active_flag := False\<rparr>)" using 1(2) by (simp add: watching_def)
    with True 1(1) x Cons.prems(2) show ?thesis by (simp add: thread_loop_stopped)
  next
    case False
    with Cons.prems(3) x 1(1) have "rounds_ok sockfd txt_items rounds n1" by simp
    from Cons.IH [OF 1(2) a1 this] False 1(1) x Cons.prems(2) show ?thesis by auto
  qed
qed auto

section \<open>Properties\<close>



text \<open>
  With 64 requests pending, a further one is pending without being watched: its reply never arrives.
\<close>

lemma full_set_ignores_request:
  assumes "inj sockfd" and "watching sockfd n" and "length (pending_requests n) = FD_SETSIZE" and "r \<notin> set (pending_requests n)"
  shows "r \<in> set (pending_requests (add_request sockfd (Some r) n)) \<and> sockfd r \<notin> set (read_set (add_request sockfd (Some r) n))"
  using assms watching_length [OF assms(1,2)]
  by (auto simp: add_request_def FD_SET_def watching_def dest: injD)

lemma full_set_ignores_request_example:
  "65 \<notin> set (read_set (add_request id (Some 65) (NetworkDeviceNotifierWindows\<lparr>pending_requests := [0..<64], read_set := [0..<64]\<rparr>)))"
  using full_set_ignores_request [of id "NetworkDeviceNotifierWindows\<lparr>pending_requests := [0..<64], read_set := [0..<64]\<rparr>" 65]
  by (simp add: watching_def FD_SETSIZE_def)

text \<open>
  C36: From the resolved service to the device: when the record of the service is the only one of its host, the answer with
  the address makes it a device named by the first label of the full name, with the address and the port as they came
  and the non-empty items of the TXT record; the record is used up, and both requests are finished.
\<close>

theorem windows_device:
  assumes "CHR ''.'' \<in> set fullname" and "\<forall>x \<in> set (mdns_records n). host_name x \<noteq> host" and "device_attach_handler n"
    and "serviceResolveCallback sockfd False fullname host prt text (Some q) r n = Inr n1"
  shows "\<exists>n2 e. serviceGetAddrInfoCallback sockfd txt_items False host addr q n1 = (n2, [Attach e]) \<and>
    e = add_items (txt_items text) (DeviceInfo (takeWhile (\<lambda>c. c \<noteq> CHR ''.'') fullname) (NetworkLocation addr prt)) \<and>
    located e \<and> mdns_records n2 = mdns_records n \<and>
    pending_requests n2 = filter (\<lambda>x. x \<noteq> r \<and> x \<noteq> q) (pending_requests n)"
proof -
  let ?x = "\<lparr>service_name = takeWhile (\<lambda>c. c \<noteq> CHR ''.'') fullname, host_name = host, record_port = uint prt, txt_record = text\<rparr>"
  have n1: "n1 = finish_request sockfd False r (add_request sockfd (Some q) (n\<lparr>mdns_records := mdns_records n @ [?x]\<rparr>))"
    using assms(1,4) by (simp add: serviceResolveCallback_def)
  have "mdns_records n1 = mdns_records n @ [?x]" by (simp add: n1 finish_request_def add_request_def)
  from addr_reply_last [OF this, of sockfd txt_items False addr q] assms(2,3) show ?thesis
    by (auto simp: n1 finish_request_def add_request_def located_def DeviceInfo_def keep_network_def)
qed

theorem windows_device_witness:
  "\<exists>n1 n2. serviceResolveCallback id False ''lidar._ldcp._tcp.local.'' ''host'' 7 [] (Some 5) 4
      (NetworkDeviceNotifierWindows\<lparr>device_attach_handler := True\<rparr>) = Inr n1 \<and>
    serviceGetAddrInfoCallback id (\<lambda>s. [Some (''model'', ''LTME'')]) False ''host'' 1 5 n1 =
      (n2, [Attach \<lparr>di_id = ''lidar'', di_location = Some (NetworkLocation 1 7), di_metadata = [''model'' \<mapsto> ''LTME'']\<rparr>])"
proof -
  let ?n = "NetworkDeviceNotifierWindows\<lparr>device_attach_handler := True\<rparr>"
  obtain n1 where n1: "serviceResolveCallback id False ''lidar._ldcp._tcp.local.'' ''host'' 7 [] (Some 5) 4 ?n = Inr n1"
    by (simp add: serviceResolveCallback_def)
  have h: "\<forall>x \<in> set (mdns_records ?n). host_name x \<noteq> ''host''" by (simp add: NetworkDeviceNotifierWindows_def)
  from windows_device [OF _ h _ n1, of "\<lambda>s. [Some (''model'', ''LTME'')]" 1] n1 show ?thesis
    by (auto simp: DeviceInfo_def keep_network_def)
qed

text \<open>
  A service whose name has a dot is attached under the part before the dot, while its removal is reported with the whole
  name: the manager does not find it, and it stays in the list.
\<close>

lemma dotted_name_stays:
  assumes "CHR ''.'' \<in> set serviceName" and "CHR ''.'' \<in> set fullname"
  shows "\<exists>m' log. discover [Attach (add_items items (DeviceInfo (takeWhile (\<lambda>c. c \<noteq> CHR ''.'') fullname) (NetworkLocation addr prt)))]
      DeviceManager = Inr (m', log) \<and>
    (\<forall>n. discover (snd (serviceBrowseCallback sockfd False serviceName None n)) m' = Inr (m', [])) \<and> device_entries m' \<noteq> []"
proof -
  let ?e = "add_items items (DeviceInfo (takeWhile (\<lambda>c. c \<noteq> CHR ''.'') fullname) (NetworkLocation addr prt))"
  have "located ?e" by (simp add: located_def DeviceInfo_def keep_network_def)
  moreover have "takeWhile (\<lambda>c. c \<noteq> CHR ''.'') fullname \<noteq> serviceName"
    using assms(1) set_takeWhileD by fastforce
  then have "di_id ?e \<noteq> serviceName" by (simp add: DeviceInfo_def)
  ultimately show ?thesis
    by (auto simp: onDeviceAttached_def onDeviceDetached_def serviceBrowseCallback_def DeviceInfo_copy_located DeviceManager_def)
qed

lemma dotted_name_stays_example:
  "\<exists>m' log. discover [Attach (DeviceInfo (takeWhile (\<lambda>c. c \<noteq> CHR ''.'') ''hall.2._ldcp._tcp.local.'') (NetworkLocation 1 2))]
      DeviceManager = Inr (m', log) \<and>
    (\<forall>n. discover (snd (serviceBrowseCallback id False ''hall.2'' None n)) m' = Inr (m', [])) \<and> device_entries m' \<noteq> []"
  using dotted_name_stays [of "''hall.2''" "''hall.2._ldcp._tcp.local.''" "[]" 1 2 id] by simp

text \<open>
  A notifier that is stopped before its thread has begun is not stopped: the flag is still false, so the thread is not
  joined, then sets the flag and runs on; starting again ends the process.
\<close>

lemma stop_before_begin:
  "\<exists>n1 m1 h1 m2 h2. addDeviceNotifier (Windows_init sockfd (Some r)) p DeviceManager (\<lambda>p. NetworkDeviceNotifierWindows) = (m1, h1, True) \<and>
    startMonitoring Windows_start m1 h1 = Inr (m2, h2) \<and> stopMonitoring Windows_stop m2 h2 = Inr (m2\<lparr>monitoring_started := False\<rparr>, h2) \<and>
    n1 = thread_begins (h2 p) \<and> thread' n1 \<and> active_flag n1 \<and>
    startMonitoring Windows_start (m2\<lparr>monitoring_started := False\<rparr>) (h2(p := n1)) = Inl Terminate"
  by (simp add: addDeviceNotifier_def Windows_init_def startMonitoring_def stopMonitoring_def Windows_start_def Windows_stop_def
      thread_begins_def DeviceManager_def NetworkDeviceNotifierWindows_def Let_def)

text \<open>
  Monitoring with initialised notifiers whose threads have begun: they all run after \<open>startMonitoring\<close> and are joined by
  \<open>stopMonitoring\<close>, and it can be repeated; a notifier that runs already or is there twice ends the process.
\<close>

lemma windows_monitoring:
  assumes "\<forall>p \<in> set (notifiers' m). pending_requests (h p) \<noteq> []"
  shows "if distinct (notifiers' m) \<and> (\<forall>p \<in> set (notifiers' m). \<not> thread' (h p)) then
      \<exists>m' h' m'' h''. startMonitoring Windows_start m h = Inr (m', h') \<and> (\<forall>p \<in> set (notifiers' m). thread' (h' p)) \<and>
        stopMonitoring Windows_stop m' (\<lambda>p. if p \<in> set (notifiers' m) then thread_begins (h' p) else h' p) = Inr (m'', h'') \<and>
        notifiers' m'' = notifiers' m \<and> device_entries m'' = device_entries m \<and> \<not> monitoring_started m'' \<and>
        (\<forall>p \<in> set (notifiers' m). \<not> thread' (h'' p) \<and> pending_requests (h'' p) \<noteq> [])
    else startMonitoring Windows_start m h = Inl Terminate"
  using assms by (rule windows.monitoring)

lemma windows_monitoring_example:
  "startMonitoring Windows_start (DeviceManager\<lparr>notifiers' := [0, 0]\<rparr>)
    (\<lambda>p. NetworkDeviceNotifierWindows\<lparr>pending_requests := [1]\<rparr>) = Inl Terminate"
  using windows_monitoring [of "DeviceManager\<lparr>notifiers' := [0, 0]\<rparr>" "\<lambda>p. NetworkDeviceNotifierWindows\<lparr>pending_requests := [1]\<rparr>"]
  by simp

end
