(* ===== verification/Spec2Isabelle.thy ===== *)
theory Spec2Isabelle
  imports Device_Programs Shared_Text Scan_Stream Connecting Session_Threads Notifier_Linux Notifier_Windows
begin

text \<open>
  The LDCP SDK (src/*.cpp, include/ldcp/*.h): a client library for laser scanners.  An application discovers devices, opens
  one, sends it commands and reads scan data.

  \<^bold>\<open>Parts and how they interact\<close>

  \<^item> \<open>Prelude\<close>: faults and results (\<open>'a res\<close> is a fault or a value; the SDK's \<open>error_t\<close> codes are values), bytes, C strings,
    checked loads and stores.
  \<^item> \<open>Checksum\<close>, \<open>Base64\<close>: include/ldcp/utility.h.  The CRC is bitwise division by the CCITT polynomial and separates damaged
    neighbouring bytes; Base64 round trips, and the buffers that are too small for a decoded text.
  \<^item> \<open>Locations\<close>: error codes, enumerations, \<open>NetworkLocation\<close>, \<open>DeviceInfo\<close> (error.h, data_types.h, location.cpp,
    device_info.cpp) and the byte-order functions of a little-endian host.
  \<^item> \<open>Json\<close>: the RapidJSON values the SDK handles, with the assertions of their accessors.  \<open>Istream\<close>: the parts of \<open>std::istream\<close>
    the parser uses.
  \<^item> \<open>Framing\<close>: \<open>encapsulateOutgoingMessage\<close> and \<open>parseIncomingMessage\<close> of transport.cpp (net-strings with a CRC header).
  \<^item> \<open>Oob_Packet\<close>: the packed header of data_types.h and \<open>verifyOobPacket\<close>.
  \<^item> \<open>Net_Transport\<close>: the class \<open>NetworkTransport\<close> of transport.cpp.  The record has a field for each member and for each pending
    Asio operation.  \<open>io_step\<close> is one completion on the I/O thread, \<open>io_run\<close> a sequence of them, \<open>net_step\<close> and \<open>net_path\<close>
    interleave them with \<open>transmitMessage\<close> of the application.  \<open>Connecting\<close> takes \<open>connect\<close> apart into the steps of its two
    threads, the waiting caller and the handler on the I/O thread, and shows that every order of them ends as the operation does.
  \<^item> \<open>Interfaces\<close>: the locales \<open>drop_oldest\<close> (a bounded queue), \<open>condition_wait\<close> and \<open>total_wait\<close> (waiting on a condition
    variable), \<open>faulty_wait\<close> (the faults a wait may end with), \<open>simulated_wait\<close>, \<open>related_waits\<close> and \<open>observed_wait\<close> (two waits that
    go in step), \<open>sound_steps\<close> and \<open>budgeted_steps\<close> (programs of calls that keep an invariant and use up a resource).
  \<^item> \<open>Session\<close>: session.cpp.  A call that waits takes a list of event lists, one for every interval between two evaluations of its
    condition; its last evaluation is the one at the timeout.  \<open>session_step\<close> and \<open>session_path\<close> are its life over all operations.
    \<open>Session_Threads\<close> adds a second thread: one that reads scan data while a command waits, and one that executes commands while
    the first reads scan data.
  \<^item> \<open>Scan\<close>: \<open>readScanBlock\<close> and \<open>readScanFrame\<close> of device.cpp, with uninitialised members, short packets and short layers as faults.
  \<^item> \<open>Device_Base\<close>, \<open>Device\<close>, \<open>Bootloader\<close>: the commands.  All are one of three schemes over the contract \<open>command_channel\<close>, which
    \<open>Session\<close> satisfies.  Setters and getters are related by round trips.
  \<^item> \<open>Pending_Documents\<close>, \<open>Shared_Text\<close>: the memory behind \<open>StringRef\<close>.  Four commands of device.cpp and bootloader.cpp submit requests
    that only refer to the characters of a string, which are read when the transport writes the request out.  \<open>shared_writeData\<close>,
    \<open>shared_verifyHash\<close>, \<open>shared_setScanResolution\<close> and \<open>shared_setAngularFov\<close> have this memory; they refine the commands of
    \<open>Device\<close> and \<open>Bootloader\<close>, where a request has a copy, as long as no request is left waiting behind another.
  \<^item> \<open>Scan_Data\<close>: when a read of scan data cannot fault, in terms of what waits in the queues or arrives during the read.
  \<^item> \<open>Device_Calls\<close>, \<open>Device_Contract\<close>, \<open>Device_Programs\<close>: the whole interface as data.  A \<open>call\<close> is one method of \<open>Device\<close>, \<open>Bootloader\<close> or
    \<open>DeviceBase\<close> with what arrives during it; \<open>device_call\<close> carries it out.  \<open>allowed\<close> are the rules the caller keeps, \<open>promised\<close> is what the
    device promises: results of the types the code reads.  The locales \<open>orderly_channel\<close> and \<open>typed_channel\<close> extend \<open>command_channel\<close> by
    the faults of a command and by the promise, and \<open>sound_steps\<close> lifts the single calls to programs (progress and preservation).
  \<^item> \<open>Scan_Stream\<close>: scan data on the main connection, from the notifications as characters to the frame that is returned.
  \<^item> \<open>Device_Manager\<close>: device_manager.cpp with the locale \<open>notifier_class\<close> for the virtual functions of a notifier; the list of
    devices refines a queue of descriptions for each identifier.  \<open>Notifier_Linux\<close>, \<open>Notifier_Windows\<close>: the two subclasses of
    device_notifier.cpp, with Avahi and DNS-SD as environment; \<open>thread_loop\<close> is the loop of the second one's thread.
  \<^item> This theory: properties that go through the whole stack, from the characters of the TCP stream to the result of a
    command, from datagrams to a scan frame, and from a discovered service to a connection.

  \<^bold>\<open>Parameters\<close>

  The JSON writer and reader are functions (\<open>json_writer\<close>, \<open>json_reader\<close>); \<open>reads_back\<close> says what is asked of them for a document.
  Asio's conversions of IPv4 addresses are parameters of the commands that use them.  Outcomes of Asio operations, Avahi
  objects, DNS-SD requests and what these libraries report are arguments of the operations that receive them.  So are, in
  \<open>Shared_Text\<close>, the capacity a string grows to (\<open>grow\<close>) and what is read from memory that has been released (\<open>freed\<close>).

  The promises of a device are hypotheses: \<open>int_ids\<close> (the identifiers it sends are integers), \<open>answers_typed\<close> (the type of a result)
  and \<open>scan_all\<close> (the form of scan data).

  \<^bold>\<open>Bounds\<close>

  No fuel is used.  The net-string parser and the chain of read completions terminate by the length of the buffer.  The loop of
  \<open>readScanFrame\<close> may not end; it runs over a list of reads and is \<open>Unfinished\<close> when the list is used up.  Identifiers are \<open>int\<close>
  with the overflow at \<open>2 ^ 31 - 1\<close> as a fault, which a program of at most \<open>2 ^ 30\<close> calls cannot reach, as a call takes at most two; fields of packets, ports, addresses and time stamps are words.

  \<^bold>\<open>Not modelled\<close>

  \<^item> Locks are the atomicity of steps; data races on members that the code reads without a lock are not.
  \<^item> Time: a wait ends with its list of events.  Order of destruction of the singletons.  Memory exhaustion.
  \<^item> Asio, RapidJSON, Avahi and DNS-SD themselves.
\<close>

section \<open>From the TCP stream to the result of a command\<close>

lemma command_over_stream:
  assumes ok: "session_ok s" "kept_int s" "int_ids rd" "IsObject request" "transport' s = Some t" "id' s < 2 ^ 31 - 1"
    and t: "incoming_message_buffer t = []" "reading t" "\<not> io_stopped t"
    and ms: "\<forall>m \<in> set ms. reads_back wr rd m" "concat evss = map Tcp_bytes chunks" "concat chunks = concat (map (frame_of wr) ms)"
    and m: "filter (answers (id' s + 1)) ms = [m]" "has m ''result''"
  shows "\<exists>s'. executeCommand_response wr rd evss request s = Inr (s', no_error, Some m)"
proof -
  let ?t = "transmitMessage wr (with_id request (id' s + 1)) t"
  have "received_message_callback ?t" using ok(1,5) transmitMessage_owner [of t wr] by (simp add: session_ok_def same_callbacks_def)
  then have whole: "io_run wr rd (concat evss) ?t = Inr (?t\<lparr>incoming_message_buffer := []\<rparr>, map Message ms)"
    using io_run_chunks [OF ms(1), of ?t chunks] t ms(2,3) by simp
  obtain s' e r where run: "executeCommand_response wr rd evss request s = Inr (s', e, r)"
    using executeCommand_returns [OF ok(3,1,2,4,5)] ok(6) by force
  obtain t0 n t' cbs where "transport' s = Some t0"
    "io_run wr rd (concat (take n evss)) (transmitMessage wr (with_id request (id' s + 1)) t0) = Inr (t', cbs)"
    and c: "command_result (id' s + 1) (response_queue s) (messages cbs) e r (response_queue s')"
    and n: "filter (answers (id' s + 1)) (messages cbs) = [] \<Longrightarrow> n = length evss"
    by (rule executeCommand_run [OF ok(1) run]) (rule that; assumption)
  with ok(5) have io: "io_run wr rd (concat (take n evss)) ?t = Inr (t', cbs)" by simp
  have "concat evss = concat (take n evss) @ concat (drop n evss)" by (metis append_take_drop_id concat_append)
  with whole io have "\<exists>cbs2. cbs @ cbs2 = map Message ms" by (auto simp: io_run_append bindR_Inr_iff)
  then obtain cbs2 where "map Message ms = cbs @ cbs2" by metis
  then have "ms = messages cbs @ messages cbs2" by (metis messages_append messages_map_Message)
  with m(1) have f: "filter (answers (id' s + 1)) (messages cbs) @ filter (answers (id' s + 1)) (messages cbs2) = [m]" by simp
  have "filter (answers (id' s + 1)) (messages cbs) \<noteq> []"
  proof
    assume none: "filter (answers (id' s + 1)) (messages cbs) = []"
    with n io whole have "cbs = map Message ms" by simp
    with none m(1) show False by simp
  qed
  with f have "filter (answers (id' s + 1)) (messages cbs) = [m]" by (auto simp: append_eq_Cons_conv)
  with c m(2) run show ?thesis by (simp add: command_result_def)
qed

section \<open>From datagrams to a scan frame\<close>

text \<open>Datagrams the transport does not pass on.\<close>

definition noise :: "transport \<Rightarrow> io_event \<Rightarrow> bool" where
  "noise t ev \<longleftrightarrow> (\<exists>a q. ev = Udp_packet a q \<and> (a \<noteq> device_address t \<or> \<not> fst (verifyOobPacket q)))"

lemma io_run_noise:
  assumes "oob_receiving t" and "\<not> io_stopped t" and "\<forall>ev \<in> set evs. noise t ev"
  shows "io_run wr rd evs t = Inr (t, [])"
  using assms
proof (induction evs)
  case (Cons ev evs)
  then obtain a q where "ev = Udp_packet a q" "a \<noteq> device_address t \<or> \<not> fst (verifyOobPacket q)" by (auto simp: noise_def)
  moreover have "t\<lparr>oob_receiving := True\<rparr> = t" using Cons.prems(1) by (cases t) simp
  ultimately have "io_step wr rd ev t = Inr (t, [])"
    using Cons.prems by (auto simp: oobPacketHandler_def split: prod.split)
  with Cons show ?case by simp
qed simp

lemma poll_packet:
  assumes "transport' s = Some t" and "oob_receiving t" "\<not> io_stopped t" "received_oob_packet_callback t"
    and "scan_block_queue_primary s = []" "scan_block_queue_oob s = []"
    and "\<forall>ev \<in> set js. noise t ev" and "verifyOobPacket p = (True, p)"
  shows "pollForScanBlock wr rd [js @ [Udp_packet (device_address t) p]] s = Inr (s, no_error, Oob_block p)"
proof -
  have tt: "t\<lparr>oob_receiving := True\<rparr> = t" using assms(2) by (cases t) simp
  then have "io_run wr rd [Udp_packet (device_address t) p] t = Inr (t, [Oob_data p])"
    using assms by (simp add: oobPacketHandler_def)
  then have "io_run wr rd (js @ [Udp_packet (device_address t) p]) t = Inr (t, [Oob_data p])"
    using io_run_noise [OF assms(2,3,7)] by (simp add: io_run_append)
  moreover have "s\<lparr>transport' := Some t\<rparr> = s" "s\<lparr>scan_block_queue_oob := []\<rparr> = s" using assms(1,6) by (cases s; simp)+
  ultimately have "session_io wr rd (js @ [Udp_packet (device_address t) p]) s = Inr (s\<lparr>scan_block_queue_oob := [p]\<rparr>)"
    using assms(1,6) by (simp add: session_io_def onOobPacketReceived_def SCAN_BLOCK_BUFFERING_COUNT_def)
  then show ?thesis
    using assms(5,6) \<open>s\<lparr>scan_block_queue_oob := []\<rparr> = s\<close>
    by (simp add: pollForScanBlock_def block_ready_def front_block_def)
qed

lemma decode_oob_old: "decode_oob d b = decode_oob d b'"
  by (simp add: decode_oob_def)

lemma reads_packets:
  assumes "transport' s = Some t" and "oob_receiving t" "\<not> io_stopped t" "received_oob_packet_callback t"
    and "scan_block_queue_primary s = []" "scan_block_queue_oob s = []"
    and "\<forall>(js, p) \<in> set arrivals. (\<forall>ev \<in> set js. noise t ev) \<and> verifyOobPacket p = (True, p)"
    and "list_all2 (\<lambda>(js, p) b. decode_oob p ScanBlock = Inr b) arrivals blocks"
  shows "\<exists>b'. reads wr rd s b (map (\<lambda>(js, p). [js @ [Udp_packet (device_address t) p]]) arrivals) blocks s b'"
  using assms(8,7)
proof (induction arrivals blocks arbitrary: b rule: list_all2_induct)
  case Nil
  show ?case by (auto intro: reads.intros)
next
  case (Cons a arrivals b1 blocks)
  obtain js p where a: "a = (js, p)" by (cases a)
  with Cons have p: "\<forall>ev \<in> set js. noise t ev" "verifyOobPacket p = (True, p)" "decode_oob p b = Inr b1"
    using decode_oob_old [of p b ScanBlock] by auto
  have "p \<noteq> []" using p(2) by (auto simp: verifyOobPacket_eq)
  with poll_packet [OF assms(1-6) p(1,2), of wr rd] p(3)
  have "read_block wr rd [js @ [Udp_packet (device_address t) p]] s b = Inr (s, b1, no_error)"
    by (simp add: read_block_def decode_block_def)
  moreover obtain b' where "reads wr rd s b1 (map (\<lambda>(js, p). [js @ [Udp_packet (device_address t) p]]) arrivals) blocks s b'"
    using Cons by force
  ultimately show ?case using a by (auto intro: reads.intros)
qed

section \<open>From a discovery to a connection\<close>

lemma base_open_network:
  assumes "DeviceBase_info e = Inr d" and "di_location e = Some (NetworkLocation a p)"
  shows "\<exists>d' s t. base_open (Some None) d = Inr (d', no_error) \<and> session' d' = Some s \<and> isOpened s \<and> transport' s = Some t \<and>
    device_address t = (ntohl a, ntohs p)"
  using assms
  by (auto simp: DeviceBase_info_def DeviceInfo_location_def DeviceBase_def keep_network_def base_open_def on_session_def
      isOpened_def isConnected_def opens)

section \<open>A device for the witnesses\<close>

definition device_example :: "session \<Rightarrow> device" where
  "device_example s = \<lparr>location' = Some (NetworkLocation 1 2), session' = Some s\<rparr>"

definition model_reply :: json where
  "model_reply = JObject [(''jsonrpc'', JString ''2.0''), (''id'', JInt 0), (''result'', JString ''LTME-02A'')]"

definition oob_transport :: transport where
  "oob_transport = opened_transport\<lparr>oob_open := True, oob_receiving := True\<rparr>"

definition oob_session :: session where
  "oob_session = opened_example\<lparr>transport' := Some oob_transport\<rparr>"

definition good_packet :: "byte list" where
  "good_packet = [0xFF, 0xFF, 0, 0, 0, 1, 1, 0, 0, 0, 0, 0, 235, 165, 0, 1, 0x34, 0x12, 9]"

section \<open>Properties across components\<close>



text \<open>
  C13: A scan frame from end to end: on a device that receives out-of-band packets and has none waiting, the packets of a
  whole frame, between them any datagrams of other senders or with a wrong checksum, make \<open>readScanFrame\<close> return
  the frame their samples form, after exactly one read for each packet.
\<close>

theorem frame_over_datagrams:
  assumes "session' d = Some s" and "transport' s = Some t" and "oob_receiving t" and "\<not> io_stopped t"
    and "received_oob_packet_callback t" and "scan_block_queue_primary s = []" and "scan_block_queue_oob s = []"
    and "\<forall>(js, p) \<in> set arrivals. (\<forall>ev \<in> set js. noise t ev) \<and> verifyOobPacket p = (True, p)"
    and "list_all2 (\<lambda>(js, p) b. decode_oob p ScanBlock = Inr b) arrivals blocks" and "whole_frame c m blocks"
  shows "readScanFrame wr rd (map (\<lambda>(js, p). [js @ [Udp_packet (device_address t) p]]) arrivals) f d =
    Inr (d, frame_of_blocks m blocks, Frame_result no_error)"
proof -
  from reads_packets [OF assms(2-9)] obtain b' where
    r: "reads wr rd s ScanBlock (map (\<lambda>(js, p). [js @ [Udp_packet (device_address t) p]]) arrivals) blocks s b'" by blast
  have "read_frame wr rd (map (\<lambda>(js, p). [js @ [Udp_packet (device_address t) p]]) arrivals) s f =
    Inr (s, frame_of_blocks m blocks, Frame_result no_error)"
    using read_frame_whole [where pre = "[]" and rest = "[]", OF _ _ assms(10), of wr rd s _ s b' f] r by simp
  moreover have "d\<lparr>session' := Some s\<rparr> = d" using assms(1) by (cases d) simp
  ultimately show ?thesis using assms(1) by (simp add: readScanFrame_def on_session_def)
qed

theorem frame_over_datagrams_witness:
  "\<exists>f. readScanFrame wr_example rd_example [[[Udp_packet (0, 0) [], Udp_packet (device_address oob_transport) good_packet]]]
      \<lparr>sf_timestamp = None, sf_angular_fov = None, sf_layers = []\<rparr> (device_example oob_session) =
    Inr (device_example oob_session, f, Frame_result no_error)"
proof -
  have v: "verifyOobPacket good_packet = (True, good_packet)"
    by (simp add: verifyOobPacket_eq good_packet_def put_checksum_def CalculateCRC16_def crc16_step_def le16_def Let_def)
  have b: "decode_oob good_packet ScanBlock = Inr (block_example 0 1)"
    by (simp add: decode_oob_def oob_samples sample_of_def sample_width_def good_packet_def sizeof_OobPacketHeader_def header_of_def
      le16_def le32_def intensity_width_def flag_angular_fov_def INTENSITY_WIDTH_8BIT_def block_example_def Let_def)
  have w: "whole_frame 1 1 [block_example 0 1]" by (simp add: whole_frame_def block_example_def enough_def)
  have e: "verifyOobPacket [] = (False, [])" by (simp add: verifyOobPacket_eq)
  have q: "scan_block_queue_primary oob_session = []" "scan_block_queue_oob oob_session = []"
    by (simp_all add: oob_session_def opened_idle)
  have t: "received_oob_packet_callback oob_transport" "\<not> io_stopped oob_transport" by (simp_all add: oob_transport_def opened_idle)
  show ?thesis
    using frame_over_datagrams [where d = "device_example oob_session" and s = oob_session and t = oob_transport
        and arrivals = "[([Udp_packet (0, 0) []], good_packet)]" and blocks = "[block_example 0 1]", OF _ _ _ t(2,1) q _ _ w] v b e
    by (simp add: device_example_def oob_session_def oob_transport_def noise_def)
qed

text \<open>
  C23: From a discovery to a connection: the service Avahi has resolved is the last entry of the manager's list, under its
  name; a device made from this entry connects, when the connection is accepted, to exactly the address and the port the
  service was announced with, whatever the byte orders in between.
\<close>

theorem discovered_device_connects:
  assumes "device_attach_handler n" and "entries_located m"
    and "serviceResolverCallback r AVAHI_RESOLVER_FOUND name addr prt txt n = (n', ds)"
  shows "\<exists>m' log es e d d' s t. discover ds m = Inr (m', log) \<and> deviceEntries m' = Inr (es @ [e]) \<and> DeviceInfo_id e = name \<and>
    Device_of_info e = Inr d \<and> base_open (Some None) d = Inr (d', no_error) \<and> session' d' = Some s \<and> isOpened s \<and>
    transport' s = Some t \<and> device_address t = (ntohl addr, prt)"
proof -
  let ?e = "add_txt txt (DeviceInfo name (NetworkLocation addr (htons prt)))"
  have ds: "ds = [Attach ?e]" using assms(1,3) by (auto simp: serviceResolverCallback_def)
  have loc: "di_location ?e = Some (NetworkLocation addr (htons prt))" by (simp add: DeviceInfo_def keep_network_def)
  then have e: "located ?e" by (simp add: located_def)
  then have "discover ds m = Inr (m\<lparr>device_entries := device_entries m @ [?e]\<rparr>, if callback' m then [(EVENT_DEVICE_ATTACHED, ?e)] else [])"
    by (simp add: ds onDeviceAttached_def DeviceInfo_copy_located)
  moreover have "mapR DeviceInfo_copy (device_entries m @ [?e]) = Inr (map id (device_entries m @ [?e]))"
    using assms(2) e by (intro mapR_total) (auto simp: entries_located_def DeviceInfo_copy_located)
  moreover obtain d where d: "DeviceBase_info ?e = Inr d" using loc by (simp add: DeviceBase_info_def DeviceInfo_location_def)
  ultimately show ?thesis
    using base_open_network [OF d loc] by (auto simp: deviceEntries_def Device_of_info_def DeviceInfo_id_def DeviceInfo_def)
qed

theorem discovered_device_connects_witness:
  "\<exists>m' log es e d d' s t. discover (snd (serviceResolverCallback 7 AVAHI_RESOLVER_FOUND ''lidar'' 0x0100007F 2105 []
      (NetworkDeviceNotifierLinux\<lparr>device_attach_handler := True\<rparr>))) DeviceManager = Inr (m', log) \<and> deviceEntries m' = Inr (es @ [e]) \<and>
    Device_of_info e = Inr d \<and> base_open (Some None) d = Inr (d', no_error) \<and> session' d' = Some s \<and>
    transport' s = Some t \<and> device_address t = (0x7F000001, 2105)"
proof -
  let ?n = "NetworkDeviceNotifierLinux\<lparr>device_attach_handler := True\<rparr>"
  obtain n' ds where r: "serviceResolverCallback 7 AVAHI_RESOLVER_FOUND ''lidar'' 0x0100007F 2105 [] ?n = (n', ds)"
    by (cases "serviceResolverCallback 7 AVAHI_RESOLVER_FOUND ''lidar'' 0x0100007F 2105 [] ?n")
  have l: "entries_located DeviceManager" and h: "device_attach_handler ?n" by (simp_all add: entries_located_def DeviceManager_def)
  have x: "ntohl 0x0100007F = 0x7F000001" by (simp add: htonl_def)
  show ?thesis
    unfolding r snd_conv using discovered_device_connects [OF h l r] unfolding x by metis
qed

end
